(* ===== verification/Kernel_Prelude.thy ===== *)
theory Kernel_Prelude
  imports Main "HOL-Library.Word" "HOL-Library.Monad_Syntax" "HOL-Library.Multiset"
begin

text \<open>
  The vocabulary the component theories share: addresses and the widths of the C
  integer types, list segments threaded through a \<open>next\<close> field, and the generic facts on
  lists, maps and function updates that the component proofs use.

  An address is a natural number and \<open>0\<close> is \<^verbatim>\<open>NULL\<close>.  C integers whose wrap-around
  the code can reach are natural numbers with the truncation written out
  (\<open>u8\<close>, \<open>u32\<close>, \<open>u64\<close>, \<open>sub32\<close>, \<open>sub64\<close>).  A kernel operation that can reach undefined
  behaviour (a wild access, a dereference of \<^verbatim>\<open>NULL\<close>) returns an \<open>option\<close>, and \<open>None\<close>
  is that fault.
\<close>

unbundle bit_operations_syntax

named_theorems chain_simps \<open>rules for list segments in a linked heap\<close>
named_theorems width_simps \<open>rules for the truncation functions of the C integer types\<close>

type_synonym addr = nat

definition u8 :: "nat \<Rightarrow> nat" where "u8 n = n mod 2 ^ 8"
definition u32 :: "nat \<Rightarrow> nat" where "u32 n = n mod 2 ^ 32"
definition u64 :: "nat \<Rightarrow> nat" where "u64 n = n mod 2 ^ 64"

text \<open>Unsigned subtraction wraps modulo the width.\<close>

definition sub32 :: "nat \<Rightarrow> nat \<Rightarrow> nat" where
  "sub32 a b = (if b \<le> a then a - b else 2 ^ 32 + a - b)"
definition sub64 :: "nat \<Rightarrow> nat \<Rightarrow> nat" where
  "sub64 a b = (if b \<le> a then a - b else 2 ^ 64 + a - b)"

text \<open>Conversion to a signed 32-bit \<^verbatim>\<open>int\<close>.\<close>

definition s32 :: "int \<Rightarrow> int" where
  "s32 n = (let v = n mod 2 ^ 32 in if v < 2 ^ 31 then v else v - 2 ^ 32)"

lemma s32_small [width_simps]: "- 2147483648 \<le> n \<Longrightarrow> n < 2147483648 \<Longrightarrow> s32 n = n"
proof -
  assume a: "- 2147483648 \<le> n" "n < 2147483648"
  show ?thesis
  proof (cases "0 \<le> n")
    case False
    then have "n mod 2 ^ 32 = n + 2 ^ 32" using a by (intro int_mod_pos_eq [where q = "-1"]) simp_all
    then show ?thesis using a False by (simp add: s32_def)
  qed (use a in \<open>simp add: s32_def\<close>)
qed

lemma s32_less: "s32 n < 2 ^ 31"
proof -
  have "v < 2 ^ 32 \<Longrightarrow> (if v < 2 ^ 31 then v else v - 2 ^ 32) < (2 ^ 31 :: int)" for v by auto
  from this [of "n mod 2 ^ 32"] show ?thesis unfolding s32_def Let_def by simp
qed

text \<open>Conversion to a signed 8-bit integer.\<close>

definition s8 :: "int \<Rightarrow> int" where
  "s8 n = (let v = n mod 2 ^ 8 in if v < 2 ^ 7 then v else v - 2 ^ 8)"

lemma s8_small: "- 128 \<le> n \<Longrightarrow> n < 128 \<Longrightarrow> s8 n = n"
proof -
  assume a: "- 128 \<le> n" "n < 128"
  show ?thesis
  proof (cases "0 \<le> n")
    case False
    then have "n mod 2 ^ 8 = n + 2 ^ 8" using a by (intro int_mod_pos_eq [where q = "-1"]) simp_all
    then show ?thesis using a False by (simp add: s8_def)
  qed (use a in \<open>simp add: s8_def\<close>)
qed

text \<open>Conversion of a signed value to \<^verbatim>\<open>uint64_t\<close>.\<close>

definition to_u64 :: "int \<Rightarrow> nat" where "to_u64 n = nat (n mod 2 ^ 64)"

lemma to_u64_nonneg: "0 \<le> n \<Longrightarrow> n < 2 ^ 64 \<Longrightarrow> to_u64 n = nat n"
  by (simp add: to_u64_def)

lemma to_u64_less: "to_u64 n < 2 ^ 64"
  by (simp add: to_u64_def nat_less_iff)

lemma u8_small [width_simps]: "n < 256 \<Longrightarrow> u8 n = n"
  by (simp add: u8_def)

lemma u32_small [width_simps]: "n < 4294967296 \<Longrightarrow> u32 n = n"
  by (simp add: u32_def)

lemma u64_small [width_simps]: "n < 18446744073709551616 \<Longrightarrow> u64 n = n"
  by (simp add: u64_def)

lemma sub32_le [width_simps]: "b \<le> a \<Longrightarrow> sub32 a b = a - b"
  by (simp add: sub32_def)

lemma sub64_le [width_simps]: "b \<le> a \<Longrightarrow> sub64 a b = a - b"
  by (simp add: sub64_def)

lemma u32_less: "u32 n < 2 ^ 32"
  by (simp add: u32_def)

section \<open>Linked segments\<close>

text \<open>
  \<open>seg nx p xs r\<close>: following the field \<open>nx\<close> from \<open>p\<close> visits exactly the cells \<open>xs\<close>, none
  of them \<^verbatim>\<open>NULL\<close>, and arrives at \<open>r\<close>.  A segment that arrives at \<^verbatim>\<open>NULL\<close> is a
  complete list.
\<close>

primrec seg :: "(addr \<Rightarrow> addr) \<Rightarrow> addr \<Rightarrow> addr list \<Rightarrow> addr \<Rightarrow> bool" where
  "seg nx p [] r \<longleftrightarrow> p = r"
| "seg nx p (x # xs) r \<longleftrightarrow> p = x \<and> x \<noteq> 0 \<and> seg nx (nx x) xs r"

abbreviation chain :: "(addr \<Rightarrow> addr) \<Rightarrow> addr \<Rightarrow> addr list \<Rightarrow> bool" where
  "chain nx p xs \<equiv> seg nx p xs 0"

lemma seg_append [chain_simps]:
  "seg nx p (xs @ ys) r \<longleftrightarrow> (\<exists>q. seg nx p xs q \<and> seg nx q ys r)"
  by (induction xs arbitrary: p) auto

lemma seg_cong:
  "(\<And>x. x \<in> set xs \<Longrightarrow> nx x = nx' x) \<Longrightarrow> seg nx p xs r = seg nx' p xs r"
  by (induction xs arbitrary: p) auto

lemma seg_upd [simp]: "a \<notin> set xs \<Longrightarrow> seg (nx(a := b)) p xs r = seg nx p xs r"
  by (rule seg_cong) auto

lemma chain_nonzero: "seg nx p xs r \<Longrightarrow> 0 \<notin> set xs"
  by (induction xs arbitrary: p) auto

lemma chain_null [simp]: "chain nx 0 xs \<longleftrightarrow> xs = []"
  by (cases xs) auto

lemma chain_cons_ref: "p \<noteq> 0 \<Longrightarrow> chain nx p xs \<longleftrightarrow> (\<exists>ys. xs = p # ys \<and> chain nx (nx p) ys)"
  by (cases xs) auto

lemma chain_unique: "chain nx p xs \<Longrightarrow> chain nx p ys \<Longrightarrow> xs = ys"
proof (induction xs arbitrary: p ys)
  case (Cons x xs)
  then show ?case by (cases ys) auto
qed auto

lemma chain_head_notin: "chain nx (nx a) xs \<Longrightarrow> a \<notin> set xs"
proof
  assume ch: "chain nx (nx a) xs" and "a \<in> set xs"
  then obtain us vs where xs: "xs = us @ a # vs"
    by (auto simp: in_set_conv_decomp)
  from ch have "chain nx (nx a) vs"
    by (auto simp: xs chain_simps)
  from chain_unique [OF this ch] show False
    by (simp add: xs)
qed

lemma chain_distinct: "chain nx p xs \<Longrightarrow> distinct xs"
  by (induction xs arbitrary: p) (auto dest: chain_head_notin)

lemma chain_snoc_upd:
  assumes "chain nx p (xs @ [a])" and "b \<noteq> 0" and "b \<notin> set xs" and "b \<noteq> a"
    and "nx b = 0"
  shows "chain (nx(a := b)) p (xs @ [a, b])"
proof -
  from assms(1) have "seg nx p xs a" and "a \<noteq> 0" and "a \<notin> set xs"
    using chain_distinct [OF assms(1)] by (auto simp: chain_simps)
  then have "seg (nx(a := b)) p xs a"
    by simp
  then show ?thesis
    using assms \<open>a \<noteq> 0\<close> by (auto simp: chain_simps)
qed

lemma chain_unlink:
  assumes "chain nx p (us @ a # b # vs)"
  shows "chain (nx(a := nx b)) p (us @ a # vs)"
proof -
  have d: "distinct (us @ a # b # vs)"
    using assms by (rule chain_distinct)
  from assms have "seg nx p us a" "a \<noteq> 0" "chain nx (nx b) vs"
    by (auto simp: chain_simps)
  moreover from d have "a \<notin> set us" "a \<notin> set vs"
    by auto
  ultimately show ?thesis
    by (auto simp: chain_simps)
qed

section \<open>Removing the first match of a list\<close>

primrec remove_first :: "('a \<Rightarrow> bool) \<Rightarrow> 'a list \<Rightarrow> 'a list" where
  "remove_first P [] = []"
| "remove_first P (x # xs) = (if P x then xs else x # remove_first P xs)"

lemma find_split:
  assumes "find P xs = Some x"
  obtains us vs where "xs = us @ x # vs" "P x" "\<forall>u \<in> set us. \<not> P u" "remove_first P xs = us @ vs"
proof -
  from assms have "\<exists>us vs. xs = us @ x # vs \<and> P x \<and> (\<forall>u \<in> set us. \<not> P u) \<and> remove_first P xs = us @ vs"
  proof (induction xs)
    case (Cons y ys)
    show ?case
    proof (cases "P y")
      case True
      with Cons.prems show ?thesis by (intro exI [of _ "[]"] exI [of _ ys]) auto
    next
      case False
      with Cons obtain us vs where "ys = us @ x # vs" "P x" "\<forall>u \<in> set us. \<not> P u" "remove_first P ys = us @ vs"
        by auto
      with False show ?thesis by (intro exI [of _ "y # us"] exI [of _ vs]) auto
    qed
  qed simp
  then show thesis using that by blast
qed

lemma find_None_all: "find P xs = None \<Longrightarrow> \<forall>x \<in> set xs. \<not> P x"
  by (auto simp: find_None_iff)

lemma remove_first_subset: "set (remove_first P xs) \<subseteq> set xs"
  by (induction xs) auto

lemma mset_remove_first:
  assumes "find P xs = Some x"
  shows "mset xs = add_mset x (mset (remove_first P xs))"
  using assms by (elim find_split) simp

lemma distinct_remove_first: "distinct xs \<Longrightarrow> distinct (remove_first P xs)"
  by (induction xs) (use remove_first_subset in \<open>auto, fastforce\<close>)

end
