(* ===== verification/Memory_Interface.thy ===== *)
theory Memory_Interface
  imports Kernel_Prelude
begin

text \<open>
  The contract of \<^verbatim>\<open>memoryManager.h\<close>.  The kernel is linked against one of two memory
  managers, chosen when it is compiled (\<^verbatim>\<open>MM=BUDDY\<close> or \<^verbatim>\<open>MM=BITMAP\<close>).  The choice is
  the record \<open>mm_ops\<close>, an argument of every operation of the kernel that allocates, and the
  locale \<open>allocator\<close> states what the rest of the kernel relies on.  Both managers are
  interpretations of it (theories Bitmap_MM and Buddy_MM).
\<close>

section \<open>Constants of defs.h and memoryManager.h\<close>

definition HEAP_START_ADDRESS :: nat where "HEAP_START_ADDRESS = 0x600000"
definition HEAP_END_ADDRESS :: nat where "HEAP_END_ADDRESS = 512 * 1024 * 1024 - 1"
definition HEAP_SIZE :: nat where "HEAP_SIZE = HEAP_END_ADDRESS - HEAP_START_ADDRESS + 1"
definition BLOCK_SIZE :: nat where "BLOCK_SIZE = 64"

lemmas heap_constants = HEAP_START_ADDRESS_def HEAP_END_ADDRESS_def HEAP_SIZE_def BLOCK_SIZE_def

text \<open>The structure that \<^verbatim>\<open>getMemoryInfo\<close> fills.\<close>

record memInfo =
  mi_total :: nat
  mi_used :: nat
  mi_free :: nat

section \<open>The linked memory manager\<close>

record 'm mm_ops =
  mm_alloc :: "'m \<Rightarrow> nat \<Rightarrow> (addr \<times> 'm) option"
  mm_free :: "'m \<Rightarrow> addr \<Rightarrow> 'm option"

text \<open>
  \<open>rep m L\<close>: the manager's state \<open>m\<close> is well formed and its live allocations are \<open>L\<close>, a map
  from the address handed out to the number of bytes the client may use there.  Requests
  are bounded by \<^term>\<open>2 ^ 32\<close>: the bitmap manager truncates larger ones.  The last part of
  \<open>free_law\<close> says that a request no larger than the block just released cannot fail, which
  is why the scheduler never loses a process when it moves it between queues.
\<close>

locale allocator =
  fixes ops :: "'m mm_ops"
    and rep :: "'m \<Rightarrow> (addr \<rightharpoonup> nat) \<Rightarrow> bool"
  assumes null_not_live: "rep m L \<Longrightarrow> L 0 = None"
    and live_disjoint: "rep m L \<Longrightarrow> L p = Some k \<Longrightarrow> L q = Some l \<Longrightarrow> p \<noteq> q \<Longrightarrow>
      p + k \<le> q \<or> q + l \<le> p"
    and alloc_law: "rep m L \<Longrightarrow> 0 < n \<Longrightarrow> n < 2 ^ 32 \<Longrightarrow>
      \<exists>p m'. mm_alloc ops m n = Some (p, m') \<and>
        (p = 0 \<and> m' = m \<or> p \<noteq> 0 \<and> L p = None \<and> (\<exists>k \<ge> n. rep m' (L(p \<mapsto> k))))"
    and free_law: "rep m L \<Longrightarrow> L p = Some k \<Longrightarrow>
      \<exists>m'. mm_free ops m p = Some m' \<and> rep m' (L(p := None)) \<and>
        (\<forall>n. 0 < n \<longrightarrow> n \<le> k \<longrightarrow> n < 2 ^ 32 \<longrightarrow> (\<exists>q m''. mm_alloc ops m' n = Some (q, m'') \<and> q \<noteq> 0))"
    and free_null: "mm_free ops m 0 = Some m"
begin

text \<open>The two outcomes of a request, as an elimination rule for the clients.\<close>

lemma alloc_cases [consumes 3, case_names oom fresh]:
  assumes "rep m L" and "0 < n" and "n < 2 ^ 32"
  obtains "mm_alloc ops m n = Some (0, m)"
  | p m' k where "mm_alloc ops m n = Some (p, m')" "p \<noteq> 0" "L p = None" "n \<le> k"
      "rep m' (L(p \<mapsto> k))"
  using alloc_law [OF assms] by blast

lemma live_nonzero: "rep m L \<Longrightarrow> L p = Some k \<Longrightarrow> p \<noteq> 0"
  by (metis null_not_live option.distinct(1))

text \<open>Releasing what was just allocated restores the set of live allocations.\<close>

lemma alloc_free_roundtrip:
  assumes "rep m L" "0 < n" "n < 2 ^ 32" "mm_alloc ops m n = Some (p, m')" "p \<noteq> 0"
  shows "\<exists>m''. mm_free ops m' p = Some m'' \<and> rep m'' L"
proof -
  from alloc_law [OF assms(1-3)] assms(4,5) obtain k
    where "L p = None" "rep m' (L(p \<mapsto> k))" by auto
  with free_law [OF this(2), of p k] show ?thesis
    by (auto simp: fun_upd_idem)
qed

text \<open>
  A release followed by a request that fits in the released block: it is served, and the
  rest of the live allocations is untouched.
\<close>

lemma free_then_alloc:
  assumes "rep m L" "L p = Some k" "0 < n" "n \<le> k" "n < 2 ^ 32"
  obtains m' q m'' l where "mm_free ops m p = Some m'" "rep m' (L(p := None))"
    "mm_alloc ops m' n = Some (q, m'')" "q \<noteq> 0" "(L(p := None)) q = None" "n \<le> l"
    "rep m'' (L(p := None, q \<mapsto> l))"
proof -
  from free_law [OF assms(1,2)] assms(3-5) obtain m' q m''
    where m': "mm_free ops m p = Some m'" "rep m' (L(p := None))"
      and q: "mm_alloc ops m' n = Some (q, m'')" "q \<noteq> 0" by blast
  from alloc_law [OF m'(2) assms(3,5)] q obtain l
    where "(L(p := None)) q = None" "n \<le> l" "rep m'' (L(p := None, q \<mapsto> l))" by auto
  with m' q that show thesis by blast
qed

end

end
