(* ===== verification/Bitmap_MM.thy ===== *)
theory Bitmap_MM
  imports Memory_Interface
begin

text \<open>
  The bitmap memory manager, \<^verbatim>\<open>Kernel/Memorymanager/bitmapMemoryManager.c\<close>.

  The table has one 32-bit entry per block of 64 bytes and stands at the start of the heap;
  the blocks handed out start behind it.  \<open>bitmap\<close> is the table as a function of the index.
  An access at an index the table does not have is a fault (\<open>None\<close>).
  The lemmas show that the table always describes a set of disjoint runs (\<open>bm_runs\<close>),
  that a request finds the first fitting run of free blocks, and that a release undoes
  exactly one request; the interpretation at the end discharges the contract of the
  memory manager.
\<close>

datatype mark = FREE | USED | START_BOUNDARY | END_BOUNDARY | SINGLE_BLOCK

record MemoryManagerCDT =
  start :: addr
  blockQty :: nat
  blocksUsed :: nat
  bitmap :: "nat \<Rightarrow> mark"
  current :: nat

text \<open>Entries of the table: one for each block of the whole heap.\<close>

definition table_size :: nat where "table_size = HEAP_SIZE div BLOCK_SIZE"

definition sizeToBlockQty :: "nat \<Rightarrow> nat" where
  "sizeToBlockQty sz =
     (let n = u32 sz in
      u32 (if n mod BLOCK_SIZE \<noteq> 0 then n div BLOCK_SIZE + 1 else n div BLOCK_SIZE))"

function initializeBitmap_loop :: "nat \<Rightarrow> nat \<Rightarrow> (nat \<Rightarrow> mark) \<Rightarrow> (nat \<Rightarrow> mark)" where
  "initializeBitmap_loop i qty b =
     (if i < qty then initializeBitmap_loop (i + 1) qty (b(i := FREE)) else b)"
  by pat_completeness auto
termination by (relation "measure (\<lambda>(i, qty, b). qty - i)") auto

definition initializeBitmap :: "MemoryManagerCDT \<Rightarrow> MemoryManagerCDT" where
  "initializeBitmap m = m\<lparr>bitmap := initializeBitmap_loop 0 (blockQty m) (bitmap m)\<rparr>"

definition createMemoryManager :: "addr \<Rightarrow> nat \<Rightarrow> MemoryManagerCDT \<Rightarrow> MemoryManagerCDT" where
  "createMemoryManager start_arg size_arg m =
     (let qty = u32 (HEAP_SIZE div BLOCK_SIZE);
          bitmap_size_in_bytes = u32 (qty * 4);
          bitmap_size_in_blocks = u32 ((bitmap_size_in_bytes + BLOCK_SIZE - 1) div BLOCK_SIZE)
      in initializeBitmap
           (m\<lparr>start := HEAP_START_ADDRESS + u32 (bitmap_size_in_blocks * BLOCK_SIZE),
              blockQty := sub32 qty bitmap_size_in_blocks,
              blocksUsed := 0,
              current := 0\<rparr>))"

text \<open>The address of the group of \<open>blocksNeeded\<close> blocks whose last block is \<open>i\<close>.\<close>

definition group_address :: "MemoryManagerCDT \<Rightarrow> nat \<Rightarrow> nat \<Rightarrow> addr" where
  "group_address m i blocksNeeded =
     start m + u32 (u32 (sub32 i blocksNeeded + 1) * BLOCK_SIZE)"

function findFreeBlocks_loop :: "MemoryManagerCDT \<Rightarrow> nat \<Rightarrow> nat \<Rightarrow> nat \<Rightarrow> nat \<Rightarrow> addr" where
  "findFreeBlocks_loop m blocksNeeded i e freeBlocks =
     (if i < e then
        (if bitmap m i = FREE then
           (if freeBlocks + 1 = blocksNeeded then group_address m i blocksNeeded
            else findFreeBlocks_loop m blocksNeeded (i + 1) e (freeBlocks + 1))
         else findFreeBlocks_loop m blocksNeeded (i + 1) e 0)
      else if freeBlocks = blocksNeeded then group_address m i blocksNeeded
      else 0)"
  by pat_completeness auto
termination by (relation "measure (\<lambda>(m, bn, i, e, fb). e - i)") auto

definition findFreeBlocks :: "MemoryManagerCDT \<Rightarrow> nat \<Rightarrow> nat \<Rightarrow> nat \<Rightarrow> addr" where
  "findFreeBlocks m blocksNeeded s e = findFreeBlocks_loop m blocksNeeded s e 0"

text \<open>The inner blocks of a group; \<open>last\<close> is \<open>blocksNeeded - 1\<close>, which wraps for \<open>0\<close>.\<close>

function markGroup_loop :: "MemoryManagerCDT \<Rightarrow> nat \<Rightarrow> nat \<Rightarrow> nat \<Rightarrow> MemoryManagerCDT option" where
  "markGroup_loop m index i lim =
     (if i < lim then
        (if index + i < table_size
         then markGroup_loop
                (m\<lparr>blocksUsed := u32 (blocksUsed m + 1), bitmap := (bitmap m)(index + i := USED)\<rparr>)
                index (i + 1) lim
         else None)
      else Some m)"
  by pat_completeness auto
termination by (relation "measure (\<lambda>(m, index, i, lim). lim - i)") auto

declare initializeBitmap_loop.simps [simp del] findFreeBlocks_loop.simps [simp del]
  markGroup_loop.simps [simp del]

definition markGroupAsUsed :: "MemoryManagerCDT \<Rightarrow> nat \<Rightarrow> nat \<Rightarrow> (addr \<times> MemoryManagerCDT) option" where
  "markGroupAsUsed m blocksNeeded index =
     (let last = u32 (sub32 (index + blocksNeeded) 1) in
      if index < table_size \<and> last < table_size then
        do {
          m' \<leftarrow> markGroup_loop
                  (m\<lparr>bitmap := (bitmap m)(index := START_BOUNDARY, last := END_BOUNDARY),
                     blocksUsed := u32 (blocksUsed m + 2)\<rparr>)
                  index 1 (sub32 blocksNeeded 1);
          Some (start m + u32 (index * BLOCK_SIZE), m')
        }
      else None)"

definition allocMemory :: "MemoryManagerCDT \<Rightarrow> nat \<Rightarrow> (addr \<times> MemoryManagerCDT) option" where
  "allocMemory m sz =
     (let blocksNeeded = sizeToBlockQty sz in
      if blocksNeeded > sub32 (blockQty m) (blocksUsed m) then Some (0, m)
      else
        let a0 = findFreeBlocks m blocksNeeded (current m) (blockQty m);
            a = (if a0 = 0 then findFreeBlocks m blocksNeeded 0 (blockQty m) else a0)
        in if a = 0 then Some (0, m)
           else
             let blockIndex = u32 (sub64 a (start m) div BLOCK_SIZE);
                 m1 = m\<lparr>current := u32 (blockIndex + blocksNeeded)\<rparr>
             in if blocksNeeded = 1 then
                  (if blockIndex < table_size
                   then Some (a, m1\<lparr>blocksUsed := u32 (blocksUsed m1 + 1),
                                    bitmap := (bitmap m1)(blockIndex := SINGLE_BLOCK)\<rparr>)
                   else None)
                else markGroupAsUsed m1 blocksNeeded blockIndex)"

text \<open>\<open>None\<close>: the pointer is \<^verbatim>\<open>NULL\<close> and nothing is filled in.\<close>

definition getMemoryInfo :: "MemoryManagerCDT \<Rightarrow> addr \<Rightarrow> memInfo option" where
  "getMemoryInfo m info =
     (if info = 0 then None
      else
        let t = u32 (blockQty m * BLOCK_SIZE); us = u32 (blocksUsed m * BLOCK_SIZE)
        in Some \<lparr>mi_total = t, mi_used = us, mi_free = sub64 t us\<rparr>)"

text \<open>The loop that clears a group up to its end boundary; the count is \<open>blocksToFree\<close>.\<close>

function freeGroup_loop :: "MemoryManagerCDT \<Rightarrow> nat \<Rightarrow> nat \<Rightarrow> (nat \<times> MemoryManagerCDT) option" where
  "freeGroup_loop m blockIndex blocksToFree =
     (if blockIndex + blocksToFree < table_size then
        (if bitmap m (blockIndex + blocksToFree) \<noteq> END_BOUNDARY
         then freeGroup_loop
                (m\<lparr>bitmap := (bitmap m)(blockIndex + blocksToFree := FREE)\<rparr>)
                blockIndex (blocksToFree + 1)
         else Some (blocksToFree, m))
      else None)"
  by pat_completeness auto
termination by (relation "measure (\<lambda>(m, b, k). table_size - (b + k))") auto

declare freeGroup_loop.simps [simp del]

definition freeMemory :: "MemoryManagerCDT \<Rightarrow> addr \<Rightarrow> MemoryManagerCDT option" where
  "freeMemory m address =
     (if address = 0 \<or> address mod BLOCK_SIZE \<noteq> 0 then Some m
      else if address < start m then Some m
      else
        let blockIndex = u32 ((address - start m) div BLOCK_SIZE) in
        if \<not> blockIndex < table_size then None
        else if bitmap m blockIndex = SINGLE_BLOCK then
          Some (m\<lparr>bitmap := (bitmap m)(blockIndex := FREE), blocksUsed := sub32 (blocksUsed m) 1\<rparr>)
        else if bitmap m blockIndex \<noteq> START_BOUNDARY then Some m
        else do {
          (blocksToFree, m') \<leftarrow> freeGroup_loop m blockIndex 0;
          Some (m'\<lparr>bitmap := (bitmap m')(blockIndex + blocksToFree := FREE),
                   blocksUsed := sub32 (blocksUsed m') (blocksToFree + 1)\<rparr>)
        })"

definition getUsedMemory :: "MemoryManagerCDT \<Rightarrow> nat" where
  "getUsedMemory m = u32 (blocksUsed m * BLOCK_SIZE)"

definition getFreeMemory :: "MemoryManagerCDT \<Rightarrow> nat" where
  "getFreeMemory m = u32 (sub32 (blockQty m) (blocksUsed m) * BLOCK_SIZE)"

definition bitmap_ops :: "MemoryManagerCDT mm_ops" where
  "bitmap_ops = \<lparr>mm_alloc = allocMemory, mm_free = freeMemory\<rparr>"

section \<open>The runs a table describes\<close>

definition bm_qty :: nat where "bm_qty = 7772160"
definition bm_start :: addr where "bm_start = 39452672"

text \<open>The marks of an allocated run of \<open>n\<close> blocks at index \<open>i\<close>.\<close>

definition run_mark :: "nat \<Rightarrow> nat \<Rightarrow> nat \<Rightarrow> mark" where
  "run_mark i n x =
     (if n = 1 then SINGLE_BLOCK
      else if x = i then START_BOUNDARY
      else if x = i + n - 1 then END_BOUNDARY else USED)"

definition mark_run :: "(nat \<Rightarrow> mark) \<Rightarrow> nat \<Rightarrow> nat \<Rightarrow> (nat \<Rightarrow> mark)" where
  "mark_run b i n = (\<lambda>x. if i \<le> x \<and> x < i + n then run_mark i n x else b x)"

definition clear_run :: "(nat \<Rightarrow> mark) \<Rightarrow> nat \<Rightarrow> nat \<Rightarrow> (nat \<Rightarrow> mark)" where
  "clear_run b i n = (\<lambda>x. if i \<le> x \<and> x < i + n then FREE else b x)"

definition free_run :: "(nat \<Rightarrow> mark) \<Rightarrow> nat \<Rightarrow> nat \<Rightarrow> bool" where
  "free_run b i n \<longleftrightarrow> (\<forall>x. i \<le> x \<and> x < i + n \<longrightarrow> b x = FREE)"

definition used_set :: "(nat \<Rightarrow> mark) \<Rightarrow> nat set" where
  "used_set b = {x. x < bm_qty \<and> b x \<noteq> FREE}"

text \<open>
  \<open>bm_runs m R\<close>: the table describes exactly the runs \<open>R\<close> (first block \<open>\<mapsto>\<close> length):
  each is marked as such, they do not overlap, nothing else is marked, and the counter of
  used blocks is right.
\<close>

definition bm_runs :: "MemoryManagerCDT \<Rightarrow> (nat \<rightharpoonup> nat) \<Rightarrow> bool" where
  "bm_runs m R \<longleftrightarrow>
     start m = bm_start \<and> blockQty m = bm_qty \<and> current m \<le> bm_qty \<and>
     blocksUsed m = card (used_set (bitmap m)) \<and>
     (\<forall>i n. R i = Some n \<longrightarrow> 0 < n \<and> i + n \<le> bm_qty \<and>
        (\<forall>x. i \<le> x \<and> x < i + n \<longrightarrow> bitmap m x = run_mark i n x)) \<and>
     (\<forall>i n j k. R i = Some n \<longrightarrow> R j = Some k \<longrightarrow> i < j \<longrightarrow> i + n \<le> j) \<and>
     (\<forall>x < bm_qty. bitmap m x \<noteq> FREE \<longrightarrow> (\<exists>i n. R i = Some n \<and> i \<le> x \<and> x < i + n))"

lemma run_mark_not_FREE [simp]: "run_mark i n x \<noteq> FREE"
  by (simp add: run_mark_def)

lemma finite_used_set [simp]: "finite (used_set b)"
  by (simp add: used_set_def)

lemma card_used_set_le: "card (used_set b) \<le> bm_qty"
proof -
  have "used_set b \<subseteq> {..<bm_qty}" by (auto simp: used_set_def)
  from card_mono [OF _ this] show ?thesis by simp
qed

lemma card_used_set_free:
  assumes "free_run b i n" "i + n \<le> bm_qty"
  shows "card (used_set b) + n \<le> bm_qty"
proof -
  have "used_set b \<inter> {i..<i + n} = {}" and "used_set b \<union> {i..<i + n} \<subseteq> {..<bm_qty}"
    using assms by (auto simp: used_set_def free_run_def)
  then have "card (used_set b) + card {i..<i + n} \<le> card {..<bm_qty}"
    by (metis card_Un_disjoint card_mono finite_atLeastLessThan finite_lessThan finite_used_set)
  then show ?thesis by simp
qed

lemma used_set_mark_run:
  assumes "free_run b i n" "i + n \<le> bm_qty"
  shows "card (used_set (mark_run b i n)) = card (used_set b) + n"
proof -
  have "used_set (mark_run b i n) = used_set b \<union> {i..<i + n}"
    and "used_set b \<inter> {i..<i + n} = {}"
    using assms by (auto simp: used_set_def mark_run_def free_run_def)
  then show ?thesis by (simp add: card_Un_disjoint)
qed

lemma used_set_clear_run:
  assumes "\<forall>x. i \<le> x \<and> x < i + n \<longrightarrow> b x \<noteq> FREE" "i + n \<le> bm_qty"
  shows "card (used_set (clear_run b i n)) = card (used_set b) - n"
    and "n \<le> card (used_set b)"
proof -
  have "used_set (clear_run b i n) = used_set b - {i..<i + n}"
    and sub: "{i..<i + n} \<subseteq> used_set b"
    using assms by (auto simp: used_set_def clear_run_def)
  then show "card (used_set (clear_run b i n)) = card (used_set b) - n"
    by (simp add: card_Diff_subset)
  show "n \<le> card (used_set b)"
    using card_mono [OF _ sub] by simp
qed

lemma bm_runsI:
  assumes "start m = bm_start" "blockQty m = bm_qty" "current m \<le> bm_qty"
    "blocksUsed m = card (used_set (bitmap m))"
    "\<And>i n. R i = Some n \<Longrightarrow> 0 < n \<and> i + n \<le> bm_qty"
    "\<And>i n x. R i = Some n \<Longrightarrow> i \<le> x \<Longrightarrow> x < i + n \<Longrightarrow> bitmap m x = run_mark i n x"
    "\<And>i n j k. R i = Some n \<Longrightarrow> R j = Some k \<Longrightarrow> i < j \<Longrightarrow> i + n \<le> j"
    "\<And>x. x < bm_qty \<Longrightarrow> bitmap m x \<noteq> FREE \<Longrightarrow> \<exists>i n. R i = Some n \<and> i \<le> x \<and> x < i + n"
  shows "bm_runs m R"
  using assms unfolding bm_runs_def by blast

lemma bm_runsD:
  assumes "bm_runs m R"
  shows "start m = bm_start" "blockQty m = bm_qty" "current m \<le> bm_qty"
    "blocksUsed m = card (used_set (bitmap m))"
    "R i = Some n \<Longrightarrow> 0 < n" "R i = Some n \<Longrightarrow> i + n \<le> bm_qty"
    "R i = Some n \<Longrightarrow> i \<le> x \<Longrightarrow> x < i + n \<Longrightarrow> bitmap m x = run_mark i n x"
    "R i = Some n \<Longrightarrow> R j = Some k \<Longrightarrow> i < j \<Longrightarrow> i + n \<le> j"
    "x < bm_qty \<Longrightarrow> bitmap m x \<noteq> FREE \<Longrightarrow> \<exists>i n. R i = Some n \<and> i \<le> x \<and> x < i + n"
  using assms unfolding bm_runs_def by blast+

lemma bm_runs_apart:
  assumes "bm_runs m R" "R i = Some n" "R j = Some k" "i \<noteq> j"
  shows "i + n \<le> j \<or> j + k \<le> i"
  using bm_runsD(8) [OF assms(1,2,3)] bm_runsD(8) [OF assms(1,3,2)] assms(4) by linarith

lemma free_run_apart:
  assumes "bm_runs m R" "free_run (bitmap m) j n" "0 < n" "R i = Some k"
  shows "i + k \<le> j \<or> j + n \<le> i"
proof (rule ccontr)
  assume a: "\<not> ?thesis"
  from bm_runsD(5) [OF assms(1,4)] a assms(3)
  have "i \<le> max i j" "max i j < i + k" "j \<le> max i j" "max i j < j + n" by auto
  with bm_runsD(7) [OF assms(1,4)] assms(2) show False
    by (metis free_run_def run_mark_not_FREE)
qed

lemma free_run_fresh:
  assumes "bm_runs m R" "free_run (bitmap m) j n" "0 < n"
  shows "R j = None"
  using free_run_apart [OF assms, of j] bm_runsD(5) [OF assms(1), of j] assms(3)
  by (cases "R j") fastforce+

lemma bm_runs_insert:
  assumes ok: "bm_runs m R" and fr: "free_run (bitmap m) j n" and n: "0 < n" "j + n \<le> bm_qty"
    and c: "c \<le> bm_qty"
  shows "bm_runs (m\<lparr>current := c, blocksUsed := blocksUsed m + n,
                    bitmap := mark_run (bitmap m) j n\<rparr>) (R(j \<mapsto> n))"
proof (rule bm_runsI)
  note D = bm_runsD [OF ok] and apart = free_run_apart [OF ok fr n(1)]
  fix i k i' k' x
  let ?m = "m\<lparr>current := c, blocksUsed := blocksUsed m + n, bitmap := mark_run (bitmap m) j n\<rparr>"
  show "0 < k \<and> i + k \<le> bm_qty" if "(R(j \<mapsto> n)) i = Some k"
    using that n D(5,6) by (auto split: if_splits)
  show "bitmap ?m x = run_mark i k x" if "(R(j \<mapsto> n)) i = Some k" "i \<le> x" "x < i + k"
    using that apart [of i k] D(7) [of i k x] by (auto simp: mark_run_def split: if_splits)
  show "i + k \<le> i'" if "(R(j \<mapsto> n)) i = Some k" "(R(j \<mapsto> n)) i' = Some k'" "i < i'"
    using that apart [of i k] apart [of i' k'] D(8) [of i k i' k'] D(5) n
    by (fastforce split: if_splits)
  show "\<exists>i k. (R(j \<mapsto> n)) i = Some k \<and> i \<le> x \<and> x < i + k" if "x < bm_qty" "bitmap ?m x \<noteq> FREE"
  proof (cases "j \<le> x \<and> x < j + n")
    case False
    with that have "bitmap m x \<noteq> FREE" by (auto simp: mark_run_def)
    from D(9) [OF that(1) this] obtain i k where "R i = Some k" "i \<le> x" "x < i + k" by blast
    with free_run_fresh [OF ok fr n(1)] show ?thesis by (metis fun_upd_other option.distinct(1))
  qed auto
qed (use bm_runsD [OF ok] c used_set_mark_run [OF fr n(2)] in auto)

lemma bm_runs_delete:
  assumes ok: "bm_runs m R" and j: "R j = Some n"
  shows "bm_runs (m\<lparr>blocksUsed := blocksUsed m - n, bitmap := clear_run (bitmap m) j n\<rparr>) (R(j := None))"
    and "n \<le> blocksUsed m" and "free_run (clear_run (bitmap m) j n) j n"
proof -
  note D = bm_runsD [OF ok]
  have used: "\<forall>x. j \<le> x \<and> x < j + n \<longrightarrow> bitmap m x \<noteq> FREE"
    using D(7) [OF j] by simp
  show "bm_runs (m\<lparr>blocksUsed := blocksUsed m - n, bitmap := clear_run (bitmap m) j n\<rparr>) (R(j := None))"
  proof (rule bm_runsI)
    fix i k i' k' x
    let ?m = "m\<lparr>blocksUsed := blocksUsed m - n, bitmap := clear_run (bitmap m) j n\<rparr>"
    show "0 < k \<and> i + k \<le> bm_qty" if "(R(j := None)) i = Some k"
      using that D(5,6) by (auto split: if_splits)
    show "bitmap ?m x = run_mark i k x" if "(R(j := None)) i = Some k" "i \<le> x" "x < i + k"
      using that bm_runs_apart [OF ok, of i k j n] j D(7) [of i k x]
      by (auto simp: clear_run_def split: if_splits)
    show "i + k \<le> i'" if "(R(j := None)) i = Some k" "(R(j := None)) i' = Some k'" "i < i'"
      using that D(8) [of i k i' k'] by (auto split: if_splits)
    show "\<exists>i k. (R(j := None)) i = Some k \<and> i \<le> x \<and> x < i + k"
      if "x < bm_qty" "bitmap ?m x \<noteq> FREE"
    proof -
      from that have out: "\<not> (j \<le> x \<and> x < j + n)" and "bitmap m x \<noteq> FREE"
        by (auto simp: clear_run_def split: if_splits)
      from D(9) [OF that(1) this(2)] obtain i k where "R i = Some k" "i \<le> x" "x < i + k" by blast
      with out j show ?thesis by (metis fun_upd_other option.inject)
    qed
  qed (use D used_set_clear_run(1) [OF used D(6) [OF j]] in auto)
  show "n \<le> blocksUsed m"
    using used_set_clear_run(2) [OF used D(6) [OF j]] D(4) by simp
  show "free_run (clear_run (bitmap m) j n) j n"
    by (simp add: free_run_def clear_run_def)
qed

section \<open>The loops\<close>

lemma initializeBitmap_loop_eq:
  "initializeBitmap_loop i q b = (\<lambda>x. if i \<le> x \<and> x < q then FREE else b x)"
proof (induction i q b rule: initializeBitmap_loop.induct)
  case (1 i q b)
  show ?case
  proof (cases "i < q")
    case True
    then have "initializeBitmap_loop i q b = initializeBitmap_loop (i + 1) q (b(i := FREE))"
      by (subst initializeBitmap_loop.simps) simp
    also have "\<dots> = (\<lambda>x. if i + 1 \<le> x \<and> x < q then FREE else (b(i := FREE)) x)"
      by (rule "1.IH" [OF True])
    finally show ?thesis
      using True by (auto simp: fun_eq_iff)
  qed (subst initializeBitmap_loop.simps, auto simp: fun_eq_iff)
qed

lemma markGroup_loop_eq:
  "i \<le> lim \<Longrightarrow> index + lim \<le> table_size \<Longrightarrow> blocksUsed m + (lim - i) < 4294967296 \<Longrightarrow>
   markGroup_loop m index i lim =
     Some (m\<lparr>blocksUsed := blocksUsed m + (lim - i),
             bitmap := (\<lambda>x. if index + i \<le> x \<and> x < index + lim then USED else bitmap m x)\<rparr>)"
proof (induction m index i lim rule: markGroup_loop.induct)
  case (1 m index i lim)
  show ?case
  proof (cases "i < lim")
    case True
    let ?m = "m\<lparr>blocksUsed := u32 (blocksUsed m + 1), bitmap := (bitmap m)(index + i := USED)\<rparr>"
    have u: "u32 (blocksUsed m + 1) = blocksUsed m + 1" and lt: "index + i < table_size"
      using "1.prems"(2,3) True by (auto simp: width_simps)
    have "markGroup_loop m index i lim = markGroup_loop ?m index (i + 1) lim"
      using True lt by (subst markGroup_loop.simps) simp
    also have "\<dots> = Some (?m\<lparr>blocksUsed := blocksUsed ?m + (lim - (i + 1)),
        bitmap := (\<lambda>x. if index + (i + 1) \<le> x \<and> x < index + lim then USED else bitmap ?m x)\<rparr>)"
      by (rule "1.IH" [OF True lt]) (use "1.prems" True u in auto)
    finally show ?thesis
      using True u by (auto simp: fun_eq_iff)
  next
    case False
    then show ?thesis
      using "1.prems"(1) by (subst markGroup_loop.simps) (cases m, auto simp: fun_eq_iff)
  qed
qed

text \<open>The clearing loop stops at the end boundary of the run it started in.\<close>

lemma freeGroup_loop_eq:
  "k \<le> n \<Longrightarrow> i + n < table_size \<Longrightarrow> bitmap m (i + n) = END_BOUNDARY \<Longrightarrow>
   (\<And>x. i + k \<le> x \<Longrightarrow> x < i + n \<Longrightarrow> bitmap m x \<noteq> END_BOUNDARY) \<Longrightarrow>
   freeGroup_loop m i k =
     Some (n, m\<lparr>bitmap := (\<lambda>x. if i + k \<le> x \<and> x < i + n then FREE else bitmap m x)\<rparr>)"
proof (induction m i k rule: freeGroup_loop.induct)
  case (1 m i k)
  show ?case
  proof (cases "k = n")
    case True
    then show ?thesis
      using "1.prems" by (subst freeGroup_loop.simps) (cases m, auto simp: fun_eq_iff)
  next
    case False
    let ?m = "m\<lparr>bitmap := (bitmap m)(i + k := FREE)\<rparr>"
    have "k < n" and lt: "i + k < table_size" and ne: "bitmap m (i + k) \<noteq> END_BOUNDARY"
      using False "1.prems" by auto
    then have "freeGroup_loop m i k = freeGroup_loop ?m i (k + 1)"
      by (subst freeGroup_loop.simps) simp
    also have "\<dots> = Some (n, ?m\<lparr>bitmap := (\<lambda>x. if i + (k + 1) \<le> x \<and> x < i + n then FREE else bitmap ?m x)\<rparr>)"
      by (rule "1.IH" [OF lt ne]) (use "1.prems" \<open>k < n\<close> in auto)
    finally show ?thesis
      using \<open>k < n\<close> by (auto simp: fun_eq_iff)
  qed
qed

text \<open>
  First fit.  With the last \<open>fb\<close> blocks before \<open>i\<close> known to be free, the loop returns the
  address of a free run of the requested length, or \<open>0\<close> when there is none from there on.
\<close>

lemma free_run_0 [simp]: "free_run b i 0"
  by (auto simp: free_run_def)

lemma group_address_eq:
  assumes "i < bm_qty" "n \<le> i + 1" "0 < n"
  shows "group_address m i n = start m + (i + 1 - n) * BLOCK_SIZE"
proof (cases "n \<le> i")
  case True
  then show ?thesis
    using assms by (auto simp: group_address_def width_simps bm_qty_def BLOCK_SIZE_def)
next
  case False
  then have "n = i + 1" using assms by simp
  then show ?thesis
    using assms(1) by (simp add: group_address_def sub32_def u32_def bm_qty_def)
qed

lemma free_run_snoc:
  assumes "free_run b (i - k) k" "b i = FREE" "k \<le> i"
  shows "free_run b (i - k) (k + 1)"
  unfolding free_run_def
proof (intro allI impI)
  fix x assume "i - k \<le> x \<and> x < i - k + (k + 1)"
  then show "b x = FREE"
    using assms by (cases "x = i") (auto simp: free_run_def)
qed

lemma findFreeBlocks_loop_spec:
  "fb < n \<Longrightarrow> fb \<le> i \<Longrightarrow> e \<le> bm_qty \<Longrightarrow> free_run (bitmap m) (i - fb) fb \<Longrightarrow>
   findFreeBlocks_loop m n i e fb = 0 \<and> (\<forall>j. i - fb \<le> j \<and> j + n \<le> e \<longrightarrow> \<not> free_run (bitmap m) j n) \<or>
   (\<exists>j. findFreeBlocks_loop m n i e fb = start m + j * BLOCK_SIZE \<and> j + n \<le> e \<and>
        free_run (bitmap m) j n \<and> i - fb \<le> j \<and> (\<forall>k. i - fb \<le> k \<and> k < j \<longrightarrow> \<not> free_run (bitmap m) k n))"
proof (induction m n i e fb rule: findFreeBlocks_loop.induct)
  case (1 m n i e fb)
  note eq = findFreeBlocks_loop.simps [of m n i e fb]
  consider (stop) "\<not> i < e" | (used) "i < e" "bitmap m i \<noteq> FREE"
    | (hit) "i < e" "bitmap m i = FREE" "fb + 1 = n"
    | (more) "i < e" "bitmap m i = FREE" "fb + 1 \<noteq> n" by blast
  then show ?case
  proof cases
    case stop
    then show ?thesis using "1.prems"(1,2) by (auto simp: eq)
  next
    case used
    have none: "\<not> free_run (bitmap m) j n" if "i - fb \<le> j" "j < i + 1" for j
      using used(2) that "1.prems"(1,2) by (auto simp: free_run_def intro!: exI [of _ i])
    have eq0: "findFreeBlocks_loop m n i e fb = findFreeBlocks_loop m n (i + 1) e 0"
      using used by (simp add: eq)
    from "1.IH"(2) [OF used] "1.prems"(1,3)
    have "findFreeBlocks_loop m n (i + 1) e 0 = 0 \<and>
        (\<forall>j. i + 1 \<le> j \<and> j + n \<le> e \<longrightarrow> \<not> free_run (bitmap m) j n) \<or>
      (\<exists>j. findFreeBlocks_loop m n (i + 1) e 0 = start m + j * BLOCK_SIZE \<and> j + n \<le> e \<and>
        free_run (bitmap m) j n \<and> i + 1 \<le> j \<and>
        (\<forall>k. i + 1 \<le> k \<and> k < j \<longrightarrow> \<not> free_run (bitmap m) k n))" by simp
    moreover have "i - fb \<le> k \<Longrightarrow> free_run (bitmap m) k n \<Longrightarrow> i + 1 \<le> k" for k
      using none [of k] by linarith
    ultimately show ?thesis
      unfolding eq0 by (elim disjE exE conjE) (blast, metis add_leD1 diff_le_self le_trans)
  next
    case hit
    have "findFreeBlocks_loop m n i e fb = start m + (i - fb) * BLOCK_SIZE"
      using hit "1.prems" by (auto simp: eq group_address_eq)
    moreover have "free_run (bitmap m) (i - fb) n"
      using free_run_snoc [OF "1.prems"(4) hit(2) "1.prems"(2)] hit(3) by simp
    ultimately show ?thesis
      using hit "1.prems"(2) by (intro disjI2 exI [of _ "i - fb"]) auto
  next
    case more
    from free_run_snoc [OF "1.prems"(4) more(2) "1.prems"(2)]
    show ?thesis
      using "1.IH"(1) [OF more] "1.prems" more by (auto simp: eq)
  qed
qed

section \<open>Requests and releases\<close>

lemma sizeToBlockQty_bounds:
  assumes "0 < sz" "sz < 2 ^ 32"
  shows "0 < sizeToBlockQty sz" "sz \<le> sizeToBlockQty sz * BLOCK_SIZE"
    "sizeToBlockQty sz * BLOCK_SIZE < sz + BLOCK_SIZE"
proof -
  obtain q r where sz: "sz = 64 * q + r" "r < 64"
    by (metis mod_less_divisor mult_div_mod_eq zero_less_numeral)
  then have "q < 67108864" using assms(2) by simp
  then have "sizeToBlockQty sz = q + (if r = 0 then 0 else 1)"
    using assms(2) sz by (simp add: sizeToBlockQty_def width_simps BLOCK_SIZE_def Let_def)
  then show "0 < sizeToBlockQty sz" "sz \<le> sizeToBlockQty sz * BLOCK_SIZE"
    "sizeToBlockQty sz * BLOCK_SIZE < sz + BLOCK_SIZE"
    using sz assms(1) by (auto simp: BLOCK_SIZE_def)
qed

lemma findFreeBlocks_spec:
  assumes "0 < n" "s \<le> bm_qty"
  shows "findFreeBlocks m n s bm_qty = 0 \<and> (\<forall>j \<ge> s. j + n \<le> bm_qty \<longrightarrow> \<not> free_run (bitmap m) j n) \<or>
    (\<exists>j. findFreeBlocks m n s bm_qty = start m + j * BLOCK_SIZE \<and> j + n \<le> bm_qty \<and>
         free_run (bitmap m) j n \<and> s \<le> j \<and> (\<forall>k. s \<le> k \<and> k < j \<longrightarrow> \<not> free_run (bitmap m) k n))"
  using findFreeBlocks_loop_spec [of 0 n s bm_qty m] assms
  by (auto simp: findFreeBlocks_def)

lemma mark_run_unfold:
  assumes "2 \<le> n"
  shows "mark_run b j n =
    (\<lambda>x. if j + 1 \<le> x \<and> x < j + (n - 1) then USED
         else (b(j := START_BOUNDARY, j + n - 1 := END_BOUNDARY)) x)"
  using assms by (auto simp: mark_run_def run_mark_def fun_eq_iff)

lemma mark_run_single: "mark_run b j 1 = b(j := SINGLE_BLOCK)"
  by (auto simp: mark_run_def run_mark_def fun_eq_iff)

lemma bm_qty_table: "bm_qty < table_size" "table_size < 4294967296" "bm_qty * BLOCK_SIZE < 4294967296"
  by (simp_all add: bm_qty_def table_size_def heap_constants)

lemma markGroupAsUsed_eq:
  assumes "2 \<le> n" "j + n \<le> bm_qty" "blocksUsed m + n \<le> bm_qty"
  shows "markGroupAsUsed m n j =
    Some (start m + j * BLOCK_SIZE,
          m\<lparr>blocksUsed := blocksUsed m + n, bitmap := mark_run (bitmap m) j n\<rparr>)"
proof -
  let ?m = "m\<lparr>bitmap := (bitmap m)(j := START_BOUNDARY, j + n - 1 := END_BOUNDARY),
              blocksUsed := blocksUsed m + 2\<rparr>"
  have w: "u32 (sub32 (j + n) 1) = j + n - 1" "sub32 n 1 = n - 1" "u32 (blocksUsed m + 2) = blocksUsed m + 2"
    "j < table_size" "j + n - 1 < table_size" "u32 (j * BLOCK_SIZE) = j * BLOCK_SIZE"
    using assms bm_qty_table by (auto simp: width_simps bm_qty_def BLOCK_SIZE_def)
  have "markGroup_loop ?m j 1 (n - 1) =
      Some (m\<lparr>blocksUsed := blocksUsed m + n, bitmap := mark_run (bitmap m) j n\<rparr>)"
    by (subst markGroup_loop_eq)
      (use assms bm_qty_table in \<open>auto simp: mark_run_unfold cong: if_cong\<close>)
  then show ?thesis
    using w by (simp add: markGroupAsUsed_def Let_def)
qed

lemma allocMemory_at:
  assumes ok: "bm_runs m R" and n: "n = sizeToBlockQty sz" "0 < n"
    and j: "j + n \<le> bm_qty" "free_run (bitmap m) j n"
    and a: "findFreeBlocks m n (current m) bm_qty = start m + j * BLOCK_SIZE \<or>
      findFreeBlocks m n (current m) bm_qty = 0 \<and>
      findFreeBlocks m n 0 bm_qty = start m + j * BLOCK_SIZE"
  shows "allocMemory m sz = Some (bm_start + j * BLOCK_SIZE,
      m\<lparr>current := j + n, blocksUsed := blocksUsed m + n, bitmap := mark_run (bitmap m) j n\<rparr>)"
proof -
  note D = bm_runsD [OF ok]
  have fit: "blocksUsed m + n \<le> bm_qty"
    using card_used_set_free [OF j(2,1)] D(4) by simp
  have le: "j \<le> bm_qty" "j + n \<le> bm_qty" "blocksUsed m < bm_qty" using fit j(1) n(2) by auto
  have w: "\<not> sub32 bm_qty (blocksUsed m) < n" "u32 (j + n) = j + n"
    "u32 (sub64 (bm_start + j * BLOCK_SIZE) bm_start div BLOCK_SIZE) = j"
    "u32 (blocksUsed m + 1) = blocksUsed m + 1" "j < table_size" "bm_start \<noteq> 0"
  proof -
    show "\<not> sub32 bm_qty (blocksUsed m) < n" using fit by (simp add: sub32_def)
    show "u32 (j + n) = j + n" using le(2) by (simp add: u32_small bm_qty_def)
    show "u32 (sub64 (bm_start + j * BLOCK_SIZE) bm_start div BLOCK_SIZE) = j"
      using le(1) by (simp add: u32_small sub64_le bm_qty_def BLOCK_SIZE_def)
    show "u32 (blocksUsed m + 1) = blocksUsed m + 1" using le(3) by (simp add: u32_small bm_qty_def)
    show "j < table_size" using le(1) bm_qty_table(1) by simp
    show "bm_start \<noteq> 0" by (simp add: bm_start_def)
  qed
  let ?m = "m\<lparr>current := j + n\<rparr>"
  have sel: "(if findFreeBlocks m n (current m) bm_qty = 0 then findFreeBlocks m n 0 bm_qty
      else findFreeBlocks m n (current m) bm_qty) = bm_start + j * BLOCK_SIZE"
    using a w(6) D(1) by auto
  have eq: "allocMemory m sz =
      (if n = 1 then Some (bm_start + j * BLOCK_SIZE,
          ?m\<lparr>blocksUsed := blocksUsed m + 1, bitmap := (bitmap m)(j := SINGLE_BLOCK)\<rparr>)
       else markGroupAsUsed ?m n j)"
    unfolding allocMemory_def Let_def n(1) [symmetric] D(1,2) sel
    using w fit by (cases "n = 1") simp_all
  show ?thesis
  proof (cases "n = 1")
    case True
    then show ?thesis using eq mark_run_single [of "bitmap m" j] by simp
  next
    case False
    then show ?thesis
      using eq markGroupAsUsed_eq [of n j ?m] n(2) j(1) fit D(1) by simp
  qed
qed

text \<open>The behaviour of a request on every branch.\<close>

lemma allocMemory_cases:
  assumes ok: "bm_runs m R" and sz: "0 < sz" "sz < 2 ^ 32"
  obtains (oom) "allocMemory m sz = Some (0, m)"
      "\<And>j. j + sizeToBlockQty sz \<le> bm_qty \<Longrightarrow> \<not> free_run (bitmap m) j (sizeToBlockQty sz)"
  | (fit) j m' where "allocMemory m sz = Some (bm_start + j * BLOCK_SIZE, m')"
      "j + sizeToBlockQty sz \<le> bm_qty" "free_run (bitmap m) j (sizeToBlockQty sz)"
      "bm_runs m' (R(j \<mapsto> sizeToBlockQty sz))"
proof -
  note D = bm_runsD [OF ok]
  let ?n = "sizeToBlockQty sz"
  have n: "0 < ?n" using sizeToBlockQty_bounds [OF sz] by simp
  note F = findFreeBlocks_spec [OF n D(3), of m] and F0 = findFreeBlocks_spec [OF n, of 0 m]
  have served: thesis if "j + ?n \<le> bm_qty" "free_run (bitmap m) j ?n"
    "findFreeBlocks m ?n (current m) bm_qty = start m + j * BLOCK_SIZE \<or>
      findFreeBlocks m ?n (current m) bm_qty = 0 \<and>
      findFreeBlocks m ?n 0 bm_qty = start m + j * BLOCK_SIZE" for j
    by (rule fit) (use allocMemory_at [OF ok refl n that] bm_runs_insert [OF ok that(2) n that(1), of "j + ?n"] that in auto)
  show thesis
  proof (cases "findFreeBlocks m ?n (current m) bm_qty = 0 \<and> findFreeBlocks m ?n 0 bm_qty = 0")
    case True
    show thesis
    proof (rule oom)
      show "allocMemory m sz = Some (0, m)"
        using True D(2) by (simp add: allocMemory_def Let_def)
      have "start m \<noteq> 0" using D(1) by (simp add: bm_start_def)
      then show "\<not> free_run (bitmap m) j ?n" if "j + ?n \<le> bm_qty" for j
        using F0 True that by auto
    qed
  next
    case False
    then show thesis
      using F F0 served by (metis le0)
  qed
qed

lemma freeMemory_run:
  assumes ok: "bm_runs m R" and j: "R j = Some n"
  shows "freeMemory m (bm_start + j * BLOCK_SIZE) =
    Some (m\<lparr>blocksUsed := blocksUsed m - n, bitmap := clear_run (bitmap m) j n\<rparr>)"
proof -
  note D = bm_runsD [OF ok]
  have n: "0 < n" "j + n \<le> bm_qty" "n \<le> blocksUsed m"
    using D(5,6) [OF j] bm_runs_delete(2) [OF ok j] by auto
  have w: "bm_start \<noteq> 0" "(bm_start + j * BLOCK_SIZE) mod BLOCK_SIZE = 0"
    "u32 (j * BLOCK_SIZE div BLOCK_SIZE) = j" "j < table_size"
    using n bm_qty_table by (auto simp: bm_start_def BLOCK_SIZE_def width_simps)
  have m: "bitmap m x = run_mark j n x" if "j \<le> x" "x < j + n" for x
    using D(7) [OF j that] .
  show ?thesis
  proof (cases "n = 1")
    case True
    then have "bitmap m j = SINGLE_BLOCK" using m [of j] by (simp add: run_mark_def)
    moreover have "clear_run (bitmap m) j 1 = (bitmap m)(j := FREE)"
      by (auto simp: clear_run_def fun_eq_iff)
    ultimately show ?thesis
      using True w n D(1) by (simp add: freeMemory_def sub32_le)
  next
    case False
    have st: "bitmap m j = START_BOUNDARY"
      using m [of j] n(1) False by (simp add: run_mark_def)
    have loop: "freeGroup_loop m j 0 =
        Some (n - 1, m\<lparr>bitmap := (\<lambda>x. if j + 0 \<le> x \<and> x < j + (n - 1) then FREE else bitmap m x)\<rparr>)"
      by (rule freeGroup_loop_eq)
        (use m False n bm_qty_table in \<open>auto simp: run_mark_def\<close>)
    have "(\<lambda>x. if j + 0 \<le> x \<and> x < j + (n - 1) then FREE else bitmap m x)(j + (n - 1) := FREE) =
        clear_run (bitmap m) j n"
      using n(1) by (auto simp: clear_run_def fun_eq_iff)
    then show ?thesis
      using w n D(1) st loop by (simp add: freeMemory_def sub32_le)
  qed
qed

text \<open>
  An address that is not the first block of a live run is ignored: no block changes.
\<close>

lemma freeMemory_not_run:
  assumes ok: "bm_runs m R" and i: "i < bm_qty" "R i = None"
  shows "freeMemory m (bm_start + i * BLOCK_SIZE) = Some m"
proof -
  note D = bm_runsD [OF ok]
  have w: "bm_start \<noteq> 0" "(bm_start + i * BLOCK_SIZE) mod BLOCK_SIZE = 0"
    "u32 (i * BLOCK_SIZE div BLOCK_SIZE) = i" "i < table_size"
    using i bm_qty_table by (auto simp: bm_start_def BLOCK_SIZE_def width_simps)
  have "bitmap m i \<noteq> SINGLE_BLOCK" "bitmap m i \<noteq> START_BOUNDARY"
  proof -
    show "bitmap m i \<noteq> SINGLE_BLOCK"
    proof
      assume s: "bitmap m i = SINGLE_BLOCK"
      then obtain j n where j: "R j = Some n" "j \<le> i" "i < j + n"
        using D(9) [OF i(1)] by auto
      then have "n = 1" using D(7) [OF j] s by (simp add: run_mark_def split: if_splits)
      with j have "j = i" by simp
      with j i(2) show False by simp
    qed
    show "bitmap m i \<noteq> START_BOUNDARY"
    proof
      assume s: "bitmap m i = START_BOUNDARY"
      then obtain j n where j: "R j = Some n" "j \<le> i" "i < j + n"
        using D(9) [OF i(1)] by auto
      then have "i = j" using D(7) [OF j] s by (simp add: run_mark_def split: if_splits)
      with j i(2) show False by simp
    qed
  qed
  then show ?thesis
    using w D(1) by (simp add: freeMemory_def)
qed

section \<open>The contract of the memory manager\<close>

text \<open>The live allocations as addresses and sizes in bytes.\<close>

definition bm_live :: "(nat \<rightharpoonup> nat) \<Rightarrow> (addr \<rightharpoonup> nat)" where
  "bm_live R p =
     (if bm_start \<le> p \<and> (p - bm_start) mod BLOCK_SIZE = 0
      then map_option (\<lambda>n. n * BLOCK_SIZE) (R ((p - bm_start) div BLOCK_SIZE)) else None)"

definition bm_rep :: "MemoryManagerCDT \<Rightarrow> (addr \<rightharpoonup> nat) \<Rightarrow> bool" where
  "bm_rep m L \<longleftrightarrow> (\<exists>R. bm_runs m R \<and> L = bm_live R)"

lemma bm_live_Some:
  "bm_live R p = Some k \<longleftrightarrow>
     (\<exists>j n. p = bm_start + j * BLOCK_SIZE \<and> R j = Some n \<and> k = n * BLOCK_SIZE)"
proof
  assume "bm_live R p = Some k"
  then have p: "bm_start \<le> p" "(p - bm_start) mod BLOCK_SIZE = 0"
    and "\<exists>n. R ((p - bm_start) div BLOCK_SIZE) = Some n \<and> k = n * BLOCK_SIZE"
    by (auto simp: bm_live_def split: if_splits)
  moreover from p have "p = bm_start + (p - bm_start) div BLOCK_SIZE * BLOCK_SIZE"
    by (metis add_diff_inverse_nat leD minus_mod_eq_div_mult minus_nat.diff_0)
  ultimately show "\<exists>j n. p = bm_start + j * BLOCK_SIZE \<and> R j = Some n \<and> k = n * BLOCK_SIZE"
    by blast
qed (auto simp: bm_live_def BLOCK_SIZE_def)

lemma bm_live_upd:
  "bm_live (R(j := v)) = (bm_live R)(bm_start + j * BLOCK_SIZE := map_option (\<lambda>n. n * BLOCK_SIZE) v)"
proof
  fix p
  show "bm_live (R(j := v)) p =
      ((bm_live R)(bm_start + j * BLOCK_SIZE := map_option (\<lambda>n. n * BLOCK_SIZE) v)) p"
  proof (cases "p = bm_start + j * BLOCK_SIZE")
    case False
    then have "\<not> (bm_start \<le> p \<and> (p - bm_start) mod BLOCK_SIZE = 0 \<and> (p - bm_start) div BLOCK_SIZE = j)"
      by (metis add_diff_inverse_nat leD minus_mod_eq_div_mult minus_nat.diff_0)
    with False show ?thesis by (auto simp: bm_live_def)
  qed (simp add: bm_live_def BLOCK_SIZE_def)
qed

lemma createMemoryManager_eq:
  "createMemoryManager a sz m =
     m\<lparr>start := bm_start, blockQty := bm_qty, blocksUsed := 0, current := 0,
       bitmap := clear_run (bitmap m) 0 bm_qty\<rparr>"
  by (simp add: createMemoryManager_def initializeBitmap_def initializeBitmap_loop_eq
      clear_run_def bm_start_def bm_qty_def heap_constants u32_def sub32_def Let_def)

lemma createMemoryManager_runs: "bm_runs (createMemoryManager a sz m) Map.empty"
proof -
  have "used_set (clear_run (bitmap m) 0 bm_qty) = {}"
    by (auto simp: used_set_def clear_run_def)
  then show ?thesis
    by (intro bm_runsI) (auto simp: createMemoryManager_eq clear_run_def)
qed

lemma allocMemory_after_free:
  assumes ok: "bm_runs m R" and j: "R j = Some n" and sz: "0 < sz" "sz \<le> n * BLOCK_SIZE" "sz < 2 ^ 32"
    and m': "freeMemory m (bm_start + j * BLOCK_SIZE) = Some m'"
  shows "\<exists>p m''. allocMemory m' sz = Some (p, m'') \<and> p \<noteq> 0"
proof -
  from m' have m': "m' = m\<lparr>blocksUsed := blocksUsed m - n, bitmap := clear_run (bitmap m) j n\<rparr>"
    by (simp add: freeMemory_run [OF ok j])
  have ok': "bm_runs m' (R(j := None))" and fr: "free_run (bitmap m') j n"
    using bm_runs_delete [OF ok j] by (auto simp: m')
  have "sizeToBlockQty sz \<le> n"
    using sizeToBlockQty_bounds(3) [OF sz(1,3)] sz(2) by (simp add: BLOCK_SIZE_def)
  then have free_run: "free_run (bitmap m') j (sizeToBlockQty sz)" "j + sizeToBlockQty sz \<le> bm_qty"
    using fr bm_runsD(6) [OF ok j] by (auto simp: free_run_def)
  show ?thesis
    using ok' sz(1,3)
  proof (cases rule: allocMemory_cases)
    case oom
    then show ?thesis using free_run by blast
  next
    case (fit i m'')
    then show ?thesis by (auto simp: bm_start_def)
  qed
qed

interpretation bm: allocator bitmap_ops bm_rep
proof
  fix m L p k q l n
  show "L 0 = None" if "bm_rep m L"
    using that by (auto simp: bm_rep_def bm_live_def bm_start_def)
  show "mm_free bitmap_ops m 0 = Some m"
    by (simp add: bitmap_ops_def freeMemory_def)
  show "p + k \<le> q \<or> q + l \<le> p" if "bm_rep m L" "L p = Some k" "L q = Some l" "p \<noteq> q"
    using that bm_runs_apart unfolding bm_rep_def
    by (auto simp: bm_live_Some BLOCK_SIZE_def) (metis add_mult_distrib mult_le_mono1)
  show "\<exists>p m'. mm_alloc bitmap_ops m n = Some (p, m') \<and>
      (p = 0 \<and> m' = m \<or> p \<noteq> 0 \<and> L p = None \<and> (\<exists>k \<ge> n. bm_rep m' (L(p \<mapsto> k))))"
    if rep: "bm_rep m L" and n: "0 < n" "n < 2 ^ 32"
  proof -
    from rep obtain R where R: "bm_runs m R" "L = bm_live R" by (auto simp: bm_rep_def)
    from R(1) n show ?thesis
    proof (cases rule: allocMemory_cases)
      case (fit j m')
      let ?p = "bm_start + j * BLOCK_SIZE"
      have "R j = None"
        using free_run_fresh [OF R(1) fit(3)] sizeToBlockQty_bounds(1) [OF n] by simp
      then have "L ?p = None" by (simp add: R(2) bm_live_def BLOCK_SIZE_def)
      moreover have "bm_rep m' (L(?p \<mapsto> sizeToBlockQty n * BLOCK_SIZE))"
        using fit(4) bm_live_upd [of R j "Some (sizeToBlockQty n)"] R(2) by (auto simp: bm_rep_def)
      ultimately show ?thesis
        using fit(1) sizeToBlockQty_bounds(2) [OF n]
        by (auto simp: bitmap_ops_def bm_start_def)
    qed (simp add: bitmap_ops_def)
  qed
  show "\<exists>m'. mm_free bitmap_ops m p = Some m' \<and> bm_rep m' (L(p := None)) \<and>
      (\<forall>n. 0 < n \<longrightarrow> n \<le> k \<longrightarrow> n < 2 ^ 32 \<longrightarrow> (\<exists>q m''. mm_alloc bitmap_ops m' n = Some (q, m'') \<and> q \<noteq> 0))"
    if rep: "bm_rep m L" and p: "L p = Some k"
  proof -
    from rep p obtain R j c where R: "bm_runs m R" "L = bm_live R" "R j = Some c"
      and pj: "p = bm_start + j * BLOCK_SIZE" "k = c * BLOCK_SIZE"
      by (auto simp: bm_rep_def bm_live_Some)
    have "bm_rep (m\<lparr>blocksUsed := blocksUsed m - c, bitmap := clear_run (bitmap m) j c\<rparr>) (L(p := None))"
      using bm_runs_delete(1) [OF R(1,3)] bm_live_upd [of R j None] R(2) pj by (auto simp: bm_rep_def)
    then show ?thesis
      using freeMemory_run [OF R(1,3)] allocMemory_after_free [OF R(1,3)] pj
      by (auto simp: bitmap_ops_def)
  qed
qed

section \<open>Properties\<close>

text \<open>The state after the kernel has called \<^verbatim>\<open>createMemoryManager\<close> on a cleared BSS.\<close>

definition bm_boot :: MemoryManagerCDT where
  "bm_boot = createMemoryManager HEAP_START_ADDRESS HEAP_SIZE
     \<lparr>start = 0, blockQty = 0, blocksUsed = 0, bitmap = (\<lambda>_. FREE), current = 0\<rparr>"

lemma bm_boot_runs: "bm_runs bm_boot Map.empty"
  unfolding bm_boot_def by (rule createMemoryManager_runs)

lemma bm_boot_eq:
  "bm_boot = \<lparr>start = bm_start, blockQty = bm_qty, blocksUsed = 0, bitmap = (\<lambda>_. FREE), current = 0\<rparr>"
  by (auto simp: bm_boot_def createMemoryManager_eq clear_run_def)

text \<open>The state after a first request of one block.\<close>

definition bm_one :: MemoryManagerCDT where
  "bm_one = bm_boot\<lparr>current := 1, blocksUsed := 1, bitmap := (bitmap bm_boot)(0 := SINGLE_BLOCK)\<rparr>"

lemma bm_one_runs: "bm_runs bm_one [0 \<mapsto> 1]"
  using bm_runs_insert [OF bm_boot_runs, of 0 1 1] mark_run_single [of "bitmap bm_boot" 0]
  by (simp add: bm_one_def bm_boot_eq free_run_def bm_qty_def)

text \<open>C37. A request for \<open>sz\<close> bytes (positive, below \<^term>\<open>2 ^ 32\<close>) to the bitmap manager
  never faults.  It is refused, with the state unchanged, only when no run of free blocks is
  long enough; otherwise the blocks returned were free, are disjoint from every live run, hold
  at least \<open>sz\<close> bytes and less than one block more, and the new state describes exactly the
  old runs and the new one.\<close>

theorem bitmap_alloc_correct:
  assumes "bm_runs m R" and "0 < sz" and "sz < 2 ^ 32"
  shows "\<exists>p m'. allocMemory m sz = Some (p, m') \<and>
     (p = 0 \<and> m' = m \<and>
        (\<forall>j. j + sizeToBlockQty sz \<le> bm_qty \<longrightarrow> \<not> free_run (bitmap m) j (sizeToBlockQty sz)) \<or>
      (\<exists>j n. p = bm_start + j * BLOCK_SIZE \<and> p \<noteq> 0 \<and>
         sz \<le> n * BLOCK_SIZE \<and> n * BLOCK_SIZE < sz + BLOCK_SIZE \<and>
         free_run (bitmap m) j n \<and> j + n \<le> bm_qty \<and>
         (\<forall>i k. R i = Some k \<longrightarrow> i + k \<le> j \<or> j + n \<le> i) \<and> bm_runs m' (R(j \<mapsto> n))))"
  using assms
proof (cases rule: allocMemory_cases)
  case (fit j m')
  have n: "0 < sizeToBlockQty sz" and b: "sz \<le> sizeToBlockQty sz * BLOCK_SIZE"
    "sizeToBlockQty sz * BLOCK_SIZE < sz + BLOCK_SIZE"
    using sizeToBlockQty_bounds [OF assms(2,3)] by auto
  have "bm_start + j * BLOCK_SIZE \<noteq> 0" by (simp add: bm_start_def)
  with fit b free_run_apart [OF assms(1) fit(3) n] show ?thesis by blast
qed auto

theorem bitmap_alloc_correct_witness:
  "\<exists>p m'. allocMemory bm_one 100 = Some (p, m') \<and>
     (p = 0 \<and> m' = bm_one \<and>
        (\<forall>j. j + sizeToBlockQty 100 \<le> bm_qty \<longrightarrow> \<not> free_run (bitmap bm_one) j (sizeToBlockQty 100)) \<or>
      (\<exists>j n. p = bm_start + j * BLOCK_SIZE \<and> p \<noteq> 0 \<and>
         100 \<le> n * BLOCK_SIZE \<and> n * BLOCK_SIZE < 100 + BLOCK_SIZE \<and>
         free_run (bitmap bm_one) j n \<and> j + n \<le> bm_qty \<and>
         (\<forall>i k. [0 \<mapsto> 1] i = Some k \<longrightarrow> i + k \<le> j \<or> j + n \<le> i) \<and>
         bm_runs m' ([0 \<mapsto> 1](j \<mapsto> n))))"
  by (rule bitmap_alloc_correct [OF bm_one_runs]) simp_all

text \<open>Releasing the first block of a live run of the bitmap manager never faults, clears
  exactly that run, leaves every other entry of the table alone, and makes a request of any
  size that fits in the released run succeed.\<close>

theorem bitmap_free_correct:
  assumes "bm_runs m R" and "R j = Some n" and "0 < sz" and "sz \<le> n * BLOCK_SIZE"
  shows "\<exists>m'. freeMemory m (bm_start + j * BLOCK_SIZE) = Some m' \<and> bm_runs m' (R(j := None)) \<and>
     (\<forall>i. i < j \<or> j + n \<le> i \<longrightarrow> bitmap m' i = bitmap m i) \<and>
     (\<exists>p m''. allocMemory m' sz = Some (p, m'') \<and> p \<noteq> 0)"
proof -
  have "n * BLOCK_SIZE < 2 ^ 32"
    using bm_runsD(6) [OF assms(1,2)] by (simp add: bm_qty_def BLOCK_SIZE_def)
  then have "sz < 2 ^ 32" using assms(4) by simp
  moreover from freeMemory_run [OF assms(1,2)]
  obtain m' where m': "freeMemory m (bm_start + j * BLOCK_SIZE) = Some m'"
    "m' = m\<lparr>blocksUsed := blocksUsed m - n, bitmap := clear_run (bitmap m) j n\<rparr>" by simp
  moreover have "\<forall>i. i < j \<or> j + n \<le> i \<longrightarrow> bitmap m' i = bitmap m i"
    by (auto simp: m'(2) clear_run_def)
  ultimately show ?thesis
    using bm_runs_delete(1) [OF assms(1,2)] allocMemory_after_free [OF assms(1-4) _ m'(1)] by auto
qed

theorem bitmap_free_correct_witness:
  "\<exists>m'. freeMemory bm_one (bm_start + 0 * BLOCK_SIZE) = Some m' \<and> bm_runs m' ([0 \<mapsto> 1](0 := None)) \<and>
     (\<forall>i. i < 0 \<or> 0 + 1 \<le> i \<longrightarrow> bitmap m' i = bitmap bm_one i) \<and>
     (\<exists>p m''. allocMemory m' 64 = Some (p, m'') \<and> p \<noteq> 0)"
  by (rule bitmap_free_correct [OF bm_one_runs]) (simp_all add: BLOCK_SIZE_def)

text \<open>The bitmap manager ignores a release of a block that is not the first block of a
  live run: a double free, or a pointer into the middle of an allocation, changes nothing.\<close>

theorem bitmap_free_foreign:
  assumes "bm_runs m R" and "i < bm_qty" and "R i = None"
  shows "freeMemory m (bm_start + i * BLOCK_SIZE) = Some m"
  using assms by (rule freeMemory_not_run)

theorem bitmap_free_foreign_witness: "freeMemory bm_one (bm_start + 7 * BLOCK_SIZE) = Some bm_one"
  by (rule bitmap_free_foreign [OF bm_one_runs]) (simp_all add: bm_qty_def)

text \<open>The search of the bitmap manager is first fit: it returns the address of the lowest
  run of \<open>n\<close> free blocks at or behind the start index, and \<open>0\<close> exactly when there is none.\<close>

theorem bitmap_first_fit:
  assumes "0 < n" and "s \<le> bm_qty" and "start m = bm_start"
  shows "(case findFreeBlocks m n s bm_qty of
       0 \<Rightarrow> \<forall>j \<ge> s. j + n \<le> bm_qty \<longrightarrow> \<not> free_run (bitmap m) j n
     | a \<Rightarrow> \<exists>j \<ge> s. a = bm_start + j * BLOCK_SIZE \<and> j + n \<le> bm_qty \<and> free_run (bitmap m) j n \<and>
              (\<forall>k. s \<le> k \<and> k < j \<longrightarrow> \<not> free_run (bitmap m) k n))"
  using findFreeBlocks_spec [OF assms(1,2), of m] assms(3)
  by (auto simp: bm_start_def split: nat.splits)

theorem bitmap_first_fit_witness:
  "(case findFreeBlocks bm_one 2 0 bm_qty of
       0 \<Rightarrow> \<forall>j \<ge> 0. j + 2 \<le> bm_qty \<longrightarrow> \<not> free_run (bitmap bm_one) j 2
     | a \<Rightarrow> \<exists>j \<ge> 0. a = bm_start + j * BLOCK_SIZE \<and> j + 2 \<le> bm_qty \<and> free_run (bitmap bm_one) j 2 \<and>
              (\<forall>k. 0 \<le> k \<and> k < j \<longrightarrow> \<not> free_run (bitmap bm_one) k 2))"
  by (rule bitmap_first_fit) (simp_all add: bm_one_def bm_boot_eq)

text \<open>The bitmap manager truncates a request to 32 bits: a request for 4 GiB and one byte
  is granted with a single block of 64 bytes.\<close>

theorem bitmap_alloc_truncates:
  "\<exists>m'. allocMemory bm_boot (2 ^ 32 + 1) = Some (bm_start, m') \<and> bm_runs m' [0 \<mapsto> 1]"
proof -
  have n: "1 = sizeToBlockQty (2 ^ 32 + 1)" "sizeToBlockQty 4294967297 = 1"
    by (simp_all add: sizeToBlockQty_def u32_def BLOCK_SIZE_def)
  have "findFreeBlocks bm_boot 1 (current bm_boot) bm_qty = start bm_boot + 0 * BLOCK_SIZE"
    by (simp add: findFreeBlocks_def findFreeBlocks_loop.simps bm_boot_eq group_address_def
        sub32_def u32_def bm_qty_def)
  then have "allocMemory bm_boot (2 ^ 32 + 1) = Some (bm_start + 0 * BLOCK_SIZE,
      bm_boot\<lparr>current := 0 + 1, blocksUsed := blocksUsed bm_boot + 1,
              bitmap := mark_run (bitmap bm_boot) 0 1\<rparr>)"
    by (intro allocMemory_at [OF bm_boot_runs]) (simp_all add: n(2) bm_qty_def free_run_def bm_boot_eq)
  moreover have "bm_runs (bm_boot\<lparr>current := 0 + 1, blocksUsed := blocksUsed bm_boot + 1,
              bitmap := mark_run (bitmap bm_boot) 0 1\<rparr>) [0 \<mapsto> 1]"
    by (rule bm_runs_insert [OF bm_boot_runs]) (simp_all add: free_run_def bm_boot_eq bm_qty_def)
  ultimately show ?thesis by auto
qed

lemma markGroup_loop_wild:
  "i \<le> lim \<Longrightarrow> table_size < index + lim \<Longrightarrow> index + i \<le> table_size \<Longrightarrow>
   markGroup_loop m index i lim = None"
proof (induction m index i lim rule: markGroup_loop.induct)
  case (1 m index i lim)
  then show ?case
    by (cases "index + i < table_size") (auto simp: markGroup_loop.simps [of m index i lim])
qed

text \<open>A request for zero bytes is not harmless: with the search cursor at the end of the
  heap (where any allocation of the last block leaves it), \<^verbatim>\<open>allocMemory(0)\<close> of the bitmap
  manager selects a group behind the last block and its marking loop, whose bound
  \<open>blocksNeeded - 1\<close> has wrapped to \<^term>\<open>2 ^ 32 - 1\<close>, writes past the end of the table.\<close>

theorem bitmap_alloc_zero_wild:
  assumes "bm_runs m R" and "current m = bm_qty"
  shows "allocMemory m 0 = None"
proof -
  note D = bm_runsD [OF assms(1)]
  have n: "sizeToBlockQty 0 = 0" by (simp add: sizeToBlockQty_def u32_def)
  have g: "findFreeBlocks m 0 bm_qty bm_qty = bm_start + (bm_qty + 1) * BLOCK_SIZE"
    using D(1) by (simp add: findFreeBlocks_def findFreeBlocks_loop.simps group_address_def
        sub32_def u32_def bm_qty_def BLOCK_SIZE_def)
  have i: "u32 (sub64 (bm_start + (bm_qty + 1) * BLOCK_SIZE) bm_start div BLOCK_SIZE) = bm_qty + 1"
    by (simp add: sub64_def u32_def bm_qty_def BLOCK_SIZE_def)
  have "allocMemory m 0 = markGroupAsUsed (m\<lparr>current := bm_qty + 1\<rparr>) 0 (bm_qty + 1)"
    unfolding allocMemory_def Let_def n assms(2) D(1,2) g
    using i by (simp add: bm_start_def u32_def bm_qty_def)
  moreover have "markGroup_loop m' (bm_qty + 1) 1 (sub32 0 1) = None" for m'
    by (rule markGroup_loop_wild)
      (simp_all add: sub32_def bm_qty_def table_size_def heap_constants)
  ultimately show ?thesis
    by (simp add: markGroupAsUsed_def Let_def)
qed

lemma bm_cursor_end: "bm_runs (bm_boot\<lparr>current := bm_qty\<rparr>) Map.empty"
  using bm_boot_runs by (simp add: bm_runs_def)

theorem bitmap_alloc_zero_wild_witness: "allocMemory (bm_boot\<lparr>current := bm_qty\<rparr>) 0 = None"
  by (rule bitmap_alloc_zero_wild [OF bm_cursor_end]) simp

text \<open>The figures the bitmap manager reports add up: used and free bytes make the total, and
  the used bytes are exactly the marked blocks.\<close>

theorem bitmap_accounting:
  assumes "bm_runs m R" and "info \<noteq> 0"
  shows "\<exists>i. getMemoryInfo m info = Some i \<and> mi_used i + mi_free i = mi_total i \<and>
     mi_total i = bm_qty * BLOCK_SIZE \<and> mi_used i = card (used_set (bitmap m)) * BLOCK_SIZE \<and>
     getUsedMemory m = mi_used i \<and> getFreeMemory m = mi_free i"
proof -
  note D = bm_runsD [OF assms(1)]
  have le: "blocksUsed m \<le> bm_qty" using card_used_set_le D(4) by simp
  have u: "u32 (k * BLOCK_SIZE) = k * BLOCK_SIZE" if "k \<le> bm_qty" for k
  proof (rule u32_small)
    have "k * BLOCK_SIZE \<le> bm_qty * BLOCK_SIZE" using that by (rule mult_le_mono1)
    then show "k * BLOCK_SIZE < 4294967296" using bm_qty_table(3) by (rule le_less_trans)
  qed
  have w: "u32 (bm_qty * BLOCK_SIZE) = bm_qty * BLOCK_SIZE"
    "u32 (blocksUsed m * BLOCK_SIZE) = blocksUsed m * BLOCK_SIZE"
    "u32 ((bm_qty - blocksUsed m) * BLOCK_SIZE) = bm_qty * BLOCK_SIZE - blocksUsed m * BLOCK_SIZE"
    using u [OF le] u [OF order_refl] u [OF diff_le_self [of bm_qty "blocksUsed m"]]
    by (simp_all only: diff_mult_distrib)
  with le D(2,4) assms(2) show ?thesis
    by (simp add: getMemoryInfo_def getUsedMemory_def getFreeMemory_def Let_def sub32_def sub64_def)
qed

theorem bitmap_accounting_witness:
  "\<exists>i. getMemoryInfo bm_one 4096 = Some i \<and> mi_used i + mi_free i = mi_total i \<and>
     mi_total i = bm_qty * BLOCK_SIZE \<and> mi_used i = card (used_set (bitmap bm_one)) * BLOCK_SIZE \<and>
     getUsedMemory bm_one = mi_used i \<and> getFreeMemory bm_one = mi_free i"
  by (rule bitmap_accounting [OF bm_one_runs]) simp

end
