(* ===== verification/Queue_ADT.thy ===== *)
theory Queue_ADT
  imports Memory_Interface
begin

text \<open>
  The linked queue, \<^verbatim>\<open>Kernel/dataStructures/queue.c\<close>, on which the process manager and the
  semaphores are built.

  The heap of the queues is a typed store: \<open>nodes\<close> and \<open>queues\<close> are the structures at an
  address, \<open>ptrs\<close> the arrays of pointers that \<^verbatim>\<open>dumpQueue\<close> fills, and \<open>mm\<close> is the state
  of the linked memory manager, whose operations are the argument \<open>ops\<close>.  Releasing
  memory leaves the old contents in the store.  An operation returns its result and the
  new heap, or \<open>None\<close> for a fault or a loop that does not end.

  The locale \<open>queue_adt\<close> states what the clients rely on: the queues are lists, and an
  \<^verbatim>\<open>enqueue\<close> that follows a \<^verbatim>\<open>dequeue\<close> or a \<^verbatim>\<open>remove\<close> cannot fail.  It holds for every
  allocator (a sublocale).
\<close>

section \<open>State\<close>

record Node =
  node_data :: addr
  node_next :: addr

record Queue =
  front :: addr
  rear :: addr
  qsize :: int

record 'm qheap =
  mm :: 'm
  nodes :: "addr \<Rightarrow> Node"
  queues :: "addr \<Rightarrow> Queue"
  ptrs :: "addr \<Rightarrow> addr"

definition sizeof_Node :: nat where "sizeof_Node = 16"
definition sizeof_Queue :: nat where "sizeof_Queue = 24"
definition sizeof_ptr :: nat where "sizeof_ptr = 8"

lemmas queue_sizes = sizeof_Node_def sizeof_Queue_def sizeof_ptr_def

text \<open>\<^verbatim>\<open>allocMemory\<close> and \<^verbatim>\<open>freeMemory\<close> as the kernel calls them.\<close>

definition kalloc :: "'m mm_ops \<Rightarrow> 'm qheap \<Rightarrow> nat \<Rightarrow> (addr \<times> 'm qheap) option" where
  "kalloc ops h n = do { (p, m') \<leftarrow> mm_alloc ops (mm h) n; Some (p, h\<lparr>mm := m'\<rparr>) }"

definition kfree :: "'m mm_ops \<Rightarrow> 'm qheap \<Rightarrow> addr \<Rightarrow> 'm qheap option" where
  "kfree ops h p = do { m' \<leftarrow> mm_free ops (mm h) p; Some (h\<lparr>mm := m'\<rparr>) }"

section \<open>Operations\<close>

definition createQueue :: "'m mm_ops \<Rightarrow> 'm qheap \<Rightarrow> (addr \<times> 'm qheap) option" where
  "createQueue ops h = do {
     (queue, h1) \<leftarrow> kalloc ops h sizeof_Queue;
     if queue = 0 then Some (0, h1)
     else Some (queue, h1\<lparr>queues := (queues h1)(queue := \<lparr>front = 0, rear = 0, qsize = 0\<rparr>)\<rparr>)
   }"

text \<open>The loop of \<^verbatim>\<open>freeQueue\<close> and \<^verbatim>\<open>clearQueue\<close>.\<close>

partial_function (option) free_nodes :: "'m mm_ops \<Rightarrow> 'm qheap \<Rightarrow> addr \<Rightarrow> 'm qheap option" where
  [code]: "free_nodes ops h current =
     (if current = 0 then Some h
      else do {
        h1 \<leftarrow> kfree ops h current;
        free_nodes ops h1 (node_next (nodes h current))
      })"

definition freeQueue :: "'m mm_ops \<Rightarrow> 'm qheap \<Rightarrow> addr \<Rightarrow> 'm qheap option" where
  "freeQueue ops h queue =
     (if queue = 0 then Some h
      else do { h1 \<leftarrow> free_nodes ops h (front (queues h queue)); kfree ops h1 queue })"

definition enqueue :: "'m mm_ops \<Rightarrow> 'm qheap \<Rightarrow> addr \<Rightarrow> addr \<Rightarrow> (int \<times> 'm qheap) option" where
  "enqueue ops h queue dat =
     (if queue = 0 then Some (-1, h)
      else do {
        (newNode, h1) \<leftarrow> kalloc ops h sizeof_Node;
        if newNode = 0 then Some (-1, h1)
        else do {
          let h2 = h1\<lparr>nodes := (nodes h1)(newNode := \<lparr>node_data = dat, node_next = 0\<rparr>)\<rparr>;
          let Q = queues h2 queue;
          let h3 = (if rear Q = 0
                    then h2\<lparr>queues := (queues h2)(queue := Q\<lparr>front := newNode, rear := newNode\<rparr>)\<rparr>
                    else h2\<lparr>nodes := (nodes h2)(rear Q := (nodes h2 (rear Q))\<lparr>node_next := newNode\<rparr>),
                            queues := (queues h2)(queue := Q\<lparr>rear := newNode\<rparr>)\<rparr>);
          Some (0, h3\<lparr>queues := (queues h3)(queue := (queues h3 queue)\<lparr>qsize := qsize Q + 1\<rparr>)\<rparr>)
        }
      })"

definition dequeue :: "'m mm_ops \<Rightarrow> 'm qheap \<Rightarrow> addr \<Rightarrow> (addr \<times> 'm qheap) option" where
  "dequeue ops h queue =
     (if queue = 0 \<or> front (queues h queue) = 0 then Some (0, h)
      else do {
        let Q = queues h queue;
        let temp = front Q;
        let dat = node_data (nodes h temp);
        let Q1 = Q\<lparr>front := node_next (nodes h temp)\<rparr>;
        let Q2 = (if front Q1 = 0 then Q1\<lparr>rear := 0\<rparr> else Q1);
        h1 \<leftarrow> kfree ops (h\<lparr>queues := (queues h)(queue := Q2)\<rparr>) temp;
        Some (dat, h1\<lparr>queues := (queues h1)(queue := (queues h1 queue)\<lparr>qsize := qsize Q2 - 1\<rparr>)\<rparr>)
      })"

definition queueSize :: "'m qheap \<Rightarrow> addr \<Rightarrow> int" where
  "queueSize h queue = (if queue = 0 then 0 else qsize (queues h queue))"

definition isQueueEmpty :: "'m qheap \<Rightarrow> addr \<Rightarrow> bool" where
  "isQueueEmpty h queue = (if queue = 0 then True else qsize (queues h queue) = 0)"

definition peekQueue :: "'m qheap \<Rightarrow> addr \<Rightarrow> addr" where
  "peekQueue h queue =
     (if queue = 0 \<or> front (queues h queue) = 0 then 0
      else node_data (nodes h (front (queues h queue))))"

definition clearQueue :: "'m mm_ops \<Rightarrow> 'm qheap \<Rightarrow> addr \<Rightarrow> 'm qheap option" where
  "clearQueue ops h queue =
     (if queue = 0 then Some h
      else do {
        h1 \<leftarrow> free_nodes ops h (front (queues h queue));
        Some (h1\<lparr>queues := (queues h1)(queue := \<lparr>front = 0, rear = 0, qsize = 0\<rparr>)\<rparr>)
      })"

text \<open>
  A comparison is called with the datum of a node and a pointer to the caller's key; the
  model passes the key by value.  \<open>None\<close> is the null function pointer.
\<close>

partial_function (option) contains_walk ::
  "'m qheap \<Rightarrow> (addr \<Rightarrow> 'k \<Rightarrow> int) \<Rightarrow> 'k \<Rightarrow> addr \<Rightarrow> addr option" where
  [code]: "contains_walk h compare key current =
     (if current = 0 then Some 0
      else if compare (node_data (nodes h current)) key = 0 then Some (node_data (nodes h current))
      else contains_walk h compare key (node_next (nodes h current)))"

definition containsQueue ::
  "'m qheap \<Rightarrow> addr \<Rightarrow> 'k \<Rightarrow> (addr \<Rightarrow> 'k \<Rightarrow> int) option \<Rightarrow> addr option" where
  "containsQueue h queue key compare =
     (case compare of None \<Rightarrow> Some 0
      | Some c \<Rightarrow> if queue = 0 then Some 0 else contains_walk h c key (front (queues h queue)))"

text \<open>The loop of \<^verbatim>\<open>remove\<close>: the node before the first match, and the match (\<open>0\<close>: none).\<close>

partial_function (option) match_walk ::
  "'m qheap \<Rightarrow> (addr \<Rightarrow> 'k \<Rightarrow> int) \<Rightarrow> 'k \<Rightarrow> addr \<Rightarrow> addr \<Rightarrow> (addr \<times> addr) option" where
  [code]: "match_walk h compare key previous current =
     (if current = 0 then Some (previous, 0)
      else if compare (node_data (nodes h current)) key = 0 then Some (previous, current)
      else match_walk h compare key current (node_next (nodes h current)))"

definition remove_q :: "'m mm_ops \<Rightarrow> 'm qheap \<Rightarrow> addr \<Rightarrow> 'k \<Rightarrow> (addr \<Rightarrow> 'k \<Rightarrow> int) option \<Rightarrow>
    (addr \<times> 'm qheap) option" where
  "remove_q ops h queue key compare =
     (case compare of None \<Rightarrow> Some (0, h)
      | Some c \<Rightarrow>
        if queue = 0 then Some (0, h)
        else do {
          (previous, current) \<leftarrow> match_walk h c key 0 (front (queues h queue));
          if current = 0 then Some (0, h)
          else do {
            let nxt = node_next (nodes h current);
            let h1 = (if previous = 0
                      then h\<lparr>queues := (queues h)(queue := (queues h queue)\<lparr>front := nxt\<rparr>)\<rparr>
                      else h\<lparr>nodes := (nodes h)(previous := (nodes h previous)\<lparr>node_next := nxt\<rparr>)\<rparr>);
            let h2 = (if current = rear (queues h1 queue)
                      then h1\<lparr>queues := (queues h1)(queue := (queues h1 queue)\<lparr>rear := previous\<rparr>)\<rparr>
                      else h1);
            let removedData = node_data (nodes h2 current);
            h3 \<leftarrow> kfree ops h2 current;
            Some (removedData, h3\<lparr>queues := (queues h3)(queue :=
                    (queues h3 queue)\<lparr>qsize := qsize (queues h3 queue) - 1\<rparr>)\<rparr>)
          }
        })"

partial_function (option) dump_walk :: "'m qheap \<Rightarrow> addr \<Rightarrow> nat \<Rightarrow> addr \<Rightarrow> 'm qheap option" where
  [code]: "dump_walk h dataArray index current =
     (if current = 0 then Some h
      else dump_walk (h\<lparr>ptrs := (ptrs h)(dataArray + sizeof_ptr * index := node_data (nodes h current))\<rparr>)
             dataArray (index + 1) (node_next (nodes h current)))"

definition dumpQueue :: "'m mm_ops \<Rightarrow> 'm qheap \<Rightarrow> addr \<Rightarrow> (addr \<times> 'm qheap) option" where
  "dumpQueue ops h queue =
     (if queue = 0 \<or> qsize (queues h queue) = 0 then Some (0, h)
      else do {
        (dataArray, h1) \<leftarrow> kalloc ops h (nat ((int sizeof_ptr * qsize (queues h queue)) mod 2 ^ 64));
        if dataArray = 0 then Some (0, h1)
        else do {
          h2 \<leftarrow> dump_walk h1 dataArray 0 (front (queues h1 queue));
          Some (dataArray, h2)
        }
      })"

section \<open>Queues as lists\<close>

abbreviation nnext :: "'m qheap \<Rightarrow> addr \<Rightarrow> addr" where "nnext h a \<equiv> node_next (nodes h a)"
abbreviation ndata :: "'m qheap \<Rightarrow> addr \<Rightarrow> addr" where "ndata h a \<equiv> node_data (nodes h a)"

text \<open>The structure at \<open>q\<close> is a queue whose cells are \<open>ns\<close> and whose data are \<open>xs\<close>.\<close>

definition queue_at :: "'m qheap \<Rightarrow> addr \<Rightarrow> addr list \<Rightarrow> addr list \<Rightarrow> bool" where
  "queue_at h q ns xs \<longleftrightarrow> chain (nnext h) (front (queues h q)) ns \<and> map (ndata h) ns = xs \<and>
     rear (queues h q) = (if ns = [] then 0 else last ns) \<and> qsize (queues h q) = int (length xs)"

text \<open>
  Ownership: \<open>A\<close> maps the queues to their data and \<open>ns\<close> to their cells, \<open>X\<close> maps the other
  allocations of the kernel to their sizes; all of them are live and distinct.
\<close>

definition owns :: "(addr \<rightharpoonup> nat) \<Rightarrow> (addr \<rightharpoonup> addr list) \<Rightarrow> (addr \<rightharpoonup> nat) \<Rightarrow> (addr \<Rightarrow> addr list) \<Rightarrow> bool" where
  "owns L A X ns \<longleftrightarrow>
     (\<forall>q \<in> dom A. \<exists>k \<ge> sizeof_Queue. L q = Some k) \<and>
     (\<forall>q \<in> dom A. \<forall>n \<in> set (ns q). \<exists>k \<ge> sizeof_Node. L n = Some k) \<and>
     (\<forall>x k. X x = Some k \<longrightarrow> (\<exists>l \<ge> k. L x = Some l)) \<and>
     (\<forall>q \<in> dom A. \<forall>q' \<in> dom A. q \<noteq> q' \<longrightarrow> set (ns q) \<inter> set (ns q') = {}) \<and>
     (\<forall>q \<in> dom A. set (ns q) \<inter> (dom A \<union> dom X) = {}) \<and> dom A \<inter> dom X = {}"

definition kq :: "('m \<Rightarrow> (addr \<rightharpoonup> nat) \<Rightarrow> bool) \<Rightarrow> 'm qheap \<Rightarrow> (addr \<rightharpoonup> addr list) \<Rightarrow> (addr \<rightharpoonup> nat) \<Rightarrow> bool" where
  "kq rep h A X \<longleftrightarrow> (\<exists>L ns. rep (mm h) L \<and> owns L A X ns \<and>
     (\<forall>q xs. A q = Some xs \<longrightarrow> queue_at h q (ns q) xs))"

text \<open>A request for a node would be granted.\<close>

definition node_ready :: "'m mm_ops \<Rightarrow> 'm qheap \<Rightarrow> bool" where
  "node_ready ops h \<longleftrightarrow> (\<exists>p m'. mm_alloc ops (mm h) sizeof_Node = Some (p, m') \<and> p \<noteq> 0)"

lemma kqE:
  assumes "kq rep h A X"
  obtains L ns where "rep (mm h) L" "owns L A X ns" "\<And>q xs. A q = Some xs \<Longrightarrow> queue_at h q (ns q) xs"
  using assms unfolding kq_def by blast

lemma kq_queue: "kq rep h A X \<Longrightarrow> A q = Some xs \<Longrightarrow> \<exists>ns. queue_at h q ns xs"
  unfolding kq_def by blast

lemma kqI:
  "rep (mm h) L \<Longrightarrow> owns L A X ns \<Longrightarrow> (\<And>q xs. A q = Some xs \<Longrightarrow> queue_at h q (ns q) xs) \<Longrightarrow> kq rep h A X"
  unfolding kq_def by blast

lemma ownsD:
  assumes "owns L A X ns" "A q = Some xs"
  shows "\<exists>k \<ge> sizeof_Queue. L q = Some k" "n \<in> set (ns q) \<Longrightarrow> \<exists>k \<ge> sizeof_Node. L n = Some k"
    "q' \<in> dom A \<Longrightarrow> q \<noteq> q' \<Longrightarrow> set (ns q) \<inter> set (ns q') = {}" "set (ns q) \<inter> (dom A \<union> dom X) = {}"
    "X q = None"
  using assms unfolding owns_def by (blast | auto)+

lemma owns_X: "owns L A X ns \<Longrightarrow> X x = Some k \<Longrightarrow> \<exists>l \<ge> k. L x = Some l"
  unfolding owns_def by blast

text \<open>An allocation becomes an empty queue, and back.\<close>

lemma owns_take:
  assumes "owns L A (X(q \<mapsto> sizeof_Queue)) ns" "X q = None" "A q = None"
  shows "owns L (A(q \<mapsto> [])) X (ns(q := []))"
proof -
  have 1: "\<exists>k \<ge> sizeof_Queue. L q = Some k" using owns_X [OF assms(1), of q] by simp
  have 2: "\<exists>l \<ge> k. L x = Some l" if "X x = Some k" for x k
    using owns_X [OF assms(1), of x k] that assms(2) by (cases "x = q") auto
  show ?thesis using assms 1 2 unfolding owns_def by (auto split: if_splits)
qed

lemma owns_give:
  assumes "owns L (A(q \<mapsto> [])) X ns" "ns q = []" "X q = None"
  shows "owns L (A(q := None)) (X(q \<mapsto> sizeof_Queue)) ns"
proof -
  have 1: "\<exists>k \<ge> sizeof_Queue. L q = Some k" using ownsD(1) [OF assms(1), of q] by simp
  show ?thesis using assms 1 unfolding owns_def by (auto split: if_splits) blast+
qed

lemma queue_at_cong:
  assumes "queues h' q = queues h q" "\<And>n. n \<in> set ns \<Longrightarrow> nodes h' n = nodes h n"
  shows "queue_at h' q ns xs = queue_at h q ns xs"
proof -
  have "chain (nnext h') (front (queues h q)) ns = chain (nnext h) (front (queues h q)) ns"
    by (rule seg_cong) (simp add: assms(2))
  moreover have "map (ndata h') ns = map (ndata h) ns" using assms(2) by simp
  ultimately show ?thesis by (simp only: queue_at_def assms(1))
qed

text \<open>Changing one queue, with cells that stay its own, leaves the others alone.\<close>

lemma kq_update:
  assumes "rep (mm h') L'" "owns L A X ns" "A q = Some xs"
    and others: "\<And>q' ys. A q' = Some ys \<Longrightarrow> queue_at h q' (ns q') ys"
    and mem: "\<And>a. a \<notin> set (ns q) \<Longrightarrow> L a \<noteq> None \<Longrightarrow> L' a = L a"
    and cells: "\<And>n. n \<in> set ms \<Longrightarrow> (\<exists>k \<ge> sizeof_Node. L' n = Some k) \<and> (n \<in> set (ns q) \<or> L n = None)"
    and frame: "\<And>q'. q' \<noteq> q \<Longrightarrow> queues h' q' = queues h q'"
      "\<And>n. n \<notin> set (ns q) \<Longrightarrow> L n \<noteq> None \<Longrightarrow> nodes h' n = nodes h n"
    and new: "queue_at h' q ms ys"
  shows "kq rep h' (A(q \<mapsto> ys)) X"
proof (rule kqI [where rep = rep and h = h', OF assms(1)])
  note O = ownsD [OF assms(2)]
  have live: "L n \<noteq> None \<and> n \<notin> set (ns q)" if "A q' = Some zs" "q' \<noteq> q" "n \<in> set (ns q')" for q' zs n
    using O(2,3) [OF that(1)] that assms(3) by fastforce
  have ms: "n \<notin> dom A \<and> n \<notin> dom X \<and> (\<forall>q' zs. A q' = Some zs \<longrightarrow> q' \<noteq> q \<longrightarrow> n \<notin> set (ns q'))"
    if "n \<in> set ms" for n
  proof (cases "n \<in> set (ns q)")
    case True
    then show ?thesis using O(3,4) [OF assms(3)] by (metis disjoint_iff UnCI domI)
  next
    case False
    then have "L n = None" using cells [OF that] by simp
    then show ?thesis using O(1) owns_X [OF assms(2)] live by (metis domD option.distinct(1))
  qed
  show "owns L' (A(q \<mapsto> ys)) X (ns(q := ms))"
    unfolding owns_def
  proof (intro conjI ballI allI impI)
    fix q' assume q': "q' \<in> dom (A(q \<mapsto> ys))"
    then obtain zs where zs: "A q' = Some zs" using assms(3) by (auto split: if_splits)
    have "q' \<notin> set (ns q)" using O(4) [OF assms(3)] zs by auto
    then show "\<exists>k \<ge> sizeof_Queue. L' q' = Some k" using O(1) [OF zs] mem [of q'] by auto
    fix n assume "n \<in> set ((ns(q := ms)) q')"
    then show "\<exists>k \<ge> sizeof_Node. L' n = Some k"
      using cells live [OF zs] O(2) [OF zs] mem [of n] by (fastforce split: if_splits)
  next
    fix x k assume "X x = Some k"
    moreover from this have "x \<notin> set (ns q)" using O(4) [OF assms(3)] by auto
    ultimately show "\<exists>l \<ge> k. L' x = Some l" using owns_X [OF assms(2)] mem [of x] by fastforce
  next
    fix q1 q2 assume q: "q1 \<in> dom (A(q \<mapsto> ys))" "q2 \<in> dom (A(q \<mapsto> ys))" "q1 \<noteq> q2"
    then obtain z1 z2 where z: "A q1 = Some z1" "A q2 = Some z2" using assms(3) by (auto split: if_splits)
    show "set ((ns(q := ms)) q1) \<inter> set ((ns(q := ms)) q2) = {}"
      using ms z q(3) O(3) [OF z(1), of q2] by (auto split: if_splits)
  next
    fix q' assume "q' \<in> dom (A(q \<mapsto> ys))"
    then obtain zs where zs: "A q' = Some zs" using assms(3) by (auto split: if_splits)
    have d: "dom (A(q \<mapsto> ys)) = dom A" using assms(3) by auto
    have "set ms \<inter> (dom A \<union> dom X) = {}" using ms by blast
    then show "set ((ns(q := ms)) q') \<inter> (dom (A(q \<mapsto> ys)) \<union> dom X) = {}"
      unfolding d using O(4) [OF zs] by simp
  next
    show "dom (A(q \<mapsto> ys)) \<inter> dom X = {}" using assms(2,3) O(5) [OF assms(3)] unfolding owns_def by auto
  qed
  fix q' zs assume a: "(A(q \<mapsto> ys)) q' = Some zs"
  show "queue_at h' q' ((ns(q := ms)) q') zs"
  proof (cases "q' = q")
    case False
    with a have zs: "A q' = Some zs" by simp
    with False live [OF zs False] show ?thesis
      using others [OF zs] by (subst queue_at_cong [where h = h]) (auto simp: frame)
  qed (use a new in simp)
qed

text \<open>Appending a fresh cell, and taking out a cell, of one queue.\<close>

lemma queue_at_append:
  assumes "queue_at h q ns xs" "p \<notin> set ns" "p \<noteq> 0"
    "nodes h' = (if ns = [] then (nodes h)(p := \<lparr>node_data = d, node_next = 0\<rparr>)
       else (nodes h)(p := \<lparr>node_data = d, node_next = 0\<rparr>, last ns := (nodes h (last ns))\<lparr>node_next := p\<rparr>))"
    "front (queues h' q) = (if ns = [] then p else front (queues h q))" "rear (queues h' q) = p"
    "qsize (queues h' q) = qsize (queues h q) + 1"
  shows "queue_at h' q (ns @ [p]) (xs @ [d])"
proof (cases "ns = []")
  case True
  then show ?thesis using assms by (auto simp: queue_at_def)
next
  case False
  then obtain ms l where ms: "ns = ms @ [l]" by (metis rev_exhaust)
  have "distinct ns" using assms(1) by (auto simp: queue_at_def dest: chain_distinct)
  have pl: "p \<noteq> l" "p \<notin> set ms" "l \<notin> set ms" using assms(2) ms \<open>distinct ns\<close> by auto
  have n: "nodes h' = (nodes h)(p := \<lparr>node_data = d, node_next = 0\<rparr>, l := (nodes h l)\<lparr>node_next := p\<rparr>)"
    using assms(4) False ms by simp
  have ch: "chain ((nnext h)(p := 0)) (front (queues h q)) (ms @ [l])"
    using assms(1,2) ms by (simp add: queue_at_def)
  have "chain (((nnext h)(p := 0))(l := p)) (front (queues h q)) (ms @ [l, p])"
    by (rule chain_snoc_upd [OF ch]) (use assms(3) pl in auto)
  moreover have "nnext h' = ((nnext h)(p := 0))(l := p)" using n pl by (auto simp: fun_eq_iff)
  moreover have "map (ndata h') (ms @ [l, p]) = xs @ [d]"
    using assms(1) n pl ms by (auto simp: queue_at_def)
  ultimately show ?thesis using assms(1,5,6,7) False ms by (simp add: queue_at_def)
qed

lemma queue_at_unlink:
  assumes "queue_at h q (us @ c # vs) (map (ndata h) us @ x # ys)"
    "nodes h' = (if us = [] then nodes h else (nodes h)(last us := (nodes h (last us))\<lparr>node_next := nnext h c\<rparr>))"
    "front (queues h' q) = (if us = [] then nnext h c else front (queues h q))"
    "rear (queues h' q) = (if vs = [] then (if us = [] then 0 else last us) else rear (queues h q))"
    "qsize (queues h' q) = qsize (queues h q) - 1"
  shows "queue_at h' q (us @ vs) (map (ndata h) us @ ys)"
proof (cases "us = []")
  case True
  then show ?thesis using assms by (auto simp: queue_at_def)
next
  case False
  then obtain ms l where ms: "us = ms @ [l]" by (metis rev_exhaust)
  have n: "nodes h' = (nodes h)(l := (nodes h l)\<lparr>node_next := nnext h c\<rparr>)"
    using assms(2) False ms by simp
  have d: "ndata h' a = ndata h a" for a by (simp add: n)
  have nx: "nnext h' = (nnext h)(l := nnext h c)" by (auto simp: n fun_eq_iff)
  have "chain ((nnext h)(l := nnext h c)) (front (queues h q)) (ms @ l # vs)"
    by (rule chain_unlink) (use assms(1) ms in \<open>simp add: queue_at_def\<close>)
  then show ?thesis
    using assms(1,3,4,5) False ms unfolding queue_at_def nx d by (cases "vs = []") auto
qed

lemma queue_at_front: "queue_at h q ns xs \<Longrightarrow> front (queues h q) = 0 \<longleftrightarrow> xs = []"
  by (cases ns) (auto simp: queue_at_def)

lemma queue_at_Cons:
  "queue_at h q ns (x # xs) \<Longrightarrow> \<exists>vs. ns = front (queues h q) # vs \<and> ndata h (front (queues h q)) = x"
  by (cases ns) (auto simp: queue_at_def)

lemma contains_walk_eq:
  assumes "chain (nnext h) p ns"
  shows "contains_walk h c key p =
    Some (case find (\<lambda>x. c x key = 0) (map (ndata h) ns) of None \<Rightarrow> 0 | Some x \<Rightarrow> x)"
  using assms
proof (induction ns arbitrary: p)
  case Nil then show ?case by (simp add: contains_walk.simps)
next
  case (Cons n ns) then show ?case by (subst contains_walk.simps) auto
qed

lemma match_walk_none:
  assumes "chain (nnext h) p ns" "\<forall>n \<in> set ns. c (ndata h n) key \<noteq> 0"
  shows "\<exists>prev'. match_walk h c key prev p = Some (prev', 0)"
  using assms
proof (induction ns arbitrary: p prev)
  case Nil then show ?case by (simp add: match_walk.simps)
next
  case (Cons n ns) then show ?case by (subst match_walk.simps) auto
qed

lemma match_walk_found:
  assumes "chain (nnext h) p (us @ a # vs)" "\<forall>n \<in> set us. c (ndata h n) key \<noteq> 0" "c (ndata h a) key = 0"
  shows "match_walk h c key prev p = Some (if us = [] then prev else last us, a)"
  using assms
proof (induction us arbitrary: p prev)
  case Nil then show ?case by (subst match_walk.simps) auto
next
  case (Cons n ns) then show ?case by (subst match_walk.simps) auto
qed

lemma dump_walk_eq:
  assumes "chain (nnext h) p ns"
  shows "\<exists>P. dump_walk h a i p = Some (h\<lparr>ptrs := P\<rparr>) \<and> (\<forall>x < a + sizeof_ptr * i. P x = ptrs h x) \<and>
     (\<forall>j < length ns. P (a + sizeof_ptr * (i + j)) = ndata h (ns ! j))"
  using assms
proof (induction ns arbitrary: h i p)
  case Nil then show ?case by (intro exI [of _ "ptrs h"]) (simp add: dump_walk.simps)
next
  case (Cons n ns)
  let ?h = "h\<lparr>ptrs := (ptrs h)(a + sizeof_ptr * i := ndata h n)\<rparr>"
  have p: "p = n" "n \<noteq> 0" "chain (nnext ?h) (nnext h n) ns" using Cons.prems by auto
  obtain P where P: "dump_walk ?h a (Suc i) (nnext h n) = Some (?h\<lparr>ptrs := P\<rparr>)"
    "\<forall>x < a + sizeof_ptr * Suc i. P x = ptrs ?h x"
    "\<forall>j < length ns. P (a + sizeof_ptr * (Suc i + j)) = ndata ?h (ns ! j)"
    using Cons.IH [OF p(3), of "Suc i"] by blast
  have "dump_walk h a i p = Some (h\<lparr>ptrs := P\<rparr>)" using p P(1) by (subst dump_walk.simps) simp
  moreover have "P (a + sizeof_ptr * (i + j)) = ndata h ((n # ns) ! j)" if "j < length (n # ns)" for j
    using that P(2,3) by (cases j) (auto simp: sizeof_ptr_def)
  moreover have "\<forall>x < a + sizeof_ptr * i. P x = ptrs h x" using P(2) by (auto simp: sizeof_ptr_def)
  ultimately show ?case by blast
qed

section \<open>The operations implement lists, for every allocator\<close>

context allocator
begin

lemma kq_nonzero:
  assumes "kq rep h A X"
  shows "A q = Some xs \<Longrightarrow> q \<noteq> 0" "X x = Some k \<Longrightarrow> x \<noteq> 0" "A q = Some xs \<Longrightarrow> X q = None"
proof -
  obtain L ns where K: "rep (mm h) L" "owns L A X ns" by (rule kqE [OF assms])
  show "A q = Some xs \<Longrightarrow> q \<noteq> 0" using ownsD(1) [OF K(2)] live_nonzero [OF K(1)] by metis
  show "X x = Some k \<Longrightarrow> x \<noteq> 0" using owns_X [OF K(2)] live_nonzero [OF K(1)] by metis
  show "A q = Some xs \<Longrightarrow> X q = None" using ownsD(5) [OF K(2)] .
qed

lemma node_size: "0 < sizeof_Node" "sizeof_Node < 2 ^ 32"
  by (simp_all add: queue_sizes)

lemma enqueue_law:
  assumes "kq rep h A X" "A q = Some xs"
  shows "\<exists>r h'. enqueue ops h q d = Some (r, h') \<and>
     (r = 0 \<and> node_ready ops h \<and> kq rep h' (A(q \<mapsto> xs @ [d])) X \<or> r = -1 \<and> h' = h \<and> \<not> node_ready ops h)"
proof -
  obtain L ns where K: "rep (mm h) L" "owns L A X ns" "\<And>q xs. A q = Some xs \<Longrightarrow> queue_at h q (ns q) xs"
    using assms(1) by (rule kqE) blast
  have q0: "q \<noteq> 0" using kq_nonzero(1) [OF assms] .
  show ?thesis using K(1) node_size
  proof (cases rule: alloc_cases)
    case oom
    then show ?thesis using q0 by (simp add: enqueue_def kalloc_def node_ready_def)
  next
    case (fresh p m' k)
    note Q = K(3) [OF assms(2)]
    have pn: "p \<notin> set (ns q)" "p \<noteq> q" 
      using ownsD(2) [OF K(2) assms(2), of p] ownsD(1) [OF K(2) assms(2)] fresh(3) by auto
    have rr: "rear (queues h q) = 0 \<longleftrightarrow> ns q = []"
    proof (cases "ns q = []")
      case False
      then have "last (ns q) \<in> set (ns q)" by (rule last_in_set)
      moreover have "0 \<notin> set (ns q)" using Q chain_nonzero by (auto simp: queue_at_def)
      ultimately have "last (ns q) \<noteq> 0" by metis
      with Q False show ?thesis by (simp add: queue_at_def)
    qed (use Q in \<open>simp add: queue_at_def\<close>)
    obtain h' where h': "enqueue ops h q d = Some (0, h')" "mm h' = m'"
      "nodes h' = (if ns q = [] then (nodes h)(p := \<lparr>node_data = d, node_next = 0\<rparr>)
        else (nodes h)(p := \<lparr>node_data = d, node_next = 0\<rparr>, last (ns q) := (nodes h (last (ns q)))\<lparr>node_next := p\<rparr>))"
      "\<And>q'. q' \<noteq> q \<Longrightarrow> queues h' q' = queues h q'"
      "front (queues h' q) = (if ns q = [] then p else front (queues h q))" "rear (queues h' q) = p"
      "qsize (queues h' q) = qsize (queues h q) + 1"
    proof (cases "ns q = []")
      case True
      then show thesis using that q0 fresh(1,2) rr
        by (simp add: enqueue_def kalloc_def Let_def)
    next
      case False
      then have "last (ns q) \<noteq> p" "rear (queues h q) = last (ns q)" using pn(1) Q
        by (auto simp: queue_at_def)
      then show thesis using False that q0 fresh(1,2) rr
        by (simp add: enqueue_def kalloc_def Let_def)
    qed
    have "kq rep h' (A(q \<mapsto> xs @ [d])) X"
    proof (rule kq_update [where h = h and ms = "ns q @ [p]", OF _ K(2) assms(2) K(3)])
      show "rep (mm h') (L(p \<mapsto> k))" using fresh(5) h'(2) by simp
      show "queue_at h' q (ns q @ [p]) (xs @ [d])"
        by (rule queue_at_append [OF Q pn(1) fresh(2) h'(3,5-7)])
      fix n assume "n \<notin> set (ns q)" "L n \<noteq> None"
      moreover from this have "ns q \<noteq> [] \<Longrightarrow> n \<noteq> last (ns q)" by auto
      ultimately show "nodes h' n = nodes h n" using fresh(3) by (auto simp: h'(3))
    qed (use fresh(3,4) ownsD(2) [OF K(2) assms(2)] h'(4) in auto)
    moreover have "node_ready ops h" using fresh(1,2) by (auto simp: node_ready_def)
    ultimately show ?thesis using h'(1) by blast
  qed
qed

text \<open>Taking out the cell \<open>c\<close>: the part that \<^verbatim>\<open>dequeue\<close> and \<^verbatim>\<open>remove\<close> share.\<close>

lemma unlink_law:
  assumes K: "rep (mm h) L" "owns L A X ns" "\<And>q xs. A q = Some xs \<Longrightarrow> queue_at h q (ns q) xs"
    and q: "A q = Some (map (ndata h) us @ x # ys)" "ns q = us @ c # vs"
    and h1: "mm h1 = mm h"
    and h2: "\<And>m. kfree ops h1 c = Some (h1\<lparr>mm := m\<rparr>) \<Longrightarrow> mm (h2 m) = m \<and>
       nodes (h2 m) = (if us = [] then nodes h else (nodes h)(last us := (nodes h (last us))\<lparr>node_next := nnext h c\<rparr>)) \<and>
       (\<forall>q'. q' \<noteq> q \<longrightarrow> queues (h2 m) q' = queues h q') \<and>
       front (queues (h2 m) q) = (if us = [] then nnext h c else front (queues h q)) \<and>
       rear (queues (h2 m) q) = (if vs = [] then (if us = [] then 0 else last us) else rear (queues h q)) \<and>
       qsize (queues (h2 m) q) = qsize (queues h q) - 1"
  shows "\<exists>m. kfree ops h1 c = Some (h1\<lparr>mm := m\<rparr>) \<and> kq rep (h2 m) (A(q \<mapsto> map (ndata h) us @ ys)) X \<and>
     node_ready ops (h2 m)"
proof -
  note O = ownsD [OF K(2) q(1)]
  have c: "c \<in> set (ns q)" using q(2) by simp
  then obtain k where k: "L c = Some k" "sizeof_Node \<le> k" using O(2) by blast
  obtain m where m: "mm_free ops (mm h) c = Some m" "rep m (L(c := None))"
    "\<exists>p m''. mm_alloc ops m sizeof_Node = Some (p, m'') \<and> p \<noteq> 0"
    using free_law [OF K(1) k(1)] k(2) node_size by blast
  have f: "kfree ops h1 c = Some (h1\<lparr>mm := m\<rparr>)" using m(1) h1 by (simp add: kfree_def)
  note H = h2 [OF f]
  have dist: "distinct (us @ c # vs)" 
    by (rule chain_distinct [of "nnext h" "front (queues h q)"])
      (use K(3) [OF q(1)] q(2) in \<open>simp add: queue_at_def\<close>)
  have "kq rep (h2 m) (A(q \<mapsto> map (ndata h) us @ ys)) X"
  proof (rule kq_update [where h = h and ms = "us @ vs", OF _ K(2) q(1) K(3)])
    show "rep (mm (h2 m)) (L(c := None))" using m(2) H by simp
    show "queue_at (h2 m) q (us @ vs) (map (ndata h) us @ ys)"
      by (rule queue_at_unlink [where h = h and c = c and x = x])
        (use K(3) [OF q(1)] H in \<open>simp_all add: q(2)\<close>)
    fix n assume "n \<notin> set (ns q)"
    then show "nodes (h2 m) n = nodes h n" using H q(2) by (cases "us = []") auto
  qed (use c H q(2) dist O(2) in auto)
  then show ?thesis using f m(3) H by (auto simp: node_ready_def)
qed

lemma dequeue_empty:
  assumes "kq rep h A X" "A q = Some []"
  shows "dequeue ops h q = Some (0, h)"
proof -
  obtain ns where "queue_at h q ns []" using kq_queue [OF assms] ..
  then show ?thesis by (simp add: dequeue_def queue_at_front)
qed

lemma dequeue_law:
  assumes "kq rep h A X" "A q = Some (x # xs)"
  shows "\<exists>h'. dequeue ops h q = Some (x, h') \<and> kq rep h' (A(q \<mapsto> xs)) X \<and> node_ready ops h'"
proof -
  obtain L ns where K: "rep (mm h) L" "owns L A X ns" "\<And>q xs. A q = Some xs \<Longrightarrow> queue_at h q (ns q) xs"
    using assms(1) by (rule kqE) blast
  have q0: "q \<noteq> 0" using kq_nonzero(1) [OF assms] .
  note Q = K(3) [OF assms(2)]
  obtain c vs where c: "front (queues h q) = c" "ns q = c # vs" "ndata h c = x" "c \<noteq> 0"
    using queue_at_Cons [OF Q] queue_at_front [OF Q] by auto
  have vs: "nnext h c = 0 \<longleftrightarrow> vs = []" using Q c(2) by (cases vs) (auto simp: queue_at_def)
  let ?Q = "(queues h q)\<lparr>front := nnext h c\<rparr>"
  let ?Q2 = "if nnext h c = 0 then ?Q\<lparr>rear := 0\<rparr> else ?Q"
  let ?h1 = "h\<lparr>queues := (queues h)(q := ?Q2)\<rparr>"
  let ?h2 = "\<lambda>m. ?h1\<lparr>mm := m, queues := (queues h)(q := ?Q2\<lparr>qsize := qsize (queues h q) - 1\<rparr>)\<rparr>"
  have "\<exists>m. kfree ops ?h1 c = Some (?h1\<lparr>mm := m\<rparr>) \<and> kq rep (?h2 m) (A(q \<mapsto> map (ndata h) [] @ xs)) X \<and>
     node_ready ops (?h2 m)"
    by (rule unlink_law [OF K, where x = x and vs = vs]) (use assms(2) c vs in auto)
  then obtain m where m: "kfree ops ?h1 c = Some (?h1\<lparr>mm := m\<rparr>)" "kq rep (?h2 m) (A(q \<mapsto> xs)) X"
    "node_ready ops (?h2 m)" by auto
  have "dequeue ops h q = Some (x, ?h2 m)"
    using q0 c m(1) by (cases "nnext h c = 0") (simp_all add: dequeue_def Let_def)
  then show ?thesis using m(2,3) by auto
qed

lemma remove_none:
  assumes "kq rep h A X" "A q = Some xs" "find (\<lambda>x. c x key = 0) xs = None"
  shows "remove_q ops h q key (Some c) = Some (0, h)"
proof -
  obtain ns where Q: "queue_at h q ns xs" using kq_queue [OF assms(1,2)] ..
  have n: "\<forall>n \<in> set ns. c (ndata h n) key \<noteq> 0"
    using Q find_None_all [OF assms(3)] by (auto simp: queue_at_def)
  have "chain (nnext h) (front (queues h q)) ns" using Q by (simp add: queue_at_def)
  from match_walk_none [where h = h and c = c and key = key, OF this n, of 0] obtain p where
    "match_walk h c key 0 (front (queues h q)) = Some (p, 0)" ..
  then show ?thesis by (simp add: remove_q_def)
qed

lemma remove_law:
  assumes "kq rep h A X" "A q = Some xs" "find (\<lambda>x. c x key = 0) xs = Some x"
  shows "\<exists>h'. remove_q ops h q key (Some c) = Some (x, h') \<and>
     kq rep h' (A(q \<mapsto> remove_first (\<lambda>x. c x key = 0) xs)) X \<and> node_ready ops h'"
proof -
  obtain L ns where K: "rep (mm h) L" "owns L A X ns" "\<And>q xs. A q = Some xs \<Longrightarrow> queue_at h q (ns q) xs"
    using assms(1) by (rule kqE) blast
  have q0: "q \<noteq> 0" using kq_nonzero(1) [OF assms(1,2)] .
  note Q = K(3) [OF assms(2)]
  obtain xs1 xs2 where X: "xs = xs1 @ x # xs2" "c x key = 0" "\<forall>u \<in> set xs1. c u key \<noteq> 0"
    "remove_first (\<lambda>x. c x key = 0) xs = xs1 @ xs2" using assms(3) by (rule find_split) blast
  obtain us a vs where U: "ns q = us @ a # vs" "xs1 = map (ndata h) us" "x = ndata h a" "xs2 = map (ndata h) vs"
    using Q X(1) by (auto simp: queue_at_def map_eq_append_conv map_eq_Cons_conv)
  have ch: "chain (nnext h) (front (queues h q)) (us @ a # vs)" using Q U(1) by (simp add: queue_at_def)
  have "0 \<notin> set (us @ a # vs)" using ch by (rule chain_nonzero)
  then have a0: "a \<noteq> 0" "last us \<noteq> 0 \<or> us = []"
    by (simp, metis UnCI last_in_set set_append)
  have dist: "distinct (us @ a # vs)" using ch by (rule chain_distinct)
  have w: "match_walk h c key 0 (front (queues h q)) = Some (if us = [] then 0 else last us, a)"
    by (rule match_walk_found [OF ch]) (use X(2,3) U in auto)
  have rear: "rear (queues h q) = (if vs = [] then a else last vs)" using Q U(1) by (simp add: queue_at_def)
  have ar: "a = rear (queues h q) \<longleftrightarrow> vs = []" using rear dist by (auto dest: last_in_set)
  let ?h1 = "if us = [] then h\<lparr>queues := (queues h)(q := (queues h q)\<lparr>front := nnext h a\<rparr>)\<rparr>
     else h\<lparr>nodes := (nodes h)(last us := (nodes h (last us))\<lparr>node_next := nnext h a\<rparr>)\<rparr>"
  let ?h2 = "if vs = [] then ?h1\<lparr>queues := (queues ?h1)(q := (queues ?h1 q)\<lparr>rear := (if us = [] then 0 else last us)\<rparr>)\<rparr> else ?h1"
  let ?h3 = "\<lambda>m. ?h2\<lparr>mm := m, queues := (queues ?h2)(q := (queues ?h2 q)\<lparr>qsize := qsize (queues ?h2 q) - 1\<rparr>)\<rparr>"
  have "\<exists>m. kfree ops ?h2 a = Some (?h2\<lparr>mm := m\<rparr>) \<and> kq rep (?h3 m) (A(q \<mapsto> map (ndata h) us @ xs2)) X \<and>
     node_ready ops (?h3 m)"
    by (rule unlink_law [OF K, where x = x and vs = vs]) (use assms(2) X(1) U in auto)
  then obtain m where m: "kfree ops ?h2 a = Some (?h2\<lparr>mm := m\<rparr>)" "kq rep (?h3 m) (A(q \<mapsto> xs1 @ xs2)) X"
    "node_ready ops (?h3 m)" using U(2) by blast
  have "remove_q ops h q key (Some c) = Some (x, ?h3 m)"
    using q0 w a0 ar m(1) U(3) unfolding remove_q_def Let_def
    by (cases "us = []"; cases "vs = []") simp_all
  then show ?thesis using m(2,3) X(4) by auto
qed

lemma contains_law:
  assumes "kq rep h A X" "A q = Some xs"
  shows "containsQueue h q key (Some c) =
     Some (case find (\<lambda>x. c x key = 0) xs of None \<Rightarrow> 0 | Some x \<Rightarrow> x)"
proof -
  obtain ns where Q: "queue_at h q ns xs" using kq_queue [OF assms] ..
  then have "chain (nnext h) (front (queues h q)) ns" "map (ndata h) ns = xs" by (auto simp: queue_at_def)
  from contains_walk_eq [OF this(1), of c key] this(2) kq_nonzero(1) [OF assms]
  show ?thesis by (simp add: containsQueue_def)
qed

lemma size_law:
  assumes "kq rep h A X" "A q = Some xs"
  shows "queueSize h q = int (length xs)" "isQueueEmpty h q \<longleftrightarrow> xs = []"
    "peekQueue h q = (if xs = [] then 0 else hd xs)"
proof -
  obtain ns where Q: "queue_at h q ns xs" using kq_queue [OF assms] ..
  with kq_nonzero(1) [OF assms] show "queueSize h q = int (length xs)" "isQueueEmpty h q \<longleftrightarrow> xs = []"
    by (auto simp: queueSize_def isQueueEmpty_def queue_at_def)
  show "peekQueue h q = (if xs = [] then 0 else hd xs)"
    using Q queue_at_front [OF Q] queue_at_Cons [of h q ns "hd xs" "tl xs"] kq_nonzero(1) [OF assms]
    by (auto simp: peekQueue_def)
qed

text \<open>Other allocations of the kernel: the heap grows and shrinks around the queues.\<close>

lemma kalloc_law:
  assumes "kq rep h A X" "0 < n" "n < 2 ^ 32"
  obtains (oom) "kalloc ops h n = Some (0, h)"
  | (fresh) p h' where "kalloc ops h n = Some (p, h')" "p \<noteq> 0" "X p = None" "A p = None"
      "nodes h' = nodes h" "queues h' = queues h" "ptrs h' = ptrs h" "kq rep h' A (X(p \<mapsto> n))"
proof -
  obtain L ns where K: "rep (mm h) L" "owns L A X ns" "\<And>q xs. A q = Some xs \<Longrightarrow> queue_at h q (ns q) xs"
    using assms(1) by (rule kqE) blast
  show thesis using K(1) assms(2,3)
  proof (cases rule: alloc_cases)
    case oom
    then show ?thesis using that(1) by (simp add: kalloc_def)
  next
    case (fresh p m' k)
    let ?h = "h\<lparr>mm := m'\<rparr>"
    have A: "A p = None" using fresh(3) ownsD(1) [OF K(2), of p] by (cases "A p") auto
    have N: "p \<notin> set (ns q)" if "A q = Some xs" for q xs
      using fresh(3) ownsD(2) [OF K(2) that, of p] by auto
    have X: "X p = None" using fresh(3) owns_X [OF K(2), of p] by (cases "X p") auto
    have "owns (L(p \<mapsto> k)) A (X(p \<mapsto> n)) ns"
      using K(2) A N fresh(4) unfolding owns_def by (auto simp: domIff)
    then have "kq rep ?h A (X(p \<mapsto> n))"
      by (rule kqI [where rep = rep and h = ?h, rotated]) (use fresh(5) K(3) in \<open>simp_all add: queue_at_def\<close>)
    then show ?thesis using that(2) [of p ?h] fresh(1,2) A X by (simp add: kalloc_def)
  qed
qed

lemma kfree_law:
  assumes "kq rep h A X" "X p = Some n"
  shows "\<exists>h'. kfree ops h p = Some h' \<and> nodes h' = nodes h \<and> queues h' = queues h \<and> ptrs h' = ptrs h \<and>
     kq rep h' A (X(p := None)) \<and> (sizeof_Node \<le> n \<longrightarrow> node_ready ops h')"
proof -
  obtain L ns where K: "rep (mm h) L" "owns L A X ns" "\<And>q xs. A q = Some xs \<Longrightarrow> queue_at h q (ns q) xs"
    using assms(1) by (rule kqE) blast
  obtain k where k: "L p = Some k" "n \<le> k" using owns_X [OF K(2) assms(2)] by blast
  from free_law [OF K(1) k(1)] obtain m where m: "mm_free ops (mm h) p = Some m" "rep m (L(p := None))"
    "\<And>n. 0 < n \<Longrightarrow> n \<le> k \<Longrightarrow> n < 2 ^ 32 \<Longrightarrow> \<exists>q m''. mm_alloc ops m n = Some (q, m'') \<and> q \<noteq> 0" by blast
  let ?h = "h\<lparr>mm := m\<rparr>"
  have A: "A p = None" using ownsD(5) [OF K(2), of p] assms(2) by (cases "A p") auto
  have N: "p \<notin> set (ns q)" if "A q = Some xs" for q xs
    using ownsD(4) [OF K(2) that] assms(2) by auto
  have "owns (L(p := None)) A (X(p := None)) ns"
    using K(2) A N unfolding owns_def by (auto simp: domIff) blast+
  then have "kq rep ?h A (X(p := None))"
    by (rule kqI [where rep = rep and h = ?h, rotated]) (use m(2) K(3) in \<open>simp_all add: queue_at_def\<close>)
  moreover have "node_ready ops ?h" if "sizeof_Node \<le> n"
    using m(3) [OF node_size(1) _ node_size(2)] that k(2) by (simp add: node_ready_def)
  ultimately show ?thesis using m(1) by (simp add: kfree_def)
qed

text \<open>Creation, clearing and release of a whole queue.\<close>

lemma free_nodes_law:
  assumes "rep (mm h) L" "chain (nnext h) p ns" "\<And>n. n \<in> set ns \<Longrightarrow> L n \<noteq> None"
  shows "\<exists>m. free_nodes ops h p = Some (h\<lparr>mm := m\<rparr>) \<and> rep m (L |` (- set ns))"
  using assms
proof (induction ns arbitrary: h L p)
  case Nil
  then show ?case by (intro exI [of _ "mm h"]) (simp add: free_nodes.simps)
next
  case (Cons n ns)
  then have p: "p = n" "n \<noteq> 0" "chain (nnext h) (nnext h n) ns" by auto
  obtain k where k: "L n = Some k" using Cons.prems(3) [of n] by auto
  obtain m where m: "mm_free ops (mm h) n = Some m" "rep m (L(n := None))"
    using free_law [OF Cons.prems(1) k] by blast
  let ?h = "h\<lparr>mm := m\<rparr>"
  have "n \<notin> set ns" using chain_distinct [OF Cons.prems(2)] by simp
  then have l: "(L(n := None)) a \<noteq> None" if "a \<in> set ns" for a using that Cons.prems(3) [of a] by auto
  have "rep (mm ?h) (L(n := None))" "chain (nnext ?h) (nnext h n) ns" using m(2) p(3) by simp_all
  from Cons.IH [OF this l] obtain m' where m': "free_nodes ops ?h (nnext h n) = Some (?h\<lparr>mm := m'\<rparr>)"
    "rep m' ((L(n := None)) |` (- set ns))" by blast
  have "(L(n := None)) |` (- set ns) = L |` (- set (n # ns))" by (auto simp: restrict_map_def fun_eq_iff)
  then show ?case using m m' p by (subst free_nodes.simps) (auto simp: kfree_def)
qed

lemma clear_nodes:
  assumes "kq rep h A X" "A q = Some xs"
  obtains L ns m where "free_nodes ops h (front (queues h q)) = Some (h\<lparr>mm := m\<rparr>)" "rep m L" "ns q = []"
    "owns L (A(q \<mapsto> [])) X ns" "\<And>q' ys. q' \<noteq> q \<Longrightarrow> A q' = Some ys \<Longrightarrow> queue_at h q' (ns q') ys"
proof -
  obtain L ns where K: "rep (mm h) L" "owns L A X ns" "\<And>q xs. A q = Some xs \<Longrightarrow> queue_at h q (ns q) xs"
    using assms(1) by (rule kqE) blast
  note Q = K(3) [OF assms(2)] and O = ownsD [OF K(2) assms(2)]
  have ch: "chain (nnext h) (front (queues h q)) (ns q)" using Q by (simp add: queue_at_def)
  obtain m where m: "free_nodes ops h (front (queues h q)) = Some (h\<lparr>mm := m\<rparr>)" "rep m (L |` (- set (ns q)))"
    using free_nodes_law [OF K(1) ch] O(2) by fastforce
  have d: "dom (A(q \<mapsto> [])) = dom A" using assms(2) by auto
  have e: "a \<notin> set (ns q) \<Longrightarrow> (L |` (- set (ns q))) a = L a" for a by simp
  have O': "owns (L |` (- set (ns q))) (A(q \<mapsto> [])) X (ns(q := []))"
    unfolding owns_def d
  proof (intro conjI ballI allI impI)
    fix q' assume q': "q' \<in> dom A"
    then show "\<exists>k \<ge> sizeof_Queue. (L |` (- set (ns q))) q' = Some k"
      using O(4) ownsD(1) [OF K(2)] by (subst e) auto
    fix n assume "n \<in> set ((ns(q := [])) q')"
    then have "q' \<noteq> q" "n \<in> set (ns q')" by (auto split: if_splits)
    then show "\<exists>k \<ge> sizeof_Node. (L |` (- set (ns q))) n = Some k"
      using q' O(3) [OF q'] ownsD(2) [OF K(2), of q'] by (subst e) auto
  next
    fix x k assume "X x = Some k"
    then show "\<exists>l \<ge> k. (L |` (- set (ns q))) x = Some l"
      using O(4) owns_X [OF K(2)] by (subst e) auto
  qed (use K(2) in \<open>auto simp: owns_def\<close>)
  show thesis by (rule that [OF m _ O']) (use K(3) in auto)
qed

lemma createQueue_law:
  assumes "kq rep h A X"
  obtains (oom) "createQueue ops h = Some (0, h)"
  | (fresh) q h' where "createQueue ops h = Some (q, h')" "q \<noteq> 0" "A q = None" "X q = None"
      "kq rep h' (A(q \<mapsto> [])) X"
proof -
  have n: "0 < sizeof_Queue" "sizeof_Queue < 2 ^ 32" by (simp_all add: queue_sizes)
  show thesis using assms n
  proof (cases rule: kalloc_law)
    case oom
    then show ?thesis using that(1) by (simp add: createQueue_def)
  next
    case (fresh q h1)
    let ?h = "h1\<lparr>queues := (queues h1)(q := \<lparr>front = 0, rear = 0, qsize = 0\<rparr>)\<rparr>"
    obtain L ns where K: "rep (mm h1) L" "owns L A (X(q \<mapsto> sizeof_Queue)) ns"
      "\<And>q' xs. A q' = Some xs \<Longrightarrow> queue_at h1 q' (ns q') xs"
      using fresh(8) by (rule kqE) blast
    have O: "owns L (A(q \<mapsto> [])) X (ns(q := []))" by (rule owns_take [OF K(2) fresh(3,4)])
    have qa: "queue_at ?h q' (ns q') ys" if "q' \<noteq> q" "A q' = Some ys" for q' ys
      using K(3) [OF that(2)] that(1) queue_at_cong [of ?h q' h1 "ns q'" ys] by simp
    have qb: "queue_at ?h q' ((ns(q := [])) q') ys" if "(A(q \<mapsto> [])) q' = Some ys" for q' ys
      using that qa [of q' ys] by (cases "q' = q") (auto simp: queue_at_def)
    have "rep (mm ?h) L" using K(1) by simp
    then have "kq rep ?h (A(q \<mapsto> [])) X" by (rule kqI [where rep = rep and h = ?h, OF _ O qb])
    then show ?thesis using that(2) [of q ?h] fresh by (simp add: createQueue_def)
  qed
qed

lemma clearQueue_law:
  assumes "kq rep h A X" "A q = Some xs"
  shows "\<exists>h'. clearQueue ops h q = Some h' \<and> kq rep h' (A(q \<mapsto> [])) X"
proof -
  obtain L ns m where C: "free_nodes ops h (front (queues h q)) = Some (h\<lparr>mm := m\<rparr>)" "rep m L" "ns q = []"
    "owns L (A(q \<mapsto> [])) X ns" "\<And>q' ys. q' \<noteq> q \<Longrightarrow> A q' = Some ys \<Longrightarrow> queue_at h q' (ns q') ys"
    using assms by (rule clear_nodes) blast
  let ?h = "h\<lparr>mm := m, queues := (queues h)(q := \<lparr>front = 0, rear = 0, qsize = 0\<rparr>)\<rparr>"
  have qa: "queue_at ?h q' (ns q') ys" if "q' \<noteq> q" "A q' = Some ys" for q' ys
    using C(5) [OF that] that(1) queue_at_cong [of ?h q' h "ns q'" ys] by simp
  have qb: "queue_at ?h q' (ns q') ys" if "(A(q \<mapsto> [])) q' = Some ys" for q' ys
    using that qa [of q' ys] C(3) by (cases "q' = q") (auto simp: queue_at_def)
  have "rep (mm ?h) L" using C(2) by simp
  then have "kq rep ?h (A(q \<mapsto> [])) X" by (rule kqI [where rep = rep and h = ?h, OF _ C(4) qb])
  then show ?thesis using C(1) kq_nonzero(1) [OF assms] by (simp add: clearQueue_def)
qed

lemma freeQueue_law:
  assumes "kq rep h A X" "A q = Some xs"
  shows "\<exists>h'. freeQueue ops h q = Some h' \<and> kq rep h' (A(q := None)) X \<and> node_ready ops h'"
proof -
  obtain L ns m where C: "free_nodes ops h (front (queues h q)) = Some (h\<lparr>mm := m\<rparr>)" "rep m L" "ns q = []"
    "owns L (A(q \<mapsto> [])) X ns" "\<And>q' ys. q' \<noteq> q \<Longrightarrow> A q' = Some ys \<Longrightarrow> queue_at h q' (ns q') ys"
    using assms by (rule clear_nodes) blast
  have X: "X q = None" using kq_nonzero(3) [OF assms] .
  let ?h = "h\<lparr>mm := m\<rparr>"
  have O: "owns L (A(q := None)) (X(q \<mapsto> sizeof_Queue)) ns" by (rule owns_give [OF C(4,3) X])
  have qb: "queue_at ?h q' (ns q') ys" if "(A(q := None)) q' = Some ys" for q' ys
    using that C(5) [of q' ys] queue_at_cong [of ?h q' h "ns q'" ys] by (cases "q' = q") auto
  have "rep (mm ?h) L" using C(2) by simp
  then have "kq rep ?h (A(q := None)) (X(q \<mapsto> sizeof_Queue))"
    by (rule kqI [where rep = rep and h = ?h, OF _ O qb])
  from kfree_law [OF this, of q sizeof_Queue] X C(1) kq_nonzero(1) [OF assms] show ?thesis
    by (auto simp: freeQueue_def queue_sizes fun_upd_idem)
qed

lemma dumpQueue_law:
  assumes "kq rep h A X" "A q = Some xs" "xs \<noteq> []" "sizeof_ptr * length xs < 2 ^ 32"
  shows "dumpQueue ops h q = Some (0, h) \<or>
    (\<exists>p h'. dumpQueue ops h q = Some (p, h') \<and> p \<noteq> 0 \<and> X p = None \<and> A p = None \<and>
       kq rep h' A (X(p \<mapsto> sizeof_ptr * length xs)) \<and>
       (\<forall>i < length xs. ptrs h' (p + sizeof_ptr * i) = xs ! i))"
proof -
  obtain ns where Q: "queue_at h q ns xs" using kq_queue [OF assms(1,2)] ..
  have "(int sizeof_ptr * int (length xs)) mod 2 ^ 64 = int sizeof_ptr * int (length xs)"
    using assms(4) by (intro mod_pos_pos_trivial) (auto simp: sizeof_ptr_def)
  then have n: "nat ((int sizeof_ptr * qsize (queues h q)) mod 2 ^ 64) = sizeof_ptr * length xs"
    using Q by (simp add: queue_at_def nat_mult_distrib)
  have ne: "q \<noteq> 0" "qsize (queues h q) \<noteq> 0"
    using kq_nonzero(1) [OF assms(1,2)] Q assms(3) by (auto simp: queue_at_def)
  have pos: "0 < sizeof_ptr * length xs" using assms(3) by (simp add: sizeof_ptr_def)
  show ?thesis using assms(1) pos assms(4)
  proof (cases rule: kalloc_law)
    case oom
    then show ?thesis using ne n by (simp add: dumpQueue_def)
  next
    case (fresh p h1)
    have "chain (nnext h1) (front (queues h1 q)) ns" using Q fresh(5,6) by (simp add: queue_at_def)
    from dump_walk_eq [OF this, of p 0] obtain P where
      P: "dump_walk h1 p 0 (front (queues h1 q)) = Some (h1\<lparr>ptrs := P\<rparr>)"
      "\<forall>j < length ns. P (p + sizeof_ptr * j) = ndata h1 (ns ! j)" by auto
    have "kq rep (h1\<lparr>ptrs := P\<rparr>) A (X(p \<mapsto> sizeof_ptr * length xs))"
      using fresh(8) by (simp add: kq_def queue_at_def)
    moreover have "\<forall>i < length xs. P (p + sizeof_ptr * i) = xs ! i"
      using P(2) Q fresh(5) by (auto simp: queue_at_def)
    ultimately show ?thesis using fresh(1-4) P(1) ne n by (simp add: dumpQueue_def)
  qed
qed

end

section \<open>The interface to the clients\<close>

text \<open>
  \<open>absq h A X\<close>: in the heap \<open>h\<close> the queues \<open>A\<close> hold the given lists, and the kernel owns the
  further allocations \<open>X\<close>.  Keys are pids.  \<open>ready h\<close>: the next \<^verbatim>\<open>enqueue\<close> finds memory.
\<close>

locale queue_adt =
  fixes enq :: "'h \<Rightarrow> addr \<Rightarrow> addr \<Rightarrow> (int \<times> 'h) option"
    and deq :: "'h \<Rightarrow> addr \<Rightarrow> (addr \<times> 'h) option"
    and rem :: "'h \<Rightarrow> addr \<Rightarrow> int \<Rightarrow> (addr \<Rightarrow> int \<Rightarrow> int) option \<Rightarrow> (addr \<times> 'h) option"
    and ready :: "'h \<Rightarrow> bool"
    and absq :: "'h \<Rightarrow> (addr \<rightharpoonup> addr list) \<Rightarrow> (addr \<rightharpoonup> nat) \<Rightarrow> bool"
  assumes enq_law: "absq h A X \<Longrightarrow> A q = Some xs \<Longrightarrow> \<exists>r h'. enq h q d = Some (r, h') \<and>
      (r = 0 \<and> ready h \<and> absq h' (A(q \<mapsto> xs @ [d])) X \<or> r = -1 \<and> h' = h \<and> \<not> ready h)"
    and deq_law: "absq h A X \<Longrightarrow> A q = Some (x # xs) \<Longrightarrow>
      \<exists>h'. deq h q = Some (x, h') \<and> absq h' (A(q \<mapsto> xs)) X \<and> ready h'"
    and rem_law: "absq h A X \<Longrightarrow> A q = Some xs \<Longrightarrow> find (\<lambda>x. c x key = 0) xs = Some x \<Longrightarrow>
      \<exists>h'. rem h q key (Some c) = Some (x, h') \<and>
        absq h' (A(q \<mapsto> remove_first (\<lambda>x. c x key = 0) xs)) X \<and> ready h'"
begin

lemma enq_ready:
  "absq h A X \<Longrightarrow> A q = Some xs \<Longrightarrow> ready h \<Longrightarrow>
   \<exists>h'. enq h q d = Some (0, h') \<and> absq h' (A(q \<mapsto> xs @ [d])) X"
  using enq_law by blast

text \<open>Taking the head and appending it again never fails.\<close>

lemma rotate:
  assumes "absq h A X" "A q = Some (x # xs)"
  obtains h1 h2 where "deq h q = Some (x, h1)" "enq h1 q x = Some (0, h2)" "absq h2 (A(q \<mapsto> xs @ [x])) X"
proof -
  obtain h1 where h1: "deq h q = Some (x, h1)" "absq h1 (A(q \<mapsto> xs)) X" "ready h1"
    using deq_law [OF assms] by blast
  from enq_ready [OF h1(2) _ h1(3), of q xs x] h1(1) that show thesis by auto
qed

text \<open>Moving an element to another queue never fails and loses nothing.\<close>

lemma switch:
  assumes "absq h A X" "A q1 = Some xs" "A q2 = Some ys" "q1 \<noteq> q2" "find (\<lambda>x. c x key = 0) xs = Some x"
  obtains h1 h2 where "rem h q1 key (Some c) = Some (x, h1)" "enq h1 q2 x = Some (0, h2)"
    "absq h2 (A(q1 \<mapsto> remove_first (\<lambda>x. c x key = 0) xs, q2 \<mapsto> ys @ [x])) X"
proof -
  obtain h1 where h1: "rem h q1 key (Some c) = Some (x, h1)"
    "absq h1 (A(q1 \<mapsto> remove_first (\<lambda>x. c x key = 0) xs)) X" "ready h1"
    using rem_law [where c = c and key = key, OF assms(1,2,5)] by blast
  have "(A(q1 \<mapsto> remove_first (\<lambda>x. c x key = 0) xs)) q2 = Some ys" using assms(3,4) by simp
  from enq_ready [OF h1(2) this h1(3), of x] h1(1) that show thesis by blast
qed

end

sublocale allocator \<subseteq> qs: queue_adt "enqueue ops" "dequeue ops" "remove_q ops" "node_ready ops" "kq rep"
  by unfold_locales (blast intro: enqueue_law dequeue_law remove_law)+

end
