(* ===== verification/Process_Manager.thy ===== *)
theory Process_Manager
  imports Queue_ADT
begin

text \<open>
  The process manager, \<^verbatim>\<open>Kernel/processes/process.c\<close>: four queues of process control blocks
  (ready, blocked, blocked by a semaphore, zombie) and pointers to the current, the idle and
  the foreground process.

  The structures \<^verbatim>\<open>PCB\<close> and \<^verbatim>\<open>ProcessManagerCDT\<close> live in typed stores beside the heap of the
  queues.  The lemmas show that the queues are moved as lists, that no process is lost or
  duplicated (also when the memory is exhausted), and that the ready queue is served
  round robin.
\<close>

section \<open>State\<close>

text \<open>\<open>Raw n\<close>: a value of the enumeration's type that is none of its constants.\<close>

datatype State = READY | RUNNING | BLOCKED | ZOMBIE | EXITED | KILLED | SEM_WAITING | Raw nat

fun state_num :: "State \<Rightarrow> nat" where
  "state_num READY = 0" | "state_num RUNNING = 1" | "state_num BLOCKED = 2" | "state_num ZOMBIE = 3"
| "state_num EXITED = 4" | "state_num KILLED = 5" | "state_num SEM_WAITING = 6" | "state_num (Raw n) = n"

definition num_state :: "nat \<Rightarrow> State" where
  "num_state n = (let v = u32 n in if v < 7
     then [READY, RUNNING, BLOCKED, ZOMBIE, EXITED, KILLED, SEM_WAITING] ! v else Raw v)"

definition NAME_MAX_LENGTH :: nat where "NAME_MAX_LENGTH = 32"

record PCB =
  pid :: int
  parentPid :: int
  waitingForPid :: int
  priority :: int
  state :: State
  rsp :: nat
  base :: nat
  entryPoint :: nat
  retValue :: nat
  foreground :: int
  stdin :: int
  stdout :: int
  children_sem :: int
  children_count :: int
  name :: string

record ProcessManagerCDT =
  foregroundProcess :: addr
  currentProcess :: addr
  readyQueue :: addr
  blockedQueue :: addr
  blockedQueueBySem :: addr
  zombieQueue :: addr
  idleProcess :: addr
  lock :: nat

record 'm pheap =
  qh :: "'m qheap"
  pcbs :: "addr \<Rightarrow> PCB"
  pms :: "addr \<Rightarrow> ProcessManagerCDT"

definition sizeof_PCB :: nat where "sizeof_PCB = 112"
definition sizeof_PM :: nat where "sizeof_PM = 64"

text \<open>Calls of the queue and of the memory manager.\<close>

definition lift_q :: "('m qheap \<Rightarrow> ('a \<times> 'm qheap) option) \<Rightarrow> 'm pheap \<Rightarrow> ('a \<times> 'm pheap) option" where
  "lift_q f k = do { (r, h) \<leftarrow> f (qh k); Some (r, k\<lparr>qh := h\<rparr>) }"

definition lift_v :: "('m qheap \<Rightarrow> 'm qheap option) \<Rightarrow> 'm pheap \<Rightarrow> 'm pheap option" where
  "lift_v f k = do { h \<leftarrow> f (qh k); Some (k\<lparr>qh := h\<rparr>) }"

abbreviation set_pm :: "'m pheap \<Rightarrow> addr \<Rightarrow> ProcessManagerCDT \<Rightarrow> 'm pheap" where
  "set_pm k a v \<equiv> k\<lparr>pms := (pms k)(a := v)\<rparr>"

abbreviation set_pcb :: "'m pheap \<Rightarrow> addr \<Rightarrow> PCB \<Rightarrow> 'm pheap" where
  "set_pcb k a v \<equiv> k\<lparr>pcbs := (pcbs k)(a := v)\<rparr>"

section \<open>Operations\<close>

definition createProcessManager :: "'m mm_ops \<Rightarrow> 'm pheap \<Rightarrow> (addr \<times> 'm pheap) option" where
  "createProcessManager ops k = do {
     (pm, k) \<leftarrow> lift_q (\<lambda>h. kalloc ops h sizeof_PM) k;
     if pm = 0 then Some (0, k) else do {
       let k = set_pm k pm ((pms k pm)\<lparr>foregroundProcess := 0, currentProcess := 0, lock := 0\<rparr>);
       (q, k) \<leftarrow> lift_q (createQueue ops) k;
       let k = set_pm k pm ((pms k pm)\<lparr>readyQueue := q\<rparr>);
       if q = 0 then do { k \<leftarrow> lift_v (\<lambda>h. kfree ops h pm) k; Some (0, k) } else do {
         (q, k) \<leftarrow> lift_q (createQueue ops) k;
         let k = set_pm k pm ((pms k pm)\<lparr>blockedQueue := q\<rparr>);
         if q = 0 then do {
           k \<leftarrow> lift_v (\<lambda>h. freeQueue ops h (readyQueue (pms k pm))) k;
           k \<leftarrow> lift_v (\<lambda>h. kfree ops h pm) k;
           Some (0, k)
         } else do {
           (q, k) \<leftarrow> lift_q (createQueue ops) k;
           let k = set_pm k pm ((pms k pm)\<lparr>blockedQueueBySem := q\<rparr>);
           if q = 0 then do {
             k \<leftarrow> lift_v (\<lambda>h. freeQueue ops h (readyQueue (pms k pm))) k;
             k \<leftarrow> lift_v (\<lambda>h. freeQueue ops h (blockedQueue (pms k pm))) k;
             k \<leftarrow> lift_v (\<lambda>h. kfree ops h pm) k;
             Some (0, k)
           } else do {
             (q, k) \<leftarrow> lift_q (createQueue ops) k;
             let k = set_pm k pm ((pms k pm)\<lparr>zombieQueue := q\<rparr>);
             if q = 0 then do {
               k \<leftarrow> lift_v (\<lambda>h. freeQueue ops h (readyQueue (pms k pm))) k;
               k \<leftarrow> lift_v (\<lambda>h. freeQueue ops h (blockedQueue (pms k pm))) k;
               k \<leftarrow> lift_v (\<lambda>h. freeQueue ops h (zombieQueue (pms k pm))) k;
               k \<leftarrow> lift_v (\<lambda>h. kfree ops h pm) k;
               Some (0, k)
             } else Some (pm, k)
           }
         }
       }
     }
   }"

definition compareByPid :: "(addr \<Rightarrow> PCB) \<Rightarrow> addr \<Rightarrow> addr \<Rightarrow> int" where
  "compareByPid P a b = (if pid (P a) = pid (P b) then 0 else -1)"

definition hasPid :: "(addr \<Rightarrow> PCB) \<Rightarrow> addr \<Rightarrow> int \<Rightarrow> int" where
  "hasPid P a key = (if a = 0 then -1 else if pid (P a) = key then 0 else -1)"

definition addProcess :: "'m mm_ops \<Rightarrow> 'm pheap \<Rightarrow> addr \<Rightarrow> addr \<Rightarrow> 'm pheap option" where
  "addProcess ops k pm process = (if pm = 0 \<or> process = 0 then Some k else do {
     let P = pms k pm;
     let k = (if currentProcess P = 0 \<or> currentProcess P = idleProcess P
              then set_pm k pm (P\<lparr>currentProcess := process\<rparr>) else k);
     (_, k) \<leftarrow> lift_q (\<lambda>h. enqueue ops h (readyQueue (pms k pm)) process) k;
     Some k
   })"

definition removeFromReady :: "'m mm_ops \<Rightarrow> 'm pheap \<Rightarrow> addr \<Rightarrow> int \<Rightarrow> 'm pheap option" where
  "removeFromReady ops k pm p = (if pm = 0 then Some k else do {
     (_, k) \<leftarrow> lift_q (\<lambda>h. remove_q ops h (readyQueue (pms k pm)) p (Some (hasPid (pcbs k)))) k;
     let fg = foregroundProcess (pms k pm);
     Some (if fg \<noteq> 0 \<and> pid (pcbs k fg) = p then set_pm k pm ((pms k pm)\<lparr>foregroundProcess := 0\<rparr>) else k)
   })"

definition removeFromZombie :: "'m mm_ops \<Rightarrow> 'm pheap \<Rightarrow> addr \<Rightarrow> int \<Rightarrow> 'm pheap option" where
  "removeFromZombie ops k pm p = (if pm = 0 then Some k else do {
     (_, k) \<leftarrow> lift_q (\<lambda>h. remove_q ops h (zombieQueue (pms k pm)) p (Some (hasPid (pcbs k)))) k;
     Some k
   })"

definition switchProcessFromQueues ::
  "'m mm_ops \<Rightarrow> 'm pheap \<Rightarrow> addr \<Rightarrow> addr \<Rightarrow> int \<Rightarrow> (addr \<times> 'm pheap) option" where
  "switchProcessFromQueues ops k queueFrom queueTo p =
     (if queueFrom = 0 \<or> queueTo = 0 then Some (0, k) else do {
        (process, k) \<leftarrow> lift_q (\<lambda>h. remove_q ops h queueFrom p (Some (hasPid (pcbs k)))) k;
        if process = 0 then Some (0, k) else do {
          (_, k) \<leftarrow> lift_q (\<lambda>h. enqueue ops h queueTo process) k;
          Some (process, k)
        }
      })"

abbreviation set_state :: "'m pheap \<Rightarrow> addr \<Rightarrow> State \<Rightarrow> 'm pheap" where
  "set_state k a s \<equiv> set_pcb k a ((pcbs k a)\<lparr>state := s\<rparr>)"

definition blockProcessQueue :: "'m mm_ops \<Rightarrow> 'm pheap \<Rightarrow> addr \<Rightarrow> int \<Rightarrow> (int \<times> 'm pheap) option" where
  "blockProcessQueue ops k pm p = (if pm = 0 then Some (-1, k) else do {
     semBlockedProcess \<leftarrow> containsQueue (qh k) (blockedQueueBySem (pms k pm)) p (Some (hasPid (pcbs k)));
     if semBlockedProcess \<noteq> 0 then Some (-1, k) else do {
       process \<leftarrow> containsQueue (qh k) (readyQueue (pms k pm)) p (Some (hasPid (pcbs k)));
       if process = 0 then do {
         _ \<leftarrow> containsQueue (qh k) (blockedQueue (pms k pm)) p (Some (hasPid (pcbs k)));
         Some (-1, k)
       } else do {
         (process, k) \<leftarrow> switchProcessFromQueues ops k (readyQueue (pms k pm)) (blockedQueue (pms k pm)) p;
         if process = 0 then Some (-1, k)
         else Some (0, if state (pcbs k process) \<noteq> BLOCKED then set_state k process BLOCKED else k)
       }
     }
   })"

definition blockProcessQueueBySem :: "'m mm_ops \<Rightarrow> 'm pheap \<Rightarrow> addr \<Rightarrow> int \<Rightarrow> (int \<times> 'm pheap) option" where
  "blockProcessQueueBySem ops k pm p = (if pm = 0 then Some (-1, k) else do {
     (process, k) \<leftarrow> switchProcessFromQueues ops k (readyQueue (pms k pm)) (blockedQueueBySem (pms k pm)) p;
     if process = 0 then Some (-1, k)
     else Some (0, if state (pcbs k process) \<noteq> BLOCKED then set_state k process BLOCKED else k)
   })"

definition unblockProcessQueue :: "'m mm_ops \<Rightarrow> 'm pheap \<Rightarrow> addr \<Rightarrow> int \<Rightarrow> (int \<times> 'm pheap) option" where
  "unblockProcessQueue ops k pm p = (if pm = 0 then Some (-1, k) else do {
     (process, k) \<leftarrow> switchProcessFromQueues ops k (blockedQueue (pms k pm)) (readyQueue (pms k pm)) p;
     if process = 0 then Some (-1, k)
     else Some (0, if state (pcbs k process) \<noteq> READY then set_state k process READY else k)
   })"

definition unblockProcessQueueBySem :: "'m mm_ops \<Rightarrow> 'm pheap \<Rightarrow> addr \<Rightarrow> int \<Rightarrow> (int \<times> 'm pheap) option" where
  "unblockProcessQueueBySem ops k pm p = (if pm = 0 then Some (-1, k) else do {
     (process, k) \<leftarrow> switchProcessFromQueues ops k (blockedQueueBySem (pms k pm)) (readyQueue (pms k pm)) p;
     if process = 0 then Some (-1, k)
     else Some (0, if state (pcbs k process) \<noteq> READY then set_state k process READY else k)
   })"

definition freeProcessLinkedLists :: "'m mm_ops \<Rightarrow> 'm pheap \<Rightarrow> addr \<Rightarrow> 'm pheap option" where
  "freeProcessLinkedLists ops k pm = (if pm = 0 then Some k else do {
     k \<leftarrow> lift_v (\<lambda>h. freeQueue ops h (readyQueue (pms k pm))) k;
     k \<leftarrow> lift_v (\<lambda>h. freeQueue ops h (blockedQueue (pms k pm))) k;
     k \<leftarrow> lift_v (\<lambda>h. freeQueue ops h (blockedQueueBySem (pms k pm))) k;
     k \<leftarrow> lift_v (\<lambda>h. freeQueue ops h (zombieQueue (pms k pm))) k;
     lift_v (\<lambda>h. kfree ops h pm) k
   })"

definition getProcess :: "'m pheap \<Rightarrow> addr \<Rightarrow> int \<Rightarrow> addr option" where
  "getProcess k pm p = (if pm = 0 then Some 0 else do {
     let P = pms k pm;
     process \<leftarrow> containsQueue (qh k) (readyQueue P) p (Some (hasPid (pcbs k)));
     if process \<noteq> 0 then Some process else do {
       process \<leftarrow> containsQueue (qh k) (blockedQueue P) p (Some (hasPid (pcbs k)));
       if process \<noteq> 0 then Some process else do {
         process \<leftarrow> containsQueue (qh k) (blockedQueueBySem P) p (Some (hasPid (pcbs k)));
         if process \<noteq> 0 then Some process else do {
           process \<leftarrow> containsQueue (qh k) (zombieQueue P) p (Some (hasPid (pcbs k)));
           if process \<noteq> 0 then Some process
           else if currentProcess P \<noteq> 0 \<and> pid (pcbs k (currentProcess P)) = p then Some (currentProcess P)
           else if idleProcess P \<noteq> 0 \<and> pid (pcbs k (idleProcess P)) = p then Some (idleProcess P)
           else Some 0
         }
       }
     }
   })"

definition foregroundProcessSet :: "'m pheap \<Rightarrow> addr \<Rightarrow> addr \<Rightarrow> 'm pheap" where
  "foregroundProcessSet k pm process =
     (if pm = 0 then k else set_pm k pm ((pms k pm)\<lparr>foregroundProcess := process\<rparr>))"

definition isForegroundProcess :: "'m pheap \<Rightarrow> addr \<Rightarrow> bool" where
  "isForegroundProcess k process \<longleftrightarrow> process \<noteq> 0 \<and> foreground (pcbs k process) = 1"

text \<open>\<^verbatim>\<open>getNextReadyProcess\<close> and \<^verbatim>\<open>getNextProcess\<close> have the same body.\<close>

definition getNextReadyProcess :: "'m mm_ops \<Rightarrow> 'm pheap \<Rightarrow> addr \<Rightarrow> (addr \<times> 'm pheap) option" where
  "getNextReadyProcess ops k pm = (if pm = 0 then Some (0, k)
     else if isQueueEmpty (qh k) (readyQueue (pms k pm))
     then Some (idleProcess (pms k pm), set_pm k pm ((pms k pm)\<lparr>currentProcess := idleProcess (pms k pm)\<rparr>))
     else do {
       (nextProcess, k) \<leftarrow> lift_q (\<lambda>h. dequeue ops h (readyQueue (pms k pm))) k;
       if nextProcess = 0 then Some (0, k) else do {
         (r, k) \<leftarrow> lift_q (\<lambda>h. enqueue ops h (readyQueue (pms k pm)) nextProcess) k;
         if r \<noteq> 0 then Some (0, k) else do {
           let k = set_pm k pm ((pms k pm)\<lparr>currentProcess := nextProcess\<rparr>);
           Some (nextProcess, if isForegroundProcess k nextProcess then foregroundProcessSet k pm nextProcess else k)
         }
       }
     })"

definition getNextProcess :: "'m mm_ops \<Rightarrow> 'm pheap \<Rightarrow> addr \<Rightarrow> (addr \<times> 'm pheap) option" where
  "getNextProcess ops k pm = (if pm = 0 then Some (0, k)
     else if isQueueEmpty (qh k) (readyQueue (pms k pm))
     then Some (idleProcess (pms k pm), set_pm k pm ((pms k pm)\<lparr>currentProcess := idleProcess (pms k pm)\<rparr>))
     else do {
       (nextProcess, k) \<leftarrow> lift_q (\<lambda>h. dequeue ops h (readyQueue (pms k pm))) k;
       if nextProcess = 0 then Some (0, k) else do {
         (r, k) \<leftarrow> lift_q (\<lambda>h. enqueue ops h (readyQueue (pms k pm)) nextProcess) k;
         if r \<noteq> 0 then Some (0, k) else do {
           let k = set_pm k pm ((pms k pm)\<lparr>currentProcess := nextProcess\<rparr>);
           Some (nextProcess, if isForegroundProcess k nextProcess then foregroundProcessSet k pm nextProcess else k)
         }
       }
     })"

definition hasNextReadyProcess :: "'m pheap \<Rightarrow> addr \<Rightarrow> bool" where
  "hasNextReadyProcess k pm \<longleftrightarrow> pm \<noteq> 0 \<and> \<not> isQueueEmpty (qh k) (readyQueue (pms k pm))"

definition getCurrentProcess :: "'m pheap \<Rightarrow> addr \<Rightarrow> addr" where
  "getCurrentProcess k pm = (if pm = 0 then 0 else currentProcess (pms k pm))"

definition setIdleProcess :: "'m pheap \<Rightarrow> addr \<Rightarrow> addr \<Rightarrow> 'm pheap" where
  "setIdleProcess k pm idle =
     (if pm = 0 then k else set_pm k pm ((pms k pm)\<lparr>idleProcess := idle, currentProcess := idle\<rparr>))"

definition getIdleProcess :: "'m pheap \<Rightarrow> addr \<Rightarrow> addr" where
  "getIdleProcess k pm = (if pm = 0 then 0 else idleProcess (pms k pm))"

definition processCount :: "'m pheap \<Rightarrow> addr \<Rightarrow> int" where
  "processCount k pm = (if pm = 0 then 0 else
     queueSize (qh k) (readyQueue (pms k pm)) + queueSize (qh k) (blockedQueue (pms k pm)) +
     queueSize (qh k) (blockedQueueBySem (pms k pm)) + queueSize (qh k) (zombieQueue (pms k pm)) + 1)"

definition readyProcessCount :: "'m pheap \<Rightarrow> addr \<Rightarrow> int" where
  "readyProcessCount k pm = (if pm = 0 then 0 else queueSize (qh k) (readyQueue (pms k pm)))"

definition blockedProcessCount :: "'m pheap \<Rightarrow> addr \<Rightarrow> int" where
  "blockedProcessCount k pm = (if pm = 0 then 0 else
     queueSize (qh k) (blockedQueue (pms k pm)) + queueSize (qh k) (blockedQueueBySem (pms k pm)))"

definition zombieProcessCount :: "'m pheap \<Rightarrow> addr \<Rightarrow> int" where
  "zombieProcessCount k pm = (if pm = 0 then 0 else queueSize (qh k) (zombieQueue (pms k pm)))"

definition getForegroundProcess :: "'m pheap \<Rightarrow> addr \<Rightarrow> addr" where
  "getForegroundProcess k pm = (if pm = 0 then 0 else foregroundProcess (pms k pm))"

definition isCurrentProcessForeground :: "'m pheap \<Rightarrow> addr \<Rightarrow> int \<Rightarrow> bool" where
  "isCurrentProcessForeground k pm p \<longleftrightarrow> pm \<noteq> 0 \<and> foregroundProcess (pms k pm) \<noteq> 0 \<and>
     pid (pcbs k (foregroundProcess (pms k pm))) = p"

definition isIdleProcess :: "'m pheap \<Rightarrow> addr \<Rightarrow> int \<Rightarrow> bool" where
  "isIdleProcess k pm p \<longleftrightarrow> pm \<noteq> 0 \<and> idleProcess (pms k pm) \<noteq> 0 \<and> pid (pcbs k (idleProcess (pms k pm))) = p"

definition killProcess ::
  "'m mm_ops \<Rightarrow> 'm pheap \<Rightarrow> addr \<Rightarrow> int \<Rightarrow> nat \<Rightarrow> State \<Rightarrow> (addr \<times> 'm pheap) option" where
  "killProcess ops k pm p ret st = (if pm = 0 then Some (0, k) else do {
     let P = pms k pm;
     let k = (if currentProcess P \<noteq> 0 \<and> pid (pcbs k (currentProcess P)) = p
              then set_pm k pm (P\<lparr>currentProcess := idleProcess P\<rparr>) else k);
     (process, k) \<leftarrow> switchProcessFromQueues ops k (readyQueue P) (zombieQueue P) p;
     (process, k) \<leftarrow> (if process \<noteq> 0 then Some (process, k)
        else switchProcessFromQueues ops k (blockedQueue P) (zombieQueue P) p);
     (process, k) \<leftarrow> (if process \<noteq> 0 then Some (process, k)
        else switchProcessFromQueues ops k (blockedQueueBySem P) (zombieQueue P) p);
     if process = 0 then Some (0, k) else do {
       let fg = foregroundProcess (pms k pm);
       let k = (if fg \<noteq> 0 \<and> pid (pcbs k fg) = p
                then set_pm k pm ((pms k pm)\<lparr>foregroundProcess := 0\<rparr>) else k);
       Some (process, set_pcb k process ((pcbs k process)\<lparr>retValue := ret, state := st\<rparr>))
     }
   })"

definition stdintProcess :: "'m pheap \<Rightarrow> addr \<Rightarrow> int \<Rightarrow> int option" where
  "stdintProcess k pm p = do {
     process \<leftarrow> getProcess k pm p;
     Some (if process = 0 then -1 else stdin (pcbs k process))
   }"

definition stdoutProcess :: "'m pheap \<Rightarrow> addr \<Rightarrow> int \<Rightarrow> int option" where
  "stdoutProcess k pm p = do {
     process \<leftarrow> getProcess k pm p;
     Some (if process = 0 then -1 else stdout (pcbs k process))
   }"

definition addToReady :: "'m mm_ops \<Rightarrow> 'm pheap \<Rightarrow> addr \<Rightarrow> addr \<Rightarrow> 'm pheap option" where
  "addToReady ops k pm process = (if pm = 0 \<or> process = 0 then Some k else do {
     (_, k) \<leftarrow> lift_q (\<lambda>h. enqueue ops h (readyQueue (pms k pm)) process) k; Some k })"

definition addToBlocked :: "'m mm_ops \<Rightarrow> 'm pheap \<Rightarrow> addr \<Rightarrow> addr \<Rightarrow> 'm pheap option" where
  "addToBlocked ops k pm process = (if pm = 0 \<or> process = 0 then Some k else do {
     (_, k) \<leftarrow> lift_q (\<lambda>h. enqueue ops h (blockedQueue (pms k pm)) process) k; Some k })"

definition addToBlockedBySem :: "'m mm_ops \<Rightarrow> 'm pheap \<Rightarrow> addr \<Rightarrow> addr \<Rightarrow> 'm pheap option" where
  "addToBlockedBySem ops k pm process = (if pm = 0 \<or> process = 0 then Some k else do {
     (_, k) \<leftarrow> lift_q (\<lambda>h. enqueue ops h (blockedQueueBySem (pms k pm)) process) k; Some k })"

section \<open>The abstract process table\<close>

datatype qkind = QReady | QBlocked | QSem | QZombie

text \<open>The address of the queue of a kind, and the lists of processes as a function of the kind.\<close>

fun qaddr :: "ProcessManagerCDT \<Rightarrow> qkind \<Rightarrow> addr" where
  "qaddr P QReady = readyQueue P"
| "qaddr P QBlocked = blockedQueue P"
| "qaddr P QSem = blockedQueueBySem P"
| "qaddr P QZombie = zombieQueue P"

type_synonym ptable = "qkind \<Rightarrow> addr list"

abbreviation members :: "ptable \<Rightarrow> addr set" where "members l \<equiv> (\<Union>c. set (l c))"

text \<open>Every process is in one place of one queue, and pids are unique.\<close>

definition pt_ok :: "(addr \<Rightarrow> PCB) \<Rightarrow> ptable \<Rightarrow> bool" where
  "pt_ok P l \<longleftrightarrow> (\<forall>c. distinct (l c)) \<and> (\<forall>c d. c \<noteq> d \<longrightarrow> set (l c) \<inter> set (l d) = {}) \<and>
     inj_on (\<lambda>p. pid (P p)) (members l)"

definition pm_inv :: "('m \<Rightarrow> (addr \<rightharpoonup> nat) \<Rightarrow> bool) \<Rightarrow> 'm pheap \<Rightarrow> addr \<Rightarrow> (addr \<rightharpoonup> addr list) \<Rightarrow>
    (addr \<rightharpoonup> nat) \<Rightarrow> ptable \<Rightarrow> bool" where
  "pm_inv rep k pm A X l \<longleftrightarrow> kq rep (qh k) A X \<and> X pm = Some sizeof_PM \<and> inj (qaddr (pms k pm)) \<and>
     (\<forall>c. A (qaddr (pms k pm) c) = Some (l c)) \<and> pt_ok (pcbs k) l \<and>
     (\<forall>p \<in> members l. X p = Some sizeof_PCB)"

abbreviation pid_match :: "'m pheap \<Rightarrow> int \<Rightarrow> addr \<Rightarrow> bool" where
  "pid_match k key \<equiv> (\<lambda>x. hasPid (pcbs k) x key = 0)"

text \<open>The specification of a move between two queues.\<close>

definition pt_move :: "('m pheap) \<Rightarrow> int \<Rightarrow> qkind \<Rightarrow> qkind \<Rightarrow> addr \<Rightarrow> ptable \<Rightarrow> ptable" where
  "pt_move k key c d x l = l(c := remove_first (pid_match k key) (l c), d := l d @ [x])"

lemma hasPid_iff: "p \<noteq> 0 \<Longrightarrow> hasPid P p key = 0 \<longleftrightarrow> pid (P p) = key"
  by (simp add: hasPid_def)

lemma pm_invD:
  assumes "pm_inv rep k pm A X l"
  shows "kq rep (qh k) A X" "X pm = Some sizeof_PM" "inj (qaddr (pms k pm))"
    "A (qaddr (pms k pm) c) = Some (l c)" "pt_ok (pcbs k) l" "p \<in> set (l c) \<Longrightarrow> X p = Some sizeof_PCB"
  using assms unfolding pm_inv_def by auto

lemma pt_okD:
  assumes "pt_ok P l"
  shows "distinct (l c)" "c \<noteq> d \<Longrightarrow> x \<in> set (l c) \<Longrightarrow> x \<notin> set (l d)"
    "x \<in> set (l c) \<Longrightarrow> y \<in> set (l d) \<Longrightarrow> pid (P x) = pid (P y) \<Longrightarrow> x = y"
  using assms unfolding pt_ok_def inj_on_def by auto

lemma remove_first_notin:
  "distinct xs \<Longrightarrow> find P xs = Some x \<Longrightarrow> set (remove_first P xs) = set xs - {x}"
  by (elim find_split) auto

lemma find_in: "find P xs = Some x \<Longrightarrow> x \<in> set xs"
  by (elim find_split) simp

lemma remove_first_remove1: "find P xs = Some x \<Longrightarrow> remove_first P xs = remove1 x xs"
  by (elim find_split) (auto simp: remove1_append)

lemma pt_ok_move:
  assumes "pt_ok (pcbs k) l" "c \<noteq> d" "find (pid_match k key) (l c) = Some x"
  shows "pt_ok (pcbs k) (pt_move k key c d x l)" "members (pt_move k key c d x l) = members l" "x \<in> set (l c)"
proof -
  let ?l = "pt_move k key c d x l"
  note D = pt_okD [OF assms(1)]
  show x: "x \<in> set (l c)" using assms(3) by (auto simp: find_Some_iff)
  have sc: "set (?l c) = set (l c) - {x}" using remove_first_notin [OF D(1) assms(3)] assms(2)
    by (simp add: pt_move_def)
  have sd: "set (?l d) = insert x (set (l d))" by (simp add: pt_move_def)
  have so: "?l e = l e" if "e \<noteq> c" "e \<noteq> d" for e using that by (simp add: pt_move_def)
  have se: "set (?l e) = (if e = d then insert x (set (l e)) else set (l e) - {x})" for e
    using sc sd so [of e] D(2) [of c e x] x by (cases "e = c"; cases "e = d") auto
  show m: "members ?l = members l"
  proof (rule set_eqI)
    fix y
    show "y \<in> members ?l \<longleftrightarrow> y \<in> members l"
    proof (cases "y = x")
      case True
      have "x \<in> set (?l d)" by (simp add: se)
      with True x show ?thesis by blast
    next
      case False
      then have "y \<in> set (?l e) \<longleftrightarrow> y \<in> set (l e)" for e by (simp add: se)
      then show ?thesis by simp
    qed
  qed
  have "distinct (?l e)" for e
    using D(1) distinct_remove_first [OF D(1)] D(2) [OF assms(2) x]
    by (auto simp: pt_move_def)
  moreover have "set (?l e) \<inter> set (?l f) = {}" if "e \<noteq> f" for e f
    using D(2) that by (auto simp: se split: if_splits)
  moreover have "inj_on (\<lambda>p. pid (pcbs k p)) (members ?l)" using assms(1) unfolding m pt_ok_def by blast
  ultimately show "pt_ok (pcbs k) ?l" unfolding pt_ok_def by blast
qed

text \<open>Changes of a block that keep its pid, and of the fields of the manager that are not queues.\<close>

lemma pt_ok_cong:
  assumes "\<And>p. pid (P' p) = pid (P p)"
  shows "pt_ok P' l = pt_ok P l"
  unfolding pt_ok_def inj_on_def using assms by simp

lemma pt_ok_members_cong:
  assumes "\<And>p. p \<in> members l \<Longrightarrow> pid (P' p) = pid (P p)"
  shows "pt_ok P' l = pt_ok P l"
proof -
  have "inj_on (\<lambda>p. pid (P' p)) (members l) = inj_on (\<lambda>p. pid (P p)) (members l)"
    by (rule inj_on_cong) (rule assms)
  then show ?thesis by (simp add: pt_ok_def)
qed

lemma pt_ok_remove: "pt_ok P l \<Longrightarrow> pt_ok P (l(c := remove1 x (l c)))"
proof -
  assume p: "pt_ok P l"
  have m: "members (l(c := remove1 x (l c))) \<subseteq> members l"
    using set_remove1_subset [of x "l c"] by (fastforce split: if_splits)
  have "inj_on (\<lambda>p. pid (P p)) (members (l(c := remove1 x (l c))))"
    using p unfolding pt_ok_def by (blast intro: inj_on_subset [OF _ m])
  moreover have "distinct ((l(c := remove1 x (l c))) d)" for d using p by (simp add: pt_ok_def)
  moreover have "set ((l(c := remove1 x (l c))) d) \<subseteq> set (l d)" for d
    using set_remove1_subset [of x "l c"] by simp
  then have "d \<noteq> e \<Longrightarrow> set ((l(c := remove1 x (l c))) d) \<inter> set ((l(c := remove1 x (l c))) e) = {}" for d e
    using p unfolding pt_ok_def by blast
  ultimately show ?thesis unfolding pt_ok_def by blast
qed

lemma pt_ok_perm:
  assumes "pt_ok P l" "\<And>c. mset (l' c) = mset (l c)"
  shows "pt_ok P l'"
proof -
  have "set (l' c) = set (l c)" "distinct (l' c) = distinct (l c)" for c
    using assms(2) [of c] by (auto dest: mset_eq_setD mset_eq_imp_distinct_iff)
  then show ?thesis using assms(1) unfolding pt_ok_def by simp
qed

lemma pm_inv_pcb:
  assumes "pid b = pid (pcbs k x)"
  shows "pm_inv rep (set_pcb k x b) pm A X l = pm_inv rep k pm A X l"
proof -
  have "pt_ok ((pcbs k)(x := b)) l = pt_ok (pcbs k) l" by (rule pt_ok_cong) (simp add: assms)
  then show ?thesis by (simp add: pm_inv_def)
qed

lemma pm_inv_pm:
  assumes "\<And>c. qaddr P c = qaddr (pms k pm) c"
  shows "pm_inv rep (set_pm k pm P) pm A X l = pm_inv rep k pm A X l"
proof -
  have "qaddr P = qaddr (pms k pm)" using assms by (simp add: fun_eq_iff)
  then show ?thesis by (simp add: pm_inv_def)
qed

lemma qaddr_upd [simp]:
  "qaddr (P\<lparr>currentProcess := x\<rparr>) c = qaddr P c" "qaddr (P\<lparr>foregroundProcess := x\<rparr>) c = qaddr P c"
  "qaddr (P\<lparr>idleProcess := x\<rparr>) c = qaddr P c" "qaddr (P\<lparr>lock := v\<rparr>) c = qaddr P c"
  by (cases c; simp)+

lemma pid_match_other:
  assumes "pt_ok (pcbs k) l" "\<And>p. p \<in> members l \<Longrightarrow> p \<noteq> 0" "find (pid_match k key) (l c) = Some x" "d \<noteq> c"
  shows "find (pid_match k key) (l d) = None"
proof (rule ccontr)
  assume "find (pid_match k key) (l d) \<noteq> None"
  then obtain y where "find (pid_match k key) (l d) = Some y" by blast
  then have y: "y \<in> set (l d)" "pid_match k key y" by (auto simp: find_Some_iff)
  have x: "x \<in> set (l c)" "pid_match k key x" using assms(3) by (auto simp: find_Some_iff)
  have "x \<noteq> 0" "y \<noteq> 0" using assms(2) x(1) y(1) by blast+
  then have "pid (pcbs k x) = pid (pcbs k y)" using x(2) y(2) by (simp add: hasPid_iff)
  then have "x = y" using pt_okD(3) [OF assms(1) x(1) y(1)] by simp
  then show False using pt_okD(2) [OF assms(1), of c d x] x(1) y(1) assms(4) by auto
qed

text \<open>
  The common tail of the four (un)blocking operations: a move and the new state of the
  block.  \<open>moved\<close> is their specification.
\<close>

definition moved :: "('m \<Rightarrow> (addr \<rightharpoonup> nat) \<Rightarrow> bool) \<Rightarrow> 'm pheap \<Rightarrow> addr \<Rightarrow> (addr \<rightharpoonup> addr list) \<Rightarrow> (addr \<rightharpoonup> nat) \<Rightarrow> ptable \<Rightarrow> int \<Rightarrow>
    qkind \<Rightarrow> qkind \<Rightarrow> State \<Rightarrow> addr \<Rightarrow> 'm pheap \<Rightarrow> bool" where
  "moved rep k pm A X l key c d st x k' \<longleftrightarrow> x \<in> set (l c) \<and> pid (pcbs k x) = key \<and>
     (\<exists>A'. pm_inv rep k' pm A' X (pt_move k key c d x l) \<and>
        (\<forall>q. q \<notin> range (qaddr (pms k pm)) \<longrightarrow> A' q = A q)) \<and>
     pms k' = pms k \<and> pcbs k' = (pcbs k)(x := (pcbs k x)\<lparr>state := st\<rparr>)"

lemma set_state_same:
  "state (pcbs k x) = st \<Longrightarrow> set_state (k\<lparr>qh := h\<rparr>) x st = k\<lparr>qh := h\<rparr>"
proof -
  assume "state (pcbs k x) = st"
  then have "(pcbs k x)\<lparr>state := st\<rparr> = pcbs k x" by (cases "pcbs k x") simp
  then show ?thesis by (cases k) simp
qed

section \<open>The operations on the table\<close>

context allocator
begin

lemma pm_nonzero:
  assumes "pm_inv rep k pm A X l"
  shows "pm \<noteq> 0" "p \<in> members l \<Longrightarrow> p \<noteq> 0" "qaddr (pms k pm) c \<noteq> 0"
  using kq_nonzero(2) [OF pm_invD(1) [OF assms]] kq_nonzero(1) [OF pm_invD(1,4) [OF assms]]
    pm_invD(2,6) [OF assms] by blast+

lemma contains_pm:
  assumes "pm_inv rep k pm A X l"
  shows "containsQueue (qh k) (qaddr (pms k pm) c) key (Some (hasPid (pcbs k))) =
     Some (case find (pid_match k key) (l c) of None \<Rightarrow> 0 | Some x \<Rightarrow> x)"
  by (rule contains_law [OF pm_invD(1,4) [OF assms]])

lemma switch_none:
  assumes "pm_inv rep k pm A X l" "find (pid_match k key) (l c) = None"
  shows "switchProcessFromQueues ops k (qaddr (pms k pm) c) (qaddr (pms k pm) d) key = Some (0, k)"
  using remove_none [where c = "hasPid (pcbs k)", OF pm_invD(1,4) [OF assms(1)] assms(2)]
    pm_nonzero(3) [OF assms(1)] by (simp add: switchProcessFromQueues_def lift_q_def)

text \<open>A move between two queues of the manager never fails, whatever the memory.\<close>

lemma switch_some:
  assumes "pm_inv rep k pm A X l" "c \<noteq> d" "find (pid_match k key) (l c) = Some x"
  obtains h A' where "switchProcessFromQueues ops k (qaddr (pms k pm) c) (qaddr (pms k pm) d) key = Some (x, k\<lparr>qh := h\<rparr>)"
    "pm_inv rep (k\<lparr>qh := h\<rparr>) pm A' X (pt_move k key c d x l)"
    "\<And>q. q \<notin> range (qaddr (pms k pm)) \<Longrightarrow> A' q = A q" "x \<noteq> 0" "x \<in> set (l c)"
proof -
  note D = pm_invD [OF assms(1)]
  let ?q = "qaddr (pms k pm)"
  let ?A = "A(?q c \<mapsto> remove_first (pid_match k key) (l c), ?q d \<mapsto> l d @ [x])"
  have cd: "?q c \<noteq> ?q d" using D(3) assms(2) by (auto dest: injD)
  obtain h1 h2 where h: "remove_q ops (qh k) (?q c) key (Some (hasPid (pcbs k))) = Some (x, h1)"
    "enqueue ops h1 (?q d) x = Some (0, h2)" "kq rep h2 ?A X"
    by (rule qs.switch [where c = "hasPid (pcbs k)", OF D(1,4,4) cd assms(3)])
  note M = pt_ok_move [OF D(5) assms(2,3)]
  have x0: "x \<noteq> 0" using M(3) pm_nonzero(2) [OF assms(1)] by blast
  have "?A (?q e) = Some (pt_move k key c d x l e)" for e
    using D(3,4) by (auto simp: pt_move_def dest: injD)
  moreover have "X p = Some sizeof_PCB" if "p \<in> members (pt_move k key c d x l)" for p
    using that D(6) unfolding M(2) by blast
  ultimately have "pm_inv rep (k\<lparr>qh := h2\<rparr>) pm ?A X (pt_move k key c d x l)"
    using D(2,3) h(3) M(1) by (simp add: pm_inv_def pt_move_def)
  moreover have "switchProcessFromQueues ops k (?q c) (?q d) key = Some (x, k\<lparr>qh := h2\<rparr>)"
    using h(1,2) x0 pm_nonzero(3) [OF assms(1)] by (simp add: switchProcessFromQueues_def lift_q_def)
  moreover have "?A q = A q" if "q \<notin> range ?q" for q using that by auto
  ultimately show thesis using that x0 M(3) by blast
qed

lemma switch_state_none:
  assumes "pm_inv rep k pm A X l" "find (pid_match k key) (l c) = None"
  shows "switchProcessFromQueues ops k (qaddr (pms k pm) c) (qaddr (pms k pm) d) key \<bind> (\<lambda>(process, k).
     if process = 0 then Some (-1, k)
     else Some (0 :: int, if state (pcbs k process) \<noteq> st then set_state k process st else k)) = Some (-1, k)"
  by (simp add: switch_none [OF assms])

lemma switch_state_some:
  assumes "pm_inv rep k pm A X l" "c \<noteq> d" "find (pid_match k key) (l c) = Some x"
  shows "\<exists>k'. switchProcessFromQueues ops k (qaddr (pms k pm) c) (qaddr (pms k pm) d) key \<bind> (\<lambda>(process, k).
     if process = 0 then Some (-1, k)
     else Some (0 :: int, if state (pcbs k process) \<noteq> st then set_state k process st else k)) = Some (0, k') \<and>
     moved rep k pm A X l key c d st x k'"
proof -
  obtain h A' where h: "switchProcessFromQueues ops k (qaddr (pms k pm) c) (qaddr (pms k pm) d) key = Some (x, k\<lparr>qh := h\<rparr>)"
    "pm_inv rep (k\<lparr>qh := h\<rparr>) pm A' X (pt_move k key c d x l)"
    "\<And>q. q \<notin> range (qaddr (pms k pm)) \<Longrightarrow> A' q = A q" "x \<noteq> 0" "x \<in> set (l c)"
    by (rule switch_some [OF assms]) blast
  have "hasPid (pcbs k) x key = 0" using assms(3) by (auto simp: find_Some_iff)
  then have key: "pid (pcbs k x) = key" using h(4) by (simp add: hasPid_iff)
  let ?k = "set_state (k\<lparr>qh := h\<rparr>) x st"
  have "(if state (pcbs k x) \<noteq> st then ?k else k\<lparr>qh := h\<rparr>) = ?k"
    using set_state_same [of k x st h] by simp
  moreover have "pm_inv rep ?k pm A' X (pt_move k key c d x l)"
    using h(2) by (simp add: pm_inv_pcb [where k = "k\<lparr>qh := h\<rparr>", simplified])
  ultimately show ?thesis using h key by (intro exI [of _ ?k]) (auto simp: moved_def)
qed

lemmas qaddr_fold = qaddr.simps [symmetric]

lemma blockProcessQueue_law:
  assumes "pm_inv rep k pm A X l"
  shows "case find (pid_match k key) (l QReady) of
      None \<Rightarrow> blockProcessQueue ops k pm key = Some (-1, k)
    | Some x \<Rightarrow> \<exists>k'. blockProcessQueue ops k pm key = Some (0, k') \<and> moved rep k pm A X l key QReady QBlocked BLOCKED x k'"
proof (cases "find (pid_match k key) (l QReady)")
  case None
  then show ?thesis
    using contains_pm [OF assms, of QSem key] contains_pm [OF assms, of QReady key]
      contains_pm [OF assms, of QBlocked key] pm_nonzero(1) [OF assms]
    by (cases "find (pid_match k key) (l QSem)") (simp_all add: blockProcessQueue_def)
next
  case (Some x)
  have "find (pid_match k key) (l QSem) = None"
    using pid_match_other [OF pm_invD(5) [OF assms] pm_nonzero(2) [OF assms] Some] by simp
  moreover have "x \<in> set (l QReady)" using find_in [OF Some] .
  then have "x \<noteq> 0" using pm_nonzero(2) [OF assms] by blast
  ultimately show ?thesis
    using switch_state_some [OF assms _ Some, of QBlocked BLOCKED] Some
      contains_pm [OF assms, of QSem key] contains_pm [OF assms, of QReady key] pm_nonzero(1) [OF assms]
    by (simp add: blockProcessQueue_def)
qed

lemma blockProcessQueueBySem_law:
  assumes "pm_inv rep k pm A X l"
  shows "case find (pid_match k key) (l QReady) of
      None \<Rightarrow> blockProcessQueueBySem ops k pm key = Some (-1, k)
    | Some x \<Rightarrow> \<exists>k'. blockProcessQueueBySem ops k pm key = Some (0, k') \<and> moved rep k pm A X l key QReady QSem BLOCKED x k'"
  using switch_state_none [OF assms, of key QReady QSem BLOCKED]
    switch_state_some [OF assms, of QReady QSem key _ BLOCKED] pm_nonzero(1) [OF assms]
  by (auto simp: blockProcessQueueBySem_def split: option.splits)

lemma unblockProcessQueue_law:
  assumes "pm_inv rep k pm A X l"
  shows "case find (pid_match k key) (l QBlocked) of
      None \<Rightarrow> unblockProcessQueue ops k pm key = Some (-1, k)
    | Some x \<Rightarrow> \<exists>k'. unblockProcessQueue ops k pm key = Some (0, k') \<and> moved rep k pm A X l key QBlocked QReady READY x k'"
  using switch_state_none [OF assms, of key QBlocked QReady READY]
    switch_state_some [OF assms, of QBlocked QReady key _ READY] pm_nonzero(1) [OF assms]
  by (auto simp: unblockProcessQueue_def split: option.splits)

lemma unblockProcessQueueBySem_law:
  assumes "pm_inv rep k pm A X l"
  shows "case find (pid_match k key) (l QSem) of
      None \<Rightarrow> unblockProcessQueueBySem ops k pm key = Some (-1, k)
    | Some x \<Rightarrow> \<exists>k'. unblockProcessQueueBySem ops k pm key = Some (0, k') \<and> moved rep k pm A X l key QSem QReady READY x k'"
  using switch_state_none [OF assms, of key QSem QReady READY]
    switch_state_some [OF assms, of QSem QReady key _ READY] pm_nonzero(1) [OF assms]
  by (auto simp: unblockProcessQueueBySem_def split: option.splits)

text \<open>The scheduler's choice: the ready queue rotates.\<close>

lemma getNextProcess_law:
  assumes "pm_inv rep k pm A X l"
  shows "case l QReady of
      [] \<Rightarrow> getNextProcess ops k pm =
        Some (idleProcess (pms k pm), set_pm k pm ((pms k pm)\<lparr>currentProcess := idleProcess (pms k pm)\<rparr>))
    | x # xs \<Rightarrow> \<exists>k' A'. getNextProcess ops k pm = Some (x, k') \<and> pm_inv rep k' pm A' X (l(QReady := xs @ [x])) \<and>
        (\<forall>q. q \<notin> range (qaddr (pms k pm)) \<longrightarrow> A' q = A q) \<and> pcbs k' = pcbs k \<and>
        pms k' = (pms k)(pm := (pms k pm)\<lparr>currentProcess := x, foregroundProcess :=
          (if foreground (pcbs k x) = 1 then x else foregroundProcess (pms k pm))\<rparr>)"
proof (cases "l QReady")
  case Nil
  then show ?thesis
    using size_law(2) [OF pm_invD(1,4) [OF assms], of QReady] pm_nonzero(1) [OF assms]
    by (simp add: getNextProcess_def)
next
  case (Cons x xs)
  note D = pm_invD [OF assms]
  let ?q = "qaddr (pms k pm)"
  have q: "A (?q QReady) = Some (x # xs)" using D(4) [of QReady] Cons by simp
  obtain h1 h2 where h: "dequeue ops (qh k) (?q QReady) = Some (x, h1)" "enqueue ops h1 (?q QReady) x = Some (0, h2)"
    "kq rep h2 (A(?q QReady \<mapsto> xs @ [x])) X" by (rule qs.rotate [OF D(1) q])
  have x0: "x \<noteq> 0" using pm_nonzero(2) [OF assms, of x] Cons by (metis UN_I UNIV_I list.set_intros(1))
  let ?k = "set_pm (k\<lparr>qh := h2\<rparr>) pm ((pms k pm)\<lparr>currentProcess := x\<rparr>)"
  let ?k' = "if isForegroundProcess ?k x then foregroundProcessSet ?k pm x else ?k"
  have "getNextProcess ops k pm = Some (x, ?k')"
    using h x0 pm_nonzero(1) [OF assms] size_law(2) [OF D(1,4), of QReady] Cons
    by (simp add: getNextProcess_def lift_q_def)
  moreover have pk: "pms ?k' = (pms k)(pm := (pms k pm)\<lparr>currentProcess := x, foregroundProcess :=
          (if foreground (pcbs k x) = 1 then x else foregroundProcess (pms k pm))\<rparr>)"
    using x0 pm_nonzero(1) [OF assms] by (simp add: isForegroundProcess_def foregroundProcessSet_def)
  moreover have "pcbs ?k' = pcbs k" "qh ?k' = h2" by (auto simp: foregroundProcessSet_def)
  moreover have "pt_ok (pcbs k) (l(QReady := xs @ [x]))"
    by (rule pt_ok_perm [OF D(5)]) (simp add: Cons)
  moreover have "qaddr (pms ?k' pm) = ?q" by (rule ext) (auto simp: foregroundProcessSet_def)
  moreover have "A' (?q c) = Some ((l(QReady := xs @ [x])) c)"
    if "A' = A(?q QReady \<mapsto> xs @ [x])" for A' c
    using that D(3,4) by (auto simp del: qaddr.simps dest: injD)
  moreover have "set ((l(QReady := xs @ [x])) c) = set (l c)" for c by (simp add: Cons)
  then have "X p = Some sizeof_PCB" if "p \<in> members (l(QReady := xs @ [x]))" for p
    using that D(6) by blast
  ultimately have "pm_inv rep ?k' pm (A(?q QReady \<mapsto> xs @ [x])) X (l(QReady := xs @ [x]))"
    using D(2,3) h(3) unfolding pm_inv_def by (simp only: fun_upd_same) blast
  moreover have "\<forall>q. q \<notin> range ?q \<longrightarrow> (A(?q QReady \<mapsto> xs @ [x])) q = A q"
    by (auto simp del: qaddr.simps)
  ultimately show ?thesis
    using \<open>getNextProcess ops k pm = Some (x, ?k')\<close> pk \<open>pcbs ?k' = pcbs k\<close>
    unfolding Cons list.case by blast
qed

lemma find_member:
  assumes "pm_inv rep k pm A X l" "x \<in> set (l c)"
  shows "find (pid_match k (pid (pcbs k x))) (l c) = Some x"
proof -
  let ?key = "pid (pcbs k x)"
  have x: "x \<noteq> 0" using pm_nonzero(2) [OF assms(1)] assms(2) by blast
  have "find (pid_match k ?key) (l c) \<noteq> None" using assms(2) x by (auto simp: find_None_iff hasPid_iff)
  then obtain y where y: "find (pid_match k ?key) (l c) = Some y" by blast
  have "y \<in> set (l c)" "y \<noteq> 0" using find_in [OF y] pm_nonzero(2) [OF assms(1)] by blast+
  moreover have "pid_match k ?key y" using y by (elim find_split) simp
  ultimately have "y = x"
    using pt_okD(3) [OF pm_invD(5) [OF assms(1)] _ assms(2), of y c] by (simp add: hasPid_iff)
  with y show ?thesis by simp
qed

lemma getProcess_law:
  assumes "pm_inv rep k pm A X l" "x \<in> set (l c)"
  shows "getProcess k pm (pid (pcbs k x)) = Some x"
proof -
  let ?key = "pid (pcbs k x)"
  have x: "x \<noteq> 0" using pm_nonzero(2) [OF assms(1)] assms(2) by blast
  have y: "find (pid_match k ?key) (l c) = Some x" by (rule find_member [OF assms])
  have o: "find (pid_match k ?key) (l d) = None" if "d \<noteq> c" for d
    using pid_match_other [OF pm_invD(5) [OF assms(1)] pm_nonzero(2) [OF assms(1)] y that] .
  have "containsQueue (qh k) (qaddr (pms k pm) d) ?key (Some (hasPid (pcbs k))) = Some (if d = c then x else 0)" for d
    using contains_pm [OF assms(1), of d ?key] y o [of d] by auto
  from this [of QReady] this [of QBlocked] this [of QSem] this [of QZombie] x pm_nonzero(1) [OF assms(1)]
  show ?thesis by (cases c) (simp_all add: getProcess_def)
qed

text \<open>Adding a process behind the ready or a blocked queue; it is refused without memory.\<close>

lemma enqueue_pm:
  assumes "pm_inv rep k pm A X l" "X x = Some sizeof_PCB" "x \<notin> members l" "\<And>p. p \<in> members l \<Longrightarrow> pid (pcbs k p) \<noteq> pid (pcbs k x)"
  shows "\<exists>r h. enqueue ops (qh k) (qaddr (pms k pm) c) x = Some (r, h) \<and>
     (r = -1 \<and> h = qh k \<and> \<not> node_ready ops (qh k) \<or> (\<exists>A'. r = 0 \<and> pm_inv rep (k\<lparr>qh := h\<rparr>) pm A' X (l(c := l c @ [x])) \<and>
        (\<forall>q. q \<notin> range (qaddr (pms k pm)) \<longrightarrow> A' q = A q)))"
proof -
  note D = pm_invD [OF assms(1)]
  let ?q = "qaddr (pms k pm)"
  obtain r h where h: "enqueue ops (qh k) (?q c) x = Some (r, h)"
    "r = -1 \<and> h = qh k \<and> \<not> node_ready ops (qh k) \<or> r = 0 \<and> kq rep h (A(?q c \<mapsto> l c @ [x])) X"
    using enqueue_law [OF D(1,4), of c x] by blast
  have m: "members (l(c := l c @ [x])) = insert x (members l)" by (auto split: if_splits)
  have "pid (pcbs k x) \<notin> (\<lambda>p. pid (pcbs k p)) ` (members l - {x})"
    using assms(4) by (metis (no_types, lifting) DiffD1 imageE)
  then have "inj_on (\<lambda>p. pid (pcbs k p)) (insert x (members l))"
    using D(5) unfolding pt_ok_def inj_on_insert by blast
  then have "pt_ok (pcbs k) (l(c := l c @ [x]))"
    using D(5) assms(3) unfolding pt_ok_def m by auto
  moreover have "(A(?q c \<mapsto> l c @ [x])) (?q e) = Some ((l(c := l c @ [x])) e)" for e
    using D(3,4) by (auto simp del: qaddr.simps dest: injD)
  moreover have "X p = Some sizeof_PCB" if "p \<in> members (l(c := l c @ [x]))" for p
    using that D(6) assms(2) unfolding m by blast
  ultimately have "pm_inv rep (k\<lparr>qh := h\<rparr>) pm (A(?q c \<mapsto> l c @ [x])) X (l(c := l c @ [x]))"
    if "kq rep h (A(?q c \<mapsto> l c @ [x])) X" using that D(2,3) unfolding pm_inv_def by simp
  moreover have "\<forall>q. q \<notin> range ?q \<longrightarrow> (A(?q c \<mapsto> l c @ [x])) q = A q" by auto
  ultimately show ?thesis using h by blast
qed

text \<open>Killing moves the process to the zombies, wherever it was.\<close>

lemma killProcess_some:
  assumes "pm_inv rep k pm A X l" "c \<noteq> QZombie" "find (pid_match k key) (l c) = Some x"
  shows "\<exists>k' A'. killProcess ops k pm key ret st = Some (x, k') \<and> x \<in> set (l c) \<and>
     pm_inv rep k' pm A' X (pt_move k key c QZombie x l) \<and>
     (\<forall>q. q \<notin> range (qaddr (pms k pm)) \<longrightarrow> A' q = A q) \<and>
     pcbs k' = (pcbs k)(x := (pcbs k x)\<lparr>retValue := ret, state := st\<rparr>) \<and>
     pms k' = (pms k)(pm := (pms k pm)\<lparr>
       currentProcess := (if currentProcess (pms k pm) \<noteq> 0 \<and> pid (pcbs k (currentProcess (pms k pm))) = key
         then idleProcess (pms k pm) else currentProcess (pms k pm)),
       foregroundProcess := (if foregroundProcess (pms k pm) \<noteq> 0 \<and> pid (pcbs k (foregroundProcess (pms k pm))) = key
         then 0 else foregroundProcess (pms k pm))\<rparr>)"
proof -
  let ?P = "pms k pm" and ?fg = "foregroundProcess (pms k pm)"
  let ?cur = "if currentProcess ?P \<noteq> 0 \<and> pid (pcbs k (currentProcess ?P)) = key then idleProcess ?P else currentProcess ?P"
  define k1 where "k1 = set_pm k pm (?P\<lparr>currentProcess := ?cur\<rparr>)"
  have same: "(if currentProcess ?P \<noteq> 0 \<and> pid (pcbs k (currentProcess ?P)) = key
              then set_pm k pm (?P\<lparr>currentProcess := idleProcess ?P\<rparr>) else k) = k1"
    unfolding k1_def by (cases k; cases ?P) auto
  have k1: "pcbs k1 = pcbs k" "pms k1 pm = ?P\<lparr>currentProcess := ?cur\<rparr>" "qaddr (pms k1 pm) = qaddr ?P"
    by (auto simp: k1_def)
  have inv: "pm_inv rep k1 pm A X l" using assms(1) by (simp add: k1_def pm_inv_pm)
  have f: "find (pid_match k1 key) (l c) = Some x" using assms(3) by (simp add: k1)
  obtain h A' where h: "switchProcessFromQueues ops k1 (qaddr ?P c) (qaddr ?P QZombie) key = Some (x, k1\<lparr>qh := h\<rparr>)"
    "pm_inv rep (k1\<lparr>qh := h\<rparr>) pm A' X (pt_move k1 key c QZombie x l)"
    "\<And>q. q \<notin> range (qaddr ?P) \<Longrightarrow> A' q = A q" "x \<noteq> 0" "x \<in> set (l c)"
    by (rule switch_some [OF inv assms(2) f, unfolded k1(3)]) blast
  have n: "find (pid_match k1 key) (l d) = None" if "d \<noteq> c" for d
    by (rule pid_match_other [OF pm_invD(5) [OF inv] _ f that]) (rule pm_nonzero(2) [OF inv])
  have o: "switchProcessFromQueues ops k1 (qaddr ?P d) (qaddr ?P QZombie) key = Some (0, k1)" if "d \<noteq> c" for d
    using switch_none [OF inv n [OF that], of QZombie] by (simp only: k1(3))
  define k2 where "k2 = k1\<lparr>qh := h\<rparr>"
  have k2: "pcbs k2 = pcbs k" "pms k2 = pms k1" by (simp_all add: k2_def k1)
  define k3 where "k3 = (if ?fg \<noteq> 0 \<and> pid (pcbs k ?fg) = key then set_pm k2 pm ((pms k2 pm)\<lparr>foregroundProcess := 0\<rparr>) else k2)"
  have k3: "pcbs k3 = pcbs k" by (simp add: k3_def k2)
  define k4 where "k4 = set_pcb k3 x ((pcbs k x)\<lparr>retValue := ret, state := st\<rparr>)"
  have "killProcess ops k pm key ret st = Some (x, k4)"
    unfolding killProcess_def Let_def same
    using h(1,4) o [of QReady] o [of QBlocked] o [of QSem] assms(2) pm_nonzero(1) [OF assms(1)]
    by (cases c) (simp_all add: k1 k2 k3 k4_def k3_def k2_def [symmetric])
  moreover have "pm_inv rep k3 pm A' X (pt_move k key c QZombie x l)"
    using h(2) unfolding k3_def by (simp add: k2_def [symmetric] pm_inv_pm pt_move_def k1)
  then have "pm_inv rep k4 pm A' X (pt_move k key c QZombie x l)"
    unfolding k4_def by (subst pm_inv_pcb) (simp_all add: k3)
  moreover have "pms k4 = (pms k)(pm := ?P\<lparr>currentProcess := ?cur, foregroundProcess :=
       (if ?fg \<noteq> 0 \<and> pid (pcbs k ?fg) = key then 0 else ?fg)\<rparr>)"
    unfolding k4_def k3_def by (cases ?P) (auto simp: k2 k1_def)
  ultimately show ?thesis using h(3,5) k3 by (intro exI [of _ k4] exI [of _ A']) (auto simp: k4_def)
qed

end

end
