(* ===== verification/Buddy_MM.thy ===== *)
theory Buddy_MM
  imports Memory_Interface
begin

text \<open>
  The buddy memory manager, \<^verbatim>\<open>Kernel/Memorymanager/BuddyMemoryManager.c\<close>, the one the default
  build links.

  The manager keeps a header \<open>block_t\<close> of 16 bytes in front of every block; the headers are the
  store \<open>hdr\<close>, indexed by address, beside the fields of \<^verbatim>\<open>buddy_man\<close>.  The store is total: a
  header that the manager never wrote holds an arbitrary value.  The two loops
  that follow pointers or merge blocks are \<open>partial_function\<close>s, so that a loop that never ends
  has the value \<open>None\<close>, as has an access to \<^verbatim>\<open>free_blocks\<close> out of its bounds.

  The invariant \<open>bd_inv\<close> relates a state to a tiling of the heap by aligned power-of-two blocks
  and to the set of the free ones.  The operations keep it, and the manager is an
  interpretation of \<open>allocator\<close>.
\<close>

section \<open>State\<close>

definition MIN_ORDER :: nat where "MIN_ORDER = 6"
definition MAX_ORDER :: nat where "MAX_ORDER = 30"
definition sizeof_block_t :: nat where "sizeof_block_t = 16"

datatype status = FREE | OCCUPIED

record block_t =
  order :: nat
  status :: status
  "next" :: addr

record buddy_manager =
  max_order :: nat
  free_blocks :: "nat \<Rightarrow> addr"
  total_mem :: nat
  used_mem :: nat
  hdr :: "addr \<Rightarrow> block_t"

text \<open>Access to the array \<^verbatim>\<open>free_blocks[MAX_ORDER]\<close>; an index out of bounds is a fault.\<close>

definition free_list :: "buddy_manager \<Rightarrow> nat \<Rightarrow> addr option" where
  "free_list m i = (if i < MAX_ORDER then Some (free_blocks m i) else None)"

abbreviation set_hdr :: "buddy_manager \<Rightarrow> addr \<Rightarrow> block_t \<Rightarrow> buddy_manager" where
  "set_hdr m a b \<equiv> m\<lparr>hdr := (hdr m)(a := b)\<rparr>"

section \<open>Operations\<close>

definition create_block :: "buddy_manager \<Rightarrow> addr \<Rightarrow> nat \<Rightarrow> buddy_manager option" where
  "create_block m address ord = do {
     head \<leftarrow> free_list m ord;
     Some (m\<lparr>hdr := (hdr m)(address := \<lparr>order = ord, status = FREE, next = head\<rparr>),
             free_blocks := (free_blocks m)(ord := address)\<rparr>)
   }"

text \<open>The \<^verbatim>\<open>while\<close> loop of \<^verbatim>\<open>remove_block\<close>: the predecessor of \<open>block\<close>, or the last cell.\<close>

partial_function (option) remove_walk :: "(addr \<Rightarrow> block_t) \<Rightarrow> addr \<Rightarrow> addr \<Rightarrow> addr option" where
  [code]: "remove_walk h curr_block block =
     (if next (h curr_block) \<noteq> 0 \<and> next (h curr_block) \<noteq> block then remove_walk h (next (h curr_block)) block
      else Some curr_block)"

definition remove_block :: "buddy_manager \<Rightarrow> addr \<Rightarrow> buddy_manager option" where
  "remove_block m block = (if block = 0 then Some m else do {
     let ord = order (hdr m block);
     curr_block \<leftarrow> free_list m ord;
     if curr_block = 0 then Some m
     else if curr_block = block then
       Some (m\<lparr>hdr := (hdr m)(curr_block := (hdr m curr_block)\<lparr>status := OCCUPIED\<rparr>),
               free_blocks := (free_blocks m)(ord := next (hdr m curr_block))\<rparr>)
     else do {
       prev \<leftarrow> remove_walk (hdr m) curr_block block;
       if next (hdr m prev) = 0 then Some m
       else do {
         let m1 = set_hdr m prev ((hdr m prev)\<lparr>next := next (hdr m (next (hdr m prev)))\<rparr>);
         Some (set_hdr m1 block ((hdr m1 block)\<lparr>status := OCCUPIED\<rparr>))
       }
     }
   })"

definition split_block :: "buddy_manager \<Rightarrow> nat \<Rightarrow> buddy_manager option" where
  "split_block m ord = do {
     block \<leftarrow> free_list m ord;
     m1 \<leftarrow> remove_block m block;
     m2 \<leftarrow> create_block m1 (block + 2 ^ (ord - 1)) (ord - 1);
     create_block m2 block (ord - 1)
   }"

text \<open>
  The doubling loop that \<^verbatim>\<open>createMemoryManager\<close> and \<^verbatim>\<open>allocMemory\<close> both contain: the smallest
  power of two that is not below a size.  The product is a 64-bit one, so the loop does
  not end for a size above \<^term>\<open>2 ^ 63\<close>.
\<close>

partial_function (option) order_loop :: "nat \<Rightarrow> nat \<Rightarrow> nat \<Rightarrow> (nat \<times> nat) option" where
  [code]: "order_loop ord current_size total_size =
     (if current_size < total_size then order_loop (ord + 1) (u64 (current_size * 2)) total_size
      else Some (ord, current_size))"

definition createMemoryManager :: "addr \<Rightarrow> nat \<Rightarrow> buddy_manager \<Rightarrow> buddy_manager option" where
  "createMemoryManager start sz m = do {
     (ord, current_size) \<leftarrow> order_loop 0 1 sz;
     create_block (m\<lparr>max_order := ord, total_mem := current_size, used_mem := 0,
                     free_blocks := (\<lambda>i. if i < MAX_ORDER then 0 else free_blocks m i)\<rparr>) start ord
   }"

text \<open>The \<^verbatim>\<open>for\<close> loop of \<^verbatim>\<open>allocMemory\<close> that looks for a larger free block.\<close>

function order_search :: "buddy_manager \<Rightarrow> nat \<Rightarrow> nat \<Rightarrow> nat option" where
  "order_search m i order_approx =
     (if i \<le> max_order m \<and> order_approx = 0 then do {
        head \<leftarrow> free_list m i;
        order_search m (i + 1) (if head \<noteq> 0 then i else order_approx)
      } else Some order_approx)"
  by pat_completeness auto
termination by (relation "measure (\<lambda>(m, i, _). Suc (max_order m) - i)") auto

declare order_search.simps [simp del]

fun split_loop :: "buddy_manager \<Rightarrow> nat \<Rightarrow> nat \<Rightarrow> buddy_manager option" where
  "split_loop m order_approx ord =
     (if ord < order_approx then do {
        m' \<leftarrow> split_block m order_approx;
        split_loop m' (order_approx - 1) ord
      } else Some m)"

declare split_loop.simps [simp del]

definition allocMemory :: "buddy_manager \<Rightarrow> nat \<Rightarrow> (addr \<times> buddy_manager) option" where
  "allocMemory m memoryToAllocate =
     (if memoryToAllocate = 0 \<or> HEAP_SIZE < memoryToAllocate then Some (0, m) else do {
        (o1, _) \<leftarrow> order_loop 1 2 (u64 (memoryToAllocate + sizeof_block_t));
        let ord = (if o1 < MIN_ORDER then MIN_ORDER else o1);
        head \<leftarrow> free_list m ord;
        m1 \<leftarrow> (if head = 0 then do {
                  order_approx \<leftarrow> order_search m (ord + 1) 0;
                  if order_approx = 0 then Some None
                  else map_option Some (split_loop m order_approx ord)
                } else Some (Some m));
        case m1 of None \<Rightarrow> Some (0, m) | Some m' \<Rightarrow> do {
          block \<leftarrow> free_list m' ord;
          m2 \<leftarrow> remove_block m' block;
          if block = 0 then None
          else Some (block + sizeof_block_t,
            m2\<lparr>hdr := (hdr m2)(block := (hdr m2 block)\<lparr>status := OCCUPIED\<rparr>),
               used_mem := u64 (used_mem m2 + 2 ^ ord)\<rparr>)
        }
      })"

text \<open>The merging loop of \<^verbatim>\<open>freeMemory\<close>: the block that is left to insert.\<close>

partial_function (option) merge_loop :: "buddy_manager \<Rightarrow> addr \<Rightarrow> (buddy_manager \<times> addr) option" where
  [code]: "merge_loop m block =
     (if order (hdr m block) < max_order m then
        let block_pos = sub64 block HEAP_START_ADDRESS;
            buddy_pos = block_pos XOR 2 ^ order (hdr m block);
            buddy_block = HEAP_START_ADDRESS + buddy_pos
        in if status (hdr m buddy_block) \<noteq> FREE \<or> order (hdr m buddy_block) \<noteq> order (hdr m block)
           then Some (m, block)
           else let left_block = (if block_pos < buddy_pos then block else buddy_block)
                in do {
                  m1 \<leftarrow> remove_block m block;
                  m2 \<leftarrow> remove_block m1 buddy_block;
                  merge_loop (set_hdr m2 left_block
                    ((hdr m2 left_block)\<lparr>order := order (hdr m2 left_block) + 1\<rparr>)) left_block
                }
      else Some (m, block))"

definition freeMemory :: "buddy_manager \<Rightarrow> addr \<Rightarrow> buddy_manager option" where
  "freeMemory m address = (if address = 0 then Some m else
     let block = sub64 address sizeof_block_t in
     if status (hdr m block) = FREE then Some m
     else do {
       (m1, block') \<leftarrow> merge_loop (m\<lparr>
           used_mem := sub64 (used_mem m) (2 ^ order (hdr m block)),
           hdr := (hdr m)(block := (hdr m block)\<lparr>status := FREE\<rparr>)\<rparr>) block;
       create_block m1 block' (order (hdr m1 block'))
     })"

definition getMemoryInfo :: "buddy_manager \<Rightarrow> addr \<Rightarrow> memInfo option" where
  "getMemoryInfo m info = (if info = 0 then None else
     Some \<lparr>mi_total = total_mem m, mi_used = used_mem m, mi_free = sub64 (total_mem m) (used_mem m)\<rparr>)"

definition buddy_ops :: "buddy_manager mm_ops" where
  "buddy_ops = \<lparr>mm_alloc = allocMemory, mm_free = freeMemory\<rparr>"

section \<open>Tilings\<close>

text \<open>
  A tiling maps the position of every block (relative to the start of the heap) to its order.
  Blocks are aligned to their size, do not overlap, and cover the \<^term>\<open>2 ^ 29\<close> bytes.
\<close>

abbreviation H :: nat where "H \<equiv> HEAP_START_ADDRESS"

lemma H_nonzero [simp]: "H \<noteq> 0" "0 < H"
  by (simp_all add: HEAP_START_ADDRESS_def)

definition tiling :: "(nat \<rightharpoonup> nat) \<Rightarrow> bool" where
  "tiling P \<longleftrightarrow>
     (\<forall>p k. P p = Some k \<longrightarrow> MIN_ORDER \<le> k \<and> k \<le> 29 \<and> 2 ^ k dvd p \<and> p + 2 ^ k \<le> 2 ^ 29) \<and>
     (\<forall>p q k l. P p = Some k \<longrightarrow> P q = Some l \<longrightarrow> p \<noteq> q \<longrightarrow> p + 2 ^ k \<le> q \<or> q + 2 ^ l \<le> p) \<and>
     (\<forall>x < 2 ^ 29. \<exists>p k. P p = Some k \<and> p \<le> x \<and> x < p + 2 ^ k)"

lemma tilingD:
  assumes "tiling P" and "P p = Some k"
  shows "MIN_ORDER \<le> k" "k \<le> 29" "2 ^ k dvd p" "p + 2 ^ k \<le> 2 ^ 29" "p < 2 ^ 29"
proof -
  show "MIN_ORDER \<le> k" "k \<le> 29" "2 ^ k dvd p" and l: "p + 2 ^ k \<le> 2 ^ 29"
    using assms unfolding tiling_def by blast+
  have "(0::nat) < 2 ^ k" by simp
  with l show "p < 2 ^ 29" by linarith
qed

lemma tiling_apart:
  "tiling P \<Longrightarrow> P p = Some k \<Longrightarrow> P q = Some l \<Longrightarrow> p \<noteq> q \<Longrightarrow> p + 2 ^ k \<le> q \<or> q + 2 ^ l \<le> p"
  unfolding tiling_def by blast

lemma tiling_cover:
  assumes "tiling P" and "x < 2 ^ 29"
  obtains p k where "P p = Some k" "p \<le> x" "x < p + 2 ^ k"
proof -
  have "\<forall>x < 2 ^ 29. \<exists>p k. P p = Some k \<and> p \<le> x \<and> x < p + 2 ^ k"
    using assms(1) unfolding tiling_def by (elim conjE)
  with assms(2) that show thesis by blast
qed

lemma finite_tiling:
  assumes "tiling P"
  shows "finite (dom P)"
proof (rule finite_subset)
  show "dom P \<subseteq> {..<2 ^ 29}"
    using tilingD(5) [OF assms] by (metis domD lessThan_iff subsetI)
qed (rule finite_lessThan)

text \<open>The inside of a block holds no other block.\<close>

lemma tiling_inside:
  assumes "tiling P" "P p = Some k" "p < q" "q < p + 2 ^ k"
  shows "P q = None"
proof (rule ccontr)
  assume "P q \<noteq> None"
  then obtain l where "P q = Some l" by auto
  with tiling_apart [OF assms(1,2), of q l] assms(3,4) show False
    using zero_less_power [of "2::nat" l] by auto
qed

lemma pow2_dvd_le: "k \<le> l \<Longrightarrow> (2::nat) ^ k dvd 2 ^ l"
  by (simp add: le_imp_power_dvd)

lemma aligned_le:
  fixes n :: nat
  assumes "n dvd a" "n dvd b" "a < b + n"
  shows "a \<le> b"
proof -
  from assms(1,2) obtain i j where "a = n * i" "b = n * j" by (elim dvdE)
  with assms(3) have "n * i < n * Suc j" by simp
  then have "i \<le> j" by (simp only: mult_less_cancel1) simp
  then show ?thesis by (simp add: \<open>a = n * i\<close> \<open>b = n * j\<close>)
qed

lemma tiling_split:
  assumes "tiling P" "P p = Some (Suc k)" "MIN_ORDER \<le> k"
  shows "tiling (P(p \<mapsto> k, p + 2 ^ k \<mapsto> k))" (is "tiling ?Q")
  unfolding tiling_def
proof (intro conjI allI impI)
  note D = tilingD [OF assms(1)]
  note P = D [OF assms(2)]
  have d: "2 ^ k dvd p" by (rule dvd_trans [OF pow2_dvd_le P(3)]) simp
  fix q l assume q: "?Q q = Some l"
  then have "q = p \<and> l = k \<or> q = p + 2 ^ k \<and> l = k \<or> P q = Some l"
    by (simp split: if_splits)
  then consider "q = p" "l = k" | "q = p + 2 ^ k" "l = k" | "P q = Some l" by blast
  note c = this
  from c show "MIN_ORDER \<le> l" by cases (use assms(3) D(1) in auto)
  from c show "l \<le> 29" by cases (use P(2) D(2) in auto)
  from c show "2 ^ l dvd q" by cases (use d D(3) in auto)
  from c show "q + 2 ^ l \<le> 2 ^ 29" by cases (use P(4) D(4) in auto)
next
  fix q q' l l' assume q: "?Q q = Some l" "?Q q' = Some l'" "q \<noteq> q'"
  have A: "p + 2 ^ Suc k \<le> r \<or> r + 2 ^ j \<le> p" if "P r = Some j" "r \<noteq> p" for r j
    using tiling_apart [OF assms(1,2) that(1)] that(2) by auto
  from q A [of q l] A [of q' l'] tiling_apart [OF assms(1), of q l q' l']
  show "q + 2 ^ l \<le> q' \<or> q' + 2 ^ l' \<le> q"
    by (auto split: if_splits)
next
  fix x :: nat assume "x < 2 ^ 29"
  then obtain q l where q: "P q = Some l" "q \<le> x" "x < q + 2 ^ l"
    by (rule tiling_cover [OF assms(1)])
  show "\<exists>q l. ?Q q = Some l \<and> q \<le> x \<and> x < q + 2 ^ l"
  proof (cases "q = p")
    case True
    with q assms(2) have "p \<le> x" "x < p + 2 ^ k + 2 ^ k" by auto
    then show ?thesis
      by (cases "x < p + 2 ^ k") (force intro: exI [of _ p], force intro: exI [of _ "p + 2 ^ k"])
  next
    case False
    have "P (p + 2 ^ k) = None" by (rule tiling_inside [OF assms(1,2)]) auto
    with False q show ?thesis by (intro exI [of _ q] exI [of _ l]) auto
  qed
qed

lemma tiling_merge:
  assumes "tiling P" "P p = Some k" "P (p + 2 ^ k) = Some k" "2 ^ Suc k dvd p" "k < 29"
  shows "tiling (P(p + 2 ^ k := None, p \<mapsto> Suc k))" (is "tiling ?Q")
  unfolding tiling_def
proof (intro conjI allI impI)
  note D = tilingD [OF assms(1)]
  note P = D [OF assms(2)] D [OF assms(3)]
  fix q l assume q: "?Q q = Some l"
  then have "q = p \<and> l = Suc k \<or> P q = Some l" by (simp split: if_splits)
  then consider "q = p" "l = Suc k" | "P q = Some l" by blast
  note c = this
  from c show "MIN_ORDER \<le> l" by cases (use P(1) D(1) in auto)
  from c show "l \<le> 29" by cases (use assms(5) D(2) in auto)
  from c show "2 ^ l dvd q" by cases (use assms(4) D(3) in auto)
  from c show "q + 2 ^ l \<le> 2 ^ 29" by cases (use P(9) D(4) in auto)
next
  fix q q' l l' assume q: "?Q q = Some l" "?Q q' = Some l'" "q \<noteq> q'"
  have A: "p + 2 ^ Suc k \<le> r \<or> r + 2 ^ j \<le> p" if "P r = Some j" "r \<noteq> p" "r \<noteq> p + 2 ^ k" for r j
    using tiling_apart [OF assms(1,2) that(1)] tiling_apart [OF assms(1,3) that(1)] that
      zero_less_power [of "2::nat" j] by auto
  from q A [of q l] A [of q' l'] tiling_apart [OF assms(1), of q l q' l']
  show "q + 2 ^ l \<le> q' \<or> q' + 2 ^ l' \<le> q"
    by (auto split: if_splits)
next
  fix x :: nat assume "x < 2 ^ 29"
  then obtain q l where q: "P q = Some l" "q \<le> x" "x < q + 2 ^ l"
    by (rule tiling_cover [OF assms(1)])
  show "\<exists>q l. ?Q q = Some l \<and> q \<le> x \<and> x < q + 2 ^ l"
  proof (cases "q = p \<or> q = p + 2 ^ k")
    case True
    with q assms(2,3) show ?thesis by (intro exI [of _ p] exI [of _ "Suc k"]) auto
  next
    case False
    with q show ?thesis by (intro exI [of _ q] exI [of _ l]) auto
  qed
qed

text \<open>The position of the buddy, and that it is always the position of a block.\<close>

lemma buddy_pos:
  fixes p :: nat
  assumes "2 ^ k dvd p"
  shows "p XOR 2 ^ k = p + 2 ^ k \<and> 2 ^ Suc k dvd p \<or>
         (p XOR 2 ^ k) + 2 ^ k = p \<and> 2 ^ Suc k dvd (p XOR 2 ^ k)"
proof -
  from assms obtain q where q: "p = 2 ^ k * q" by (elim dvdE)
  have "p XOR 2 ^ k = push_bit k q XOR push_bit k (Suc 0)"
    by (simp add: q push_bit_eq_mult mult.commute)
  also have "\<dots> = push_bit k (q XOR Suc 0)" by (simp add: push_bit_xor)
  finally have x: "p XOR 2 ^ k = 2 ^ k * (q + of_bool (even q) - of_bool (odd q))"
    by (simp add: push_bit_eq_mult xor_Suc_0_eq mult.commute)
  show ?thesis
  proof (cases "even q")
    case True then show ?thesis by (simp add: x) (simp add: q)
  next
    case False
    then obtain r where "q = Suc (2 * r)" by (auto elim: oddE)
    then show ?thesis by (simp add: x) (simp add: q)
  qed
qed

lemma buddy_is_block:
  assumes "tiling P" "P p = Some k" "k < 29"
  shows "\<exists>l \<le> k. P (p XOR 2 ^ k) = Some l"
proof -
  note D = tilingD [OF assms(1,2)]
  let ?b = "p XOR 2 ^ k"
  have r: "2 ^ k dvd ?b \<and> ?b \<noteq> p \<and> ?b < 2 ^ 29 \<and>
      (\<exists>c. 2 ^ Suc k dvd c \<and> c \<le> p \<and> c \<le> ?b \<and> p < c + 2 ^ Suc k \<and> ?b < c + 2 ^ Suc k)"
    using buddy_pos [OF D(3)]
  proof (elim disjE conjE)
    assume b: "?b = p + 2 ^ k" and d: "2 ^ Suc k dvd p"
    have "\<not> 2 ^ 29 \<le> ?b"
    proof
      assume "2 ^ 29 \<le> ?b"
      with b D(4) have e: "p + 2 ^ k = 2 ^ 29" by simp
      have "2 ^ Suc k dvd (2::nat) ^ 29" using assms(3) by (intro pow2_dvd_le) simp
      with d have "(2::nat) ^ Suc k dvd 2 ^ k" using e by (metis dvd_add_right_iff)
      then show False by (auto dest: power_dvd_imp_le)
    qed
    with b d D(3) show ?thesis by (auto intro!: exI [of _ p])
  next
    assume b: "?b + 2 ^ k = p" and d: "2 ^ Suc k dvd ?b"
    then have "2 ^ k dvd ?b" using dvd_trans [OF pow2_dvd_le d, of k] by simp
    moreover have "?b < 2 ^ 29" using b D(5) by simp
    moreover have "(0::nat) < 2 ^ k" by simp
    then have "p < ?b + 2 ^ Suc k" using b unfolding power_Suc by linarith
    ultimately show ?thesis using b d by (intro conjI exI [of _ ?b]) auto
  qed
  then obtain q l where q: "P q = Some l" "q \<le> ?b" "?b < q + 2 ^ l"
    using tiling_cover [OF assms(1), of ?b] by blast
  have "l \<le> k"
  proof (rule ccontr)
    assume "\<not> l \<le> k"
    then have kl: "2 ^ Suc k dvd (2::nat) ^ l" by (intro pow2_dvd_le) simp
    from r obtain c where c: "2 ^ Suc k dvd c" "c \<le> p" "c \<le> ?b" "p < c + 2 ^ Suc k" "?b < c + 2 ^ Suc k"
      by blast
    have "2 ^ Suc k dvd q" by (rule dvd_trans [OF kl tilingD(3) [OF assms(1) q(1)]])
    moreover from this kl have "2 ^ Suc k dvd q + 2 ^ l" by simp
    ultimately have "q \<le> c" "c + 2 ^ Suc k \<le> q + 2 ^ l"
      using aligned_le [OF _ c(1), of q] aligned_le [of "2 ^ Suc k" "c + 2 ^ Suc k" "q + 2 ^ l"] c q
      by auto
    then have "q \<le> p" "p < q + 2 ^ l" using c by auto
    with tiling_apart [OF assms(1,2) q(1)] have "q = p" by (cases "q = p") auto
    with q assms(2) \<open>\<not> l \<le> k\<close> show False by simp
  qed
  moreover have "q = ?b"
  proof -
    have "2 ^ l dvd ?b" using r dvd_trans [OF pow2_dvd_le [OF \<open>l \<le> k\<close>]] by blast
    with tilingD(3) [OF assms(1) q(1)] have "2 ^ l dvd ?b - q" by (simp add: dvd_diff_nat)
    moreover have "?b - q < 2 ^ l" using q by linarith
    ultimately have "?b - q = 0" by (metis nat_dvd_not_less neq0_conv)
    with q(2) show ?thesis by simp
  qed
  ultimately show ?thesis using q(1) by blast
qed

section \<open>The invariant\<close>

text \<open>
  \<open>bd_inv m P F C\<close>: the blocks of \<open>m\<close> are those of the tiling \<open>P\<close>; the positions \<open>F\<close> are the
  members of the free lists, every one in the list of its order; the positions \<open>C\<close> are in
  flux: their headers are being rewritten and they count as neither free nor used.  Between
  two operations \<open>C\<close> is empty.
\<close>

abbreviation nxt :: "buddy_manager \<Rightarrow> addr \<Rightarrow> addr" where "nxt m a \<equiv> next (hdr m a)"

definition free_chain :: "buddy_manager \<Rightarrow> nat \<Rightarrow> nat list \<Rightarrow> bool" where
  "free_chain m k xs \<longleftrightarrow> chain (nxt m) (free_blocks m k) (map ((+) H) xs)"

definition bd_lists :: "buddy_manager \<Rightarrow> (nat \<rightharpoonup> nat) \<Rightarrow> nat set \<Rightarrow> bool" where
  "bd_lists m P F \<longleftrightarrow> (\<forall>k < 30. \<exists>xs. free_chain m k xs \<and> set xs = {p \<in> F. P p = Some k})"

definition bd_hdrs :: "buddy_manager \<Rightarrow> (nat \<rightharpoonup> nat) \<Rightarrow> nat set \<Rightarrow> nat set \<Rightarrow> bool" where
  "bd_hdrs m P F C \<longleftrightarrow> (\<forall>p k. P p = Some k \<longrightarrow> p \<notin> C \<longrightarrow>
     order (hdr m (H + p)) = k \<and> (status (hdr m (H + p)) = FREE \<longleftrightarrow> p \<in> F))"

definition used_sum :: "(nat \<rightharpoonup> nat) \<Rightarrow> nat set \<Rightarrow> nat" where
  "used_sum P F = (\<Sum>p \<in> dom P - F. 2 ^ the (P p))"

definition bd_inv :: "buddy_manager \<Rightarrow> (nat \<rightharpoonup> nat) \<Rightarrow> nat set \<Rightarrow> nat set \<Rightarrow> bool" where
  "bd_inv m P F C \<longleftrightarrow> tiling P \<and> max_order m = 29 \<and> total_mem m = 2 ^ 29 \<and>
     F \<subseteq> dom P \<and> C \<subseteq> dom P \<and> F \<inter> C = {} \<and>
     bd_hdrs m P F C \<and> bd_lists m P F \<and> used_mem m = used_sum P (F \<union> C)"

lemma bd_invD:
  assumes "bd_inv m P F C"
  shows "tiling P" "max_order m = 29" "total_mem m = 2 ^ 29" "F \<subseteq> dom P" "C \<subseteq> dom P"
    "F \<inter> C = {}" "bd_hdrs m P F C" "bd_lists m P F" "used_mem m = used_sum P (F \<union> C)"
  using assms unfolding bd_inv_def by blast+

lemma bd_hdrsD:
  "bd_hdrs m P F C \<Longrightarrow> P p = Some k \<Longrightarrow> p \<notin> C \<Longrightarrow>
   order (hdr m (H + p)) = k \<and> (status (hdr m (H + p)) = FREE \<longleftrightarrow> p \<in> F)"
  unfolding bd_hdrs_def by blast

lemma bd_listsD:
  assumes "bd_lists m P F" "k < 30"
  obtains xs where "free_chain m k xs" "set xs = {p \<in> F. P p = Some k}"
  using assms unfolding bd_lists_def by blast

lemma free_chain_cong:
  assumes "free_blocks m' k = free_blocks m k" "\<And>p. p \<in> set xs \<Longrightarrow> nxt m' (H + p) = nxt m (H + p)"
  shows "free_chain m' k xs = free_chain m k xs"
  unfolding free_chain_def assms(1) by (rule seg_cong) (use assms(2) in auto)

lemma free_chain_head:
  assumes "free_chain m k xs" and "free_blocks m k \<noteq> 0"
  obtains p ys where "free_blocks m k = H + p" "xs = p # ys"
  using assms by (cases xs) (auto simp: free_chain_def)

lemma free_chain_nil: "free_chain m k xs \<Longrightarrow> free_blocks m k = 0 \<longleftrightarrow> xs = []"
  by (cases xs) (auto simp: free_chain_def heap_constants)

text \<open>The used bytes never exceed the heap.\<close>

lemma used_sum_mono:
  assumes "tiling P" "F \<subseteq> F'"
  shows "used_sum P F' \<le> used_sum P F"
  unfolding used_sum_def by (rule sum_mono2) (use finite_tiling [OF assms(1)] assms(2) in auto)

lemma used_sum_insert:
  assumes "tiling P" "P p = Some k" "p \<notin> F"
  shows "used_sum P F = used_sum P (insert p F) + 2 ^ k"
proof -
  have "dom P - F = insert p (dom P - insert p F)" using assms by auto
  then have "used_sum P F = (\<Sum>q \<in> insert p (dom P - insert p F). 2 ^ the (P q))"
    by (simp only: used_sum_def)
  also have "\<dots> = 2 ^ k + used_sum P (insert p F)"
    by (subst sum.insert) (use finite_tiling [OF assms(1)] assms(2) in \<open>auto simp: used_sum_def\<close>)
  finally show ?thesis by simp
qed

lemma used_sum_bound:
  assumes "tiling P"
  shows "used_sum P F \<le> 2 ^ 29"
proof -
  have fin: "finite (dom P)" by (rule finite_tiling [OF assms])
  let ?B = "\<lambda>p. {p ..< p + 2 ^ the (P p)}"
  have "used_sum P F \<le> used_sum P {}" by (rule used_sum_mono [OF assms]) simp
  also have "\<dots> = (\<Sum>p \<in> dom P. card (?B p))" by (simp add: used_sum_def)
  also have "\<dots> = card (\<Union>p \<in> dom P. ?B p)"
  proof (rule card_UN_disjoint [symmetric, OF fin])
    show "\<forall>p \<in> dom P. \<forall>q \<in> dom P. p \<noteq> q \<longrightarrow> ?B p \<inter> ?B q = {}"
      using tiling_apart [OF assms] by fastforce
  qed simp
  also have "\<dots> \<le> card {..<2 ^ 29 :: nat}"
  proof (rule card_mono [OF finite_lessThan], rule UN_least)
    fix p assume "p \<in> dom P"
    then obtain k where "P p = Some k" by blast
    with tilingD(4) [OF assms this] show "?B p \<subseteq> {..<2 ^ 29}"
      by auto
  qed
  finally show ?thesis by (simp only: card_lessThan)
qed

section \<open>The steps of the operations\<close>

text \<open>Blocks in flux may be cut or joined as long as the tiling stays one.\<close>

lemma bd_inv_retile:
  assumes "bd_inv m P F C" "tiling P'" "C' \<subseteq> dom P'" "F \<inter> C' = {}"
    "\<And>p. p \<notin> C \<Longrightarrow> p \<notin> C' \<Longrightarrow> P' p = P p" "\<And>p. p \<in> C \<Longrightarrow> p \<notin> C' \<Longrightarrow> P' p = None"
    "\<And>p. p \<in> C' \<Longrightarrow> p \<notin> C \<Longrightarrow> P p = None"
  shows "bd_inv m P' F C'"
proof -
  note D = bd_invD [OF assms(1)]
  have same: "P' p = P p" if "p \<in> F" for p using that D(6) assms(4,5) by blast
  have hd: "P p = Some k \<and> p \<notin> C" if "P' p = Some k" "p \<notin> C'" for p k
    using that assms(5,6) by (metis option.distinct(1))
  have hd': "P' p = Some k \<and> p \<notin> C'" if "P p = Some k" "p \<notin> C" for p k
    using that assms(5,7) by (metis option.distinct(1))
  have dm: "dom P' - (F \<union> C') = dom P - (F \<union> C)"
  proof (rule set_eqI)
    fix x
    have "(\<exists>k. P' x = Some k) \<and> x \<notin> C' \<longleftrightarrow> (\<exists>k. P x = Some k) \<and> x \<notin> C" using hd hd' by blast
    then show "x \<in> dom P' - (F \<union> C') \<longleftrightarrow> x \<in> dom P - (F \<union> C)" by (simp add: dom_def) blast
  qed
  have "used_sum P' (F \<union> C') = used_sum P (F \<union> C)"
    unfolding used_sum_def dm by (rule sum.cong [OF refl]) (use assms(5,7) in \<open>force\<close>)
  moreover have "bd_hdrs m P' F C'" using D(7) hd unfolding bd_hdrs_def by blast
  moreover have "{p \<in> F. P' p = Some k} = {p \<in> F. P p = Some k}" for k using same by auto
  then have "bd_lists m P' F" using D(8) unfolding bd_lists_def by simp
  moreover have "F \<subseteq> dom P'" using same D(4) by (metis domIff subset_iff)
  ultimately show ?thesis using D assms(2,3,4) by (simp add: bd_inv_def)
qed

text \<open>\<^verbatim>\<open>create_block\<close> ends the flux of a block.\<close>

lemma create_block_inv:
  assumes "bd_inv m P F C" "c \<in> C" "P c = Some k"
  shows "\<exists>m'. create_block m (H + c) k = Some m' \<and> bd_inv m' P (insert c F) (C - {c}) \<and>
     free_blocks m' k = H + c"
proof -
  note D = bd_invD [OF assms(1)]
  have k: "k < 30" using tilingD(2) [OF D(1) assms(3)] by simp
  have cF: "c \<notin> F" using D(6) assms(2) by blast
  let ?m = "m\<lparr>hdr := (hdr m)(H + c := \<lparr>order = k, status = FREE, next = free_blocks m k\<rparr>),
             free_blocks := (free_blocks m)(k := H + c)\<rparr>"
  have "bd_lists ?m P (insert c F)"
    unfolding bd_lists_def
  proof (intro allI impI)
    fix j :: nat assume j: "j < 30"
    obtain xs where xs: "free_chain m j xs" "set xs = {p \<in> F. P p = Some j}"
      by (rule bd_listsD [OF D(8) j])
    then have c: "c \<notin> set xs" using cF by simp
    show "\<exists>xs. free_chain ?m j xs \<and> set xs = {p \<in> insert c F. P p = Some j}"
    proof (cases "j = k")
      case True
      have "seg (nxt ?m) (free_blocks m k) (map ((+) H) xs) 0 = seg (nxt m) (free_blocks m k) (map ((+) H) xs) 0"
        by (rule seg_cong) (use c in auto)
      then have "free_chain ?m j (c # xs)"
        using xs(1) True by (simp add: free_chain_def heap_constants)
      moreover have "set (c # xs) = {p \<in> insert c F. P p = Some j}" using xs(2) True assms(3) by auto
      ultimately show ?thesis by blast
    next
      case False
      have "nxt ?m (H + p) = nxt m (H + p)" if "p \<in> set xs" for p
        using that c by (cases "p = c") simp_all
      then have "free_chain ?m j xs = free_chain m j xs"
        by (intro free_chain_cong) (use False in simp_all)
      with xs(1) have "free_chain ?m j xs" by (simp only:)
      moreover have "set xs = {p \<in> insert c F. P p = Some j}" unfolding xs(2) using False assms(3) by fastforce
      ultimately show ?thesis by blast
    qed
  qed
  moreover have "bd_hdrs ?m P (insert c F) (C - {c})"
    using D(7) assms(3) unfolding bd_hdrs_def by auto
  moreover have "insert c F \<union> (C - {c}) = F \<union> C" using assms(2) by auto
  ultimately have "bd_inv ?m P (insert c F) (C - {c})"
    using D assms(3) unfolding bd_inv_def by auto
  then show ?thesis
    using k by (intro exI [of _ ?m]) (simp add: create_block_def free_list_def MAX_ORDER_def)
qed

text \<open>The walk of \<^verbatim>\<open>remove_block\<close> ends: at the predecessor, or at the last cell.\<close>

lemma remove_walk_found:
  assumes "chain (\<lambda>a. next (h a)) x (us @ a # b # vs)" "us @ [a] = x # ws"
  shows "remove_walk h x b = Some a"
  using assms
proof (induction us arbitrary: x ws)
  case Nil
  then show ?case by (simp add: remove_walk.simps)
next
  case (Cons u us)
  then have "distinct ((u # us) @ a # b # vs)" by (intro chain_distinct)
  moreover have x: "x = u" using Cons.prems(2) by simp
  moreover obtain y ys where y: "us @ [a] = y # ys" by (cases us) auto
  moreover have ch: "chain (\<lambda>a. next (h a)) (next (h u)) (us @ a # b # vs)" using Cons.prems(1) by simp
  moreover have "next (h u) = y" using ch y by (cases us) auto
  moreover have "y \<noteq> 0" using ch y by (cases us) auto
  moreover have "y \<noteq> b" using \<open>distinct _\<close> y by (cases us) auto
  ultimately show ?case using Cons.IH [OF _ y] by (subst remove_walk.simps) auto
qed

lemma remove_walk_missing:
  assumes "chain (\<lambda>a. next (h a)) x xs" "x \<noteq> 0" "b \<notin> set xs"
  shows "\<exists>a. remove_walk h x b = Some a \<and> next (h a) = 0"
  using assms
proof (induction xs arbitrary: x)
  case (Cons y ys)
  then show ?case
  proof (cases "next (h x) = 0")
    case True then show ?thesis by (subst remove_walk.simps) simp
  next
    case False
    then have "next (h x) \<noteq> b" using Cons.prems by (cases ys) auto
    with False Cons show ?thesis by (subst remove_walk.simps) auto
  qed
qed simp

text \<open>
  \<^verbatim>\<open>remove_block\<close> on a member of a free list puts it in flux, marked as occupied; on a block in
  flux, which is in no list, it changes nothing.
\<close>

lemma remove_block_lists:
  assumes "bd_lists m P F" "p \<in> F" "P p = Some k" "k < 30" "order (hdr m (H + p)) = k"
  shows "\<exists>m'. remove_block m (H + p) = Some m' \<and> bd_lists m' P (F - {p}) \<and>
     (\<forall>a. order (hdr m' a) = order (hdr m a)) \<and>
     (\<forall>a. status (hdr m' a) = (if a = H + p then OCCUPIED else status (hdr m a))) \<and>
     max_order m' = max_order m \<and> total_mem m' = total_mem m \<and> used_mem m' = used_mem m"
proof -
  obtain xs where xs: "free_chain m k xs" "set xs = {q \<in> F. P q = Some k}"
    by (rule bd_listsD [OF assms(1,4)])
  then have "p \<in> set xs" using assms by simp
  then obtain us vs where uv: "xs = us @ p # vs" by (auto simp: in_set_conv_decomp)
  have ch: "chain (nxt m) (free_blocks m k) (map ((+) H) us @ (H + p) # map ((+) H) vs)"
    using xs(1) by (simp add: free_chain_def uv)
  have ne: "H + p \<noteq> 0" "free_blocks m k \<noteq> 0"
    using free_chain_nil [OF xs(1)] uv by (auto simp: heap_constants)
  have dis: "distinct (us @ p # vs)"
    using chain_distinct [OF ch] by (simp add: distinct_map) blast
  have rest: "bd_lists m' P (F - {p})"
    if f: "free_chain m' k (us @ vs)" and o: "\<And>j. j \<noteq> k \<Longrightarrow> free_blocks m' j = free_blocks m j"
      and n: "\<And>q. q \<notin> set xs \<Longrightarrow> nxt m' (H + q) = nxt m (H + q)" for m'
    unfolding bd_lists_def
  proof (intro allI impI)
    fix j :: nat assume j: "j < 30"
    show "\<exists>ys. free_chain m' j ys \<and> set ys = {q \<in> F - {p}. P q = Some j}"
    proof (cases "j = k")
      case True
      then show ?thesis using f xs(2) uv dis by (intro exI [of _ "us @ vs"]) auto
    next
      case False
      obtain ys where ys: "free_chain m j ys" "set ys = {q \<in> F. P q = Some j}"
        by (rule bd_listsD [OF assms(1) j])
      have "free_chain m' j ys = free_chain m j ys"
        using False o n ys(2) xs(2) by (intro free_chain_cong) auto
      then show ?thesis using ys assms(3) False by (intro exI [of _ ys]) auto
    qed
  qed
  show ?thesis
  proof (cases us)
    case Nil
    let ?m = "m\<lparr>hdr := (hdr m)(H + p := (hdr m (H + p))\<lparr>status := OCCUPIED\<rparr>),
               free_blocks := (free_blocks m)(k := nxt m (H + p))\<rparr>"
    have hd: "free_blocks m k = H + p" and tl: "chain (nxt m) (nxt m (H + p)) (map ((+) H) vs)"
      using ch Nil by auto
    have "remove_block m (H + p) = Some ?m"
      using ne hd assms(4,5) by (simp add: remove_block_def free_list_def MAX_ORDER_def)
    moreover have nx: "nxt ?m a = nxt m a" for a by simp
    have "free_chain ?m k (us @ vs)" using tl Nil unfolding free_chain_def nx by simp
    then have "bd_lists ?m P (F - {p})" by (rule rest) auto
    ultimately show ?thesis by simp
  next
    case (Cons u us')
    then have "us \<noteq> []" by simp
    then obtain ws w where ws: "us = ws @ [w]" by (metis rev_exhaust)
    let ?m1 = "set_hdr m (H + w) ((hdr m (H + w))\<lparr>next := nxt m (H + p)\<rparr>)"
    let ?m = "set_hdr ?m1 (H + p) ((hdr ?m1 (H + p))\<lparr>status := OCCUPIED\<rparr>)"
    have ch': "chain (nxt m) (free_blocks m k) (map ((+) H) ws @ (H + w) # (H + p) # map ((+) H) vs)"
      using ch ws by simp
    have wp: "w \<noteq> p" "nxt m (H + w) = H + p" using dis ws ch' by (auto simp: chain_simps)
    have "free_blocks m k = H + u" using ch Cons by simp
    moreover have "u \<noteq> p" using dis Cons by auto
    moreover have "map ((+) H) ws @ [H + w] = (H + u) # map ((+) H) us'"
      using arg_cong [OF ws [unfolded Cons], of "map ((+) H)"] by simp
    moreover note remove_walk_found [OF ch', of "map ((+) H) us'"]
    ultimately have r: "remove_block m (H + p) = Some ?m"
      using ne assms(4,5) wp by (simp add: remove_block_def free_list_def MAX_ORDER_def Let_def)
    have nx: "nxt ?m = (nxt m)(H + w := nxt m (H + p))" using wp by (auto simp: fun_eq_iff)
    have "free_chain ?m k (us @ vs)"
      using chain_unlink [OF ch'] ws unfolding free_chain_def nx by simp
    then have "bd_lists ?m P (F - {p})" by (rule rest) (auto simp: ws uv)
    with r wp show ?thesis by simp
  qed
qed

lemma remove_block_inv:
  assumes "bd_inv m P F C" "p \<in> F" "P p = Some k"
  shows "\<exists>m'. remove_block m (H + p) = Some m' \<and> bd_inv m' P (F - {p}) (insert p C) \<and>
     (\<forall>a. order (hdr m' a) = order (hdr m a)) \<and>
     (\<forall>a. status (hdr m' a) = (if a = H + p then OCCUPIED else status (hdr m a)))"
proof -
  note D = bd_invD [OF assms(1)]
  have "p \<notin> C" using D(6) assms(2) by blast
  have "k < 30" using tilingD(2) [OF D(1) assms(3)] by simp
  moreover have "order (hdr m (H + p)) = k" using bd_hdrsD [OF D(7) assms(3) \<open>p \<notin> C\<close>] by simp
  ultimately obtain m' where m': "remove_block m (H + p) = Some m'" "bd_lists m' P (F - {p})"
    "\<forall>a. order (hdr m' a) = order (hdr m a)"
    "\<forall>a. status (hdr m' a) = (if a = H + p then OCCUPIED else status (hdr m a))"
    "max_order m' = max_order m" "total_mem m' = total_mem m" "used_mem m' = used_mem m"
    using remove_block_lists [OF D(8) assms(2,3)] by blast
  have "bd_hdrs m' P (F - {p}) (insert p C)" using D(7) m'(3,4) unfolding bd_hdrs_def by auto
  moreover have "F - {p} \<union> insert p C = F \<union> C" using assms(2) by auto
  ultimately have "bd_inv m' P (F - {p}) (insert p C)"
    using D assms(2,3) m' by (auto simp: bd_inv_def)
  with m' show ?thesis by blast
qed

lemma remove_block_flux:
  assumes "bd_inv m P F C" "c \<in> C" "order (hdr m (H + c)) = k" "k < 30"
  shows "remove_block m (H + c) = Some m"
proof -
  note D = bd_invD [OF assms(1)]
  obtain xs where xs: "free_chain m k xs" "set xs = {q \<in> F. P q = Some k}"
    by (rule bd_listsD [OF D(8) assms(4)])
  have "c \<notin> set xs" using D(6) assms(2) xs(2) by auto
  then have n: "H + c \<notin> set (map ((+) H) xs)" by auto
  have ch: "chain (nxt m) (free_blocks m k) (map ((+) H) xs)" using xs(1) by (simp add: free_chain_def)
  show ?thesis
  proof (cases "free_blocks m k = 0")
    case False
    then obtain a where "remove_walk (hdr m) (free_blocks m k) (H + c) = Some a" "nxt m a = 0"
      using remove_walk_missing [OF ch _ n] by auto
    moreover have "free_blocks m k \<noteq> H + c" using ch n False by (cases xs) auto
    ultimately show ?thesis
      using assms(3,4) False by (simp add: remove_block_def free_list_def MAX_ORDER_def)
  qed (use assms in \<open>simp add: remove_block_def free_list_def MAX_ORDER_def\<close>)
qed

text \<open>Entering and leaving the flux without a list operation: \<^verbatim>\<open>freeMemory\<close> and \<^verbatim>\<open>allocMemory\<close>.\<close>

lemma bd_inv_release:
  assumes "bd_inv m P F C" "P p = Some k" "p \<notin> F" "p \<notin> C" "order b = k" "next b = nxt m (H + p)"
  shows "bd_inv (m\<lparr>used_mem := used_mem m - 2 ^ k, hdr := (hdr m)(H + p := b)\<rparr>) P F (insert p C)"
    (is "bd_inv ?m P F _")
proof -
  note D = bd_invD [OF assms(1)]
  have "nxt ?m a = nxt m a" for a using assms(6) by simp
  then have "bd_lists ?m P F" using D(8) by (simp add: bd_lists_def free_chain_def)
  moreover have "bd_hdrs ?m P F (insert p C)" using D(7) unfolding bd_hdrs_def by auto
  moreover have "used_sum P (F \<union> C) = used_sum P (F \<union> insert p C) + 2 ^ k"
    using used_sum_insert [OF D(1) assms(2), of "F \<union> C"] assms(3,4) by simp
  ultimately show ?thesis using D assms(2,3) by (auto simp: bd_inv_def)
qed

lemma bd_inv_occupy:
  assumes "bd_inv m P F (insert p C)" "p \<notin> C" "P p = Some k" "order (hdr m (H + p)) = k"
  shows "bd_inv (m\<lparr>hdr := (hdr m)(H + p := (hdr m (H + p))\<lparr>status := OCCUPIED\<rparr>),
                   used_mem := u64 (used_mem m + 2 ^ k)\<rparr>) P F C" (is "bd_inv ?m P F _")
proof -
  note D = bd_invD [OF assms(1)]
  have pF: "p \<notin> F" using D(6) by blast
  have "nxt ?m a = nxt m a" for a by simp
  then have "bd_lists ?m P F" using D(8) by (simp add: bd_lists_def free_chain_def)
  moreover have "bd_hdrs ?m P F C"
    using D(7) assms(3,4) pF unfolding bd_hdrs_def by auto
  moreover have e: "used_sum P (F \<union> C) = used_sum P (F \<union> insert p C) + 2 ^ k"
    using used_sum_insert [OF D(1) assms(3), of "F \<union> C"] assms(2) pF by simp
  moreover have "u64 (used_mem m + 2 ^ k) = used_sum P (F \<union> C)"
    using used_sum_bound [OF D(1), of "F \<union> C"] e D(9) by (simp add: u64_small)
  ultimately show ?thesis using D by (auto simp: bd_inv_def)
qed

text \<open>The doubling loop ends at the least order that is large enough.\<close>

lemma order_loop_least:
  assumes "n \<le> 2 ^ 62" "k \<le> 62"
  shows "\<exists>K \<ge> k. order_loop k (2 ^ k) n = Some (K, 2 ^ K) \<and> n \<le> 2 ^ K \<and> (k < K \<longrightarrow> 2 ^ (K - 1) < n)"
  using assms(2)
proof (induction "62 - k" arbitrary: k)
  case 0
  then have "k = 62" by simp
  with assms(1) show ?case by (subst order_loop.simps) auto
next
  case (Suc d)
  show ?case
  proof (cases "2 ^ k < n")
    case False
    then show ?thesis by (subst order_loop.simps) auto
  next
    case True
    have "(2::nat) ^ Suc k \<le> 2 ^ 62" using Suc.hyps(2) by (intro power_increasing) auto
    then have u: "u64 (2 ^ k * 2) = 2 ^ Suc k" by (simp add: u64_small mult.commute)
    obtain K where K: "Suc k \<le> K" "order_loop (Suc k) (2 ^ Suc k) n = Some (K, 2 ^ K)" "n \<le> 2 ^ K"
      "Suc k < K \<longrightarrow> 2 ^ (K - 1) < n"
    proof -
      have "d = 62 - Suc k" "Suc k \<le> 62" using Suc.hyps(2) by auto
      from Suc.hyps(1) [OF this] that show thesis by blast
    qed
    with True have "2 ^ (K - 1) < n" by (cases "K = Suc k") auto
    with K True u show ?thesis by (subst order_loop.simps) (auto intro!: exI [of _ K])
  qed
qed

definition need_order :: "nat \<Rightarrow> nat \<Rightarrow> bool" where
  "need_order n k \<longleftrightarrow> MIN_ORDER \<le> k \<and> k \<le> 29 \<and> n + sizeof_block_t \<le> 2 ^ k \<and>
     (MIN_ORDER < k \<longrightarrow> 2 ^ (k - 1) < n + sizeof_block_t)"

lemma need_order_loop:
  assumes "n \<le> HEAP_SIZE"
  shows "\<exists>K. order_loop 1 2 (u64 (n + sizeof_block_t)) = Some (K, 2 ^ K) \<and> need_order n (max MIN_ORDER K)"
proof -
  have n: "n + 16 \<le> 2 ^ 29" using assms by (simp add: heap_constants)
  then have u: "u64 (n + sizeof_block_t) = n + sizeof_block_t"
    by (simp add: u64_small sizeof_block_t_def)
  from n obtain K where K: "order_loop 1 2 (n + sizeof_block_t) = Some (K, 2 ^ K)"
    "n + sizeof_block_t \<le> 2 ^ K" "1 < K \<longrightarrow> 2 ^ (K - 1) < n + sizeof_block_t"
    using order_loop_least [of "n + sizeof_block_t" 1] by (auto simp: sizeof_block_t_def)
  have "K \<le> 29"
  proof (rule ccontr)
    assume "\<not> K \<le> 29"
    then have "(2::nat) ^ 29 \<le> 2 ^ (K - 1)" by (intro power_increasing) auto
    moreover have "1 < K" using \<open>\<not> K \<le> 29\<close> by simp
    ultimately show False using K(3) n by (simp add: sizeof_block_t_def)
  qed
  moreover have "n + sizeof_block_t \<le> 2 ^ max MIN_ORDER K"
    by (rule order_trans [OF K(2)]) (simp add: power_increasing)
  moreover have "MIN_ORDER < max MIN_ORDER K \<longrightarrow> 2 ^ (max MIN_ORDER K - 1) < n + sizeof_block_t"
    using K(3) by (auto simp: max_def MIN_ORDER_def)
  ultimately show ?thesis using K(1) u by (auto simp: need_order_def MIN_ORDER_def)
qed

text \<open>The search for a larger block finds the least order with a free block.\<close>

lemma order_search_found: "approx \<noteq> 0 \<Longrightarrow> order_search m i approx = Some approx"
  by (simp add: order_search.simps)

lemma order_search_step:
  assumes "max_order m = 29" "i \<le> 29"
  shows "order_search m i 0 = (if free_blocks m i = 0 then order_search m (Suc i) 0
     else order_search m (Suc i) i)"
  using assms by (subst order_search.simps) (simp add: free_list_def MAX_ORDER_def)

lemma order_search_spec:
  assumes "max_order m = 29" "0 < i"
  obtains "order_search m i 0 = Some 0" "\<And>j. i \<le> j \<Longrightarrow> j \<le> 29 \<Longrightarrow> free_blocks m j = 0"
  | k where "order_search m i 0 = Some k" "i \<le> k" "k \<le> 29" "free_blocks m k \<noteq> 0"
      "\<And>j. i \<le> j \<Longrightarrow> j < k \<Longrightarrow> free_blocks m j = 0"
  using assms(2)
proof (induction "30 - i" arbitrary: i thesis)
  case 0
  then show ?case using assms(1) by (auto simp: order_search.simps)
next
  case (Suc d)
  then have i: "i \<le> 29" "d = 30 - Suc i" "0 < Suc i" by simp_all
  show ?case
  proof (cases "free_blocks m i = 0")
    case False
    then have "order_search m i 0 = Some i"
      using order_search_step [OF assms(1) i(1)] Suc.prems(3) by (simp add: order_search_found)
    from Suc.prems(2) [OF this order_refl i(1) False] show ?thesis by simp
  next
    case True
    then have s: "order_search m i 0 = order_search m (Suc i) 0"
      using order_search_step [OF assms(1) i(1)] by simp
    have e: "free_blocks m j = 0" if "i \<le> j" "Suc i \<le> j \<Longrightarrow> free_blocks m j = 0" for j
      using that True by (cases "i = j") auto
    show ?thesis
    proof (rule Suc.hyps(1) [OF i(2) _ _ i(3)])
      assume "order_search m (Suc i) 0 = Some 0" "\<And>j. Suc i \<le> j \<Longrightarrow> j \<le> 29 \<Longrightarrow> free_blocks m j = 0"
      then show thesis using Suc.prems(1) s e by simp
    next
      fix k
      assume a: "order_search m (Suc i) 0 = Some k" "Suc i \<le> k" "k \<le> 29" "free_blocks m k \<noteq> 0"
        "\<And>j. Suc i \<le> j \<Longrightarrow> j < k \<Longrightarrow> free_blocks m j = 0"
      have z: "free_blocks m j = 0" if "i \<le> j" "j < k" for j
        by (rule e [OF that(1) a(5) [OF _ that(2)]])
      from s a(1) have "order_search m i 0 = Some k" by simp
      from Suc.prems(2) [OF this Suc_leD [OF a(2)] a(3,4) z] show thesis .
    qed
  qed
qed

text \<open>Splitting the head of a list of order \<open>Suc k\<close> leaves its left half at the head of list \<open>k\<close>.\<close>

lemma split_block_inv:
  assumes "bd_inv m P F {}" "free_blocks m (Suc k) = H + p" "p \<in> F" "P p = Some (Suc k)" "MIN_ORDER \<le> k"
  shows "\<exists>m'. split_block m (Suc k) = Some m' \<and> free_blocks m' k = H + p \<and>
     bd_inv m' (P(p \<mapsto> k, p + 2 ^ k \<mapsto> k)) (insert p (insert (p + 2 ^ k) F)) {}"
proof -
  let ?q = "p + 2 ^ k" and ?P = "P(p \<mapsto> k, p + 2 ^ k \<mapsto> k)"
  have T: "tiling P" using bd_invD [OF assms(1)] by simp
  have pq: "p \<noteq> ?q" by simp
  have qP: "P ?q = None" by (rule tiling_inside [OF T assms(4)]) auto
  then have qF: "?q \<notin> F" using bd_invD(4) [OF assms(1)] by (metis domIff subset_iff)
  have k: "Suc k < 30" using tilingD(2) [OF T assms(4)] by simp
  obtain m1 where m1: "remove_block m (H + p) = Some m1" "bd_inv m1 P (F - {p}) {p}"
    using remove_block_inv [OF assms(1,3,4)] by blast
  have "bd_inv m1 ?P (F - {p}) {p, ?q}"
    by (rule bd_inv_retile [OF m1(2) tiling_split [OF T assms(4,5)]]) (use qP qF in auto)
  from create_block_inv [OF this, of ?q k] obtain m2 where
    m2: "create_block m1 (H + ?q) k = Some m2" "bd_inv m2 ?P (insert ?q (F - {p})) ({p, ?q} - {?q})"
    by auto
  from create_block_inv [OF m2(2), of p k] obtain m3 where
    m3: "create_block m2 (H + p) k = Some m3" "free_blocks m3 k = H + p"
      "bd_inv m3 ?P (insert p (insert ?q (F - {p}))) ({p, ?q} - {?q} - {p})"
    by auto
  have "{p, ?q} - {?q} - {p} = {}" "insert p (insert ?q (F - {p})) = insert p (insert ?q F)" by auto
  with m3(3) have "bd_inv m3 ?P (insert p (insert ?q F)) {}" by (simp only:)
  then show ?thesis
    using m1(1) m2(1) m3(1,2) assms(2) k
    by (simp add: split_block_def free_list_def MAX_ORDER_def add.assoc)
qed

lemma split_loop_inv:
  assumes "bd_inv m P F {}" "free_blocks m j = H + p" "p \<in> F" "P p = Some j" "MIN_ORDER \<le> k" "k \<le> j"
  shows "\<exists>m' P' F'. split_loop m j k = Some m' \<and> free_blocks m' k = H + p \<and> bd_inv m' P' F' {} \<and>
     p \<in> F' \<and> P' p = Some k \<and> (\<forall>x l. P' x = Some l \<and> x \<notin> F' \<longleftrightarrow> P x = Some l \<and> x \<notin> F)"
  using assms
proof (induction "j - k" arbitrary: m P F j)
  case 0
  then show ?case by (auto simp: split_loop.simps)
next
  case (Suc d)
  then obtain i where i: "j = Suc i" "k \<le> i" "d = i - k" by (cases j) auto
  let ?P = "P(p \<mapsto> i, p + 2 ^ i \<mapsto> i)" and ?F = "insert p (insert (p + 2 ^ i) F)"
  have T: "tiling P" using bd_invD [OF Suc.prems(1)] by simp
  have qP: "P (p + 2 ^ i) = None" using Suc.prems(4) i(1) by (intro tiling_inside [OF T]) auto
  obtain m1 where m1: "split_block m (Suc i) = Some m1" "free_blocks m1 i = H + p" "bd_inv m1 ?P ?F {}"
    using split_block_inv [of m P F i p] Suc.prems i by auto
  have "split_loop m j k = split_loop m1 i k" using m1(1) i by (subst split_loop.simps) simp
  moreover have "?P x = Some l \<and> x \<notin> ?F \<longleftrightarrow> P x = Some l \<and> x \<notin> F" for x l
    using qP Suc.prems(3) by auto
  ultimately show ?case
    using Suc.hyps(1) [OF i(3) m1(3,2) _ _ Suc.prems(5) i(2)] by auto
qed

text \<open>The heads of the free lists and the free blocks of the tiling.\<close>

lemma free_blocks_head:
  assumes "bd_inv m P F C" "k < 30" "free_blocks m k \<noteq> 0"
  obtains p where "free_blocks m k = H + p" "p \<in> F" "P p = Some k"
proof -
  obtain xs where xs: "free_chain m k xs" "set xs = {q \<in> F. P q = Some k}"
    by (rule bd_listsD [OF bd_invD(8) [OF assms(1)] assms(2)])
  from free_chain_head [OF xs(1) assms(3)] obtain p ys where "free_blocks m k = H + p" "xs = p # ys" .
  with xs(2) that show thesis by auto
qed

lemma free_blocks_null:
  assumes "bd_inv m P F C" "free_blocks m k = 0" "p \<in> F"
  shows "P p \<noteq> Some k"
proof
  assume "P p = Some k"
  then have "k < 30" using tilingD(2) [OF bd_invD(1) [OF assms(1)]] by fastforce
  then obtain xs where xs: "free_chain m k xs" "set xs = {q \<in> F. P q = Some k}"
    by (rule bd_listsD [OF bd_invD(8) [OF assms(1)]])
  with free_chain_nil [OF xs(1)] assms(2,3) \<open>P p = Some k\<close> show False by auto
qed

text \<open>The tail of \<^verbatim>\<open>allocMemory\<close>: take the head of the list.\<close>

lemma take_head:
  assumes "bd_inv m P F {}" "free_blocks m k = H + p" "p \<in> F" "P p = Some k"
  shows "\<exists>m1 m2. remove_block m (H + p) = Some m1 \<and>
    m2 = m1\<lparr>hdr := (hdr m1)(H + p := (hdr m1 (H + p))\<lparr>status := OCCUPIED\<rparr>),
           used_mem := u64 (used_mem m1 + 2 ^ k)\<rparr> \<and> bd_inv m2 P (F - {p}) {}"
proof -
  obtain m1 where m1: "remove_block m (H + p) = Some m1" "bd_inv m1 P (F - {p}) {p}"
    "order (hdr m1 (H + p)) = order (hdr m (H + p))"
    using remove_block_inv [OF assms(1,3,4)] by blast
  have "order (hdr m1 (H + p)) = k"
    using m1(3) bd_hdrsD [OF bd_invD(7) [OF assms(1)] assms(4)] by simp
  from bd_inv_occupy [OF m1(2) _ assms(4) this] m1(1) show ?thesis by auto
qed

lemma allocMemory_spec:
  assumes "bd_inv m P F {}" "0 < n" "n \<le> HEAP_SIZE"
  obtains (oom) k where "allocMemory m n = Some (0, m)" "need_order n k"
      "\<And>p l. p \<in> F \<Longrightarrow> P p = Some l \<Longrightarrow> l < k"
  | (fit) k p m' P' F' where "allocMemory m n = Some (H + p + sizeof_block_t, m')" "need_order n k"
      "bd_inv m' P' F' {}" "p \<in> F" "P' p = Some k"
      "\<And>x l. P' x = Some l \<and> x \<notin> F' \<longleftrightarrow> x = p \<and> l = k \<or> P x = Some l \<and> x \<notin> F"
      "\<exists>l \<ge> k. P p = Some l"
proof -
  obtain K where K: "order_loop 1 2 (u64 (n + sizeof_block_t)) = Some (K, 2 ^ K)" "need_order n (max MIN_ORDER K)"
    using need_order_loop [OF assms(3)] by blast
  define k where "k = max MIN_ORDER K"
  have ord: "(if K < MIN_ORDER then MIN_ORDER else K) = k" by (simp add: k_def max_def)
  have k: "need_order n k" "k < 30" "MIN_ORDER \<le> k"
    using K(2) by (auto simp: k_def [symmetric] need_order_def)
  note unf = allocMemory_def free_list_def MAX_ORDER_def K(1) [unfolded One_nat_def] ord
  have fin: thesis
    if h: "bd_inv m0 P0 F0 {}" "free_blocks m0 k = H + p" "p \<in> F0" "P0 p = Some k" "p \<in> F"
       "\<And>x l. P0 x = Some l \<and> x \<notin> F0 \<longleftrightarrow> P x = Some l \<and> x \<notin> F" "\<exists>l \<ge> k. P p = Some l"
     and a: "\<And>m1. remove_block m0 (H + p) = Some m1 \<Longrightarrow> allocMemory m n = Some (H + p + sizeof_block_t,
        m1\<lparr>hdr := (hdr m1)(H + p := (hdr m1 (H + p))\<lparr>status := OCCUPIED\<rparr>),
           used_mem := u64 (used_mem m1 + 2 ^ k)\<rparr>)" for m0 P0 F0 p
  proof -
    obtain m1 m2 where m1: "remove_block m0 (H + p) = Some m1" "bd_inv m2 P0 (F0 - {p}) {}"
      "m2 = m1\<lparr>hdr := (hdr m1)(H + p := (hdr m1 (H + p))\<lparr>status := OCCUPIED\<rparr>),
           used_mem := u64 (used_mem m1 + 2 ^ k)\<rparr>"
      using take_head [OF h(1-4)] by blast
    have "P0 x = Some l \<and> x \<notin> F0 - {p} \<longleftrightarrow> x = p \<and> l = k \<or> P x = Some l \<and> x \<notin> F" for x l
      using h(3,4,5) h(6) [of x l] by auto
    with fit [OF _ k(1) m1(2) h(5,4) _ h(7)] a [OF m1(1)] m1(3) show thesis by blast
  qed
  show thesis
  proof (cases "free_blocks m k = 0")
    case False
    obtain p where p: "free_blocks m k = H + p" "p \<in> F" "P p = Some k"
      by (rule free_blocks_head [OF assms(1) k(2) False])
    show thesis
      by (rule fin [OF assms(1) p(1,2,3,2)]) (use assms(2,3) k(2) p(1,3) in \<open>simp_all add: unf\<close>)
  next
    case True
    have mx: "max_order m = 29" using bd_invD(2) [OF assms(1)] .
    show thesis
    proof (rule order_search_spec [OF mx, of "k + 1"])
      assume a: "order_search m (k + 1) 0 = Some 0" "\<And>j. k + 1 \<le> j \<Longrightarrow> j \<le> 29 \<Longrightarrow> free_blocks m j = 0"
      have "l < k" if "p \<in> F" "P p = Some l" for p l
      proof (rule ccontr)
        assume "\<not> l < k"
        moreover have "l \<le> 29" using tilingD(2) [OF bd_invD(1) [OF assms(1)] that(2)] .
        ultimately have "free_blocks m l = 0" using a(2) [of l] True by (cases "l = k") auto
        from free_blocks_null [OF assms(1) this that(1)] that(2) show False by simp
      qed
      with oom [OF _ k(1)] a(1) True k(2) assms(2,3) show thesis by (simp add: unf)
    next
      fix j assume j: "order_search m (k + 1) 0 = Some j" "k + 1 \<le> j" "j \<le> 29" "free_blocks m j \<noteq> 0"
      then have jk: "j < 30" "k \<le> j" "j \<noteq> 0" by auto
      obtain p where p: "free_blocks m j = H + p" "p \<in> F" "P p = Some j"
        by (rule free_blocks_head [OF assms(1) jk(1) j(4)])
      from split_loop_inv [OF assms(1) p k(3) jk(2)] obtain m0 P0 F0 where
        h: "split_loop m j k = Some m0" "free_blocks m0 k = H + p" "bd_inv m0 P0 F0 {}" "p \<in> F0" "P0 p = Some k"
        "\<And>x l. P0 x = Some l \<and> x \<notin> F0 \<longleftrightarrow> P x = Some l \<and> x \<notin> F" by blast
      show thesis
        by (rule fin [OF h(3,2,4,5) p(2) h(6)])
          (use assms(2,3) k(2) True j(1) jk h p(3) in \<open>simp_all add: unf\<close>)
    qed simp
  qed
qed

text \<open>
  The merging loop ends: every round raises the order of the block in flux.  The block it
  leaves is at least as large as the one it started from, and the used blocks are the same.
\<close>

lemma merge_loop_inv:
  assumes "bd_inv m P F {p}" "P p = Some k" "order (hdr m (H + p)) = k"
  shows "\<exists>m' P' q l. merge_loop m (H + p) = Some (m', H + q) \<and> k \<le> l \<and> P' q = Some l \<and>
     order (hdr m' (H + q)) = l \<and> (\<exists>F'. bd_inv m' P' F' {q} \<and>
     (\<forall>x j. P' x = Some j \<and> x \<notin> F' \<and> x \<noteq> q \<longleftrightarrow> P x = Some j \<and> x \<notin> F \<and> x \<noteq> p))"
  using assms
proof (induction "29 - k" arbitrary: k m P F p rule: less_induct)
  case less
  note D = bd_invD [OF less.prems(1)]
  have H64: "sub64 (H + x) H = x" for x by (simp add: sub64_def)
  let ?b = "p XOR 2 ^ k"
  have stop: ?case if "merge_loop m (H + p) = Some (m, H + p)"
    using that less.prems by blast
  show ?case
  proof (cases "k < 29 \<and> status (hdr m (H + ?b)) = FREE \<and> order (hdr m (H + ?b)) = k")
    case False
    then show ?thesis
      using less.prems(3) D(2) by (intro stop, subst merge_loop.simps) (auto simp: H64 Let_def)
  next
    case True
    obtain l0 where "P ?b = Some l0" using buddy_is_block [OF D(1) less.prems(2)] True by blast
    have ak: "2 ^ k dvd p" using tilingD(3) [OF D(1) less.prems(2)] .
    note B = buddy_pos [OF ak]
    have bp: "?b \<noteq> p" using B by (metis add_cancel_right_right power_not_zero zero_neq_numeral)
    with bd_hdrsD [OF D(7) \<open>P ?b = Some l0\<close>] True
    have b: "P ?b = Some k" "?b \<in> F" using \<open>P ?b = Some l0\<close> by auto
    obtain m2 where m2: "remove_block m (H + ?b) = Some m2" "bd_inv m2 P (F - {?b}) {?b, p}"
      "\<And>a. order (hdr m2 a) = order (hdr m a)"
      using remove_block_inv [OF less.prems(1) b(2,1)] by blast
    define l where "l = (if p < ?b then p else ?b)"
    define r where "r = (if p < ?b then ?b else p)"
    have lr: "r = l + 2 ^ k" "2 ^ Suc k dvd l" "{?b, p} = {l, r}" "l \<noteq> r" "P l = Some k" "P r = Some k"
      using B bp b(1) less.prems(2) zero_less_power [of "2::nat" k] unfolding l_def r_def by auto
    let ?P = "P(r := None, l \<mapsto> Suc k)"
    have "bd_inv m2 ?P (F - {?b}) {l}"
    proof (rule bd_inv_retile [OF m2(2)])
      show "tiling ?P" using tiling_merge [OF D(1) lr(5), folded lr(1), OF lr(6,2)] True by simp
      show "(F - {?b}) \<inter> {l} = {}" using D(6) by (auto simp: l_def)
    qed (auto simp: lr(3))
    moreover define m3 where "m3 = set_hdr m2 (H + l) ((hdr m2 (H + l))\<lparr>order := order (hdr m2 (H + l)) + 1\<rparr>)"
    moreover have "nxt m3 a = nxt m2 a" for a by (simp add: m3_def)
    ultimately have m3: "bd_inv m3 ?P (F - {?b}) {l}"
      by (auto simp: bd_inv_def bd_lists_def free_chain_def bd_hdrs_def)
    have hl: "order (hdr m (H + l)) = k" using True less.prems(3) by (simp add: l_def)
    then have o3: "order (hdr m3 (H + l)) = Suc k" by (simp add: m3_def m2(3))
    have "remove_block m (H + p) = Some m"
      using remove_block_flux [OF less.prems(1) _ less.prems(3)] True by simp
    moreover have "(if p < ?b then H + p else H + ?b) = H + l" by (simp add: l_def)
    ultimately have "merge_loop m (H + p) = merge_loop m3 (H + l)"
      using True D(2) less.prems(3) m2(1)
      by (subst merge_loop.simps) (simp add: H64 Let_def m3_def)
    moreover have "?P x = Some j \<and> x \<notin> F - {?b} \<and> x \<noteq> l \<longleftrightarrow> P x = Some j \<and> x \<notin> F \<and> x \<noteq> p" for x j
      using b bp by (auto simp: l_def r_def)
    moreover from True have "29 - Suc k < 29 - k" by (elim conjE) simp
    from less.hyps [OF this m3 _ o3] obtain m' P' q i F' where
      "merge_loop m3 (H + l) = Some (m', H + q)" "Suc k \<le> i" "P' q = Some i"
      "order (hdr m' (H + q)) = i" "bd_inv m' P' F' {q}"
      "\<forall>x j. P' x = Some j \<and> x \<notin> F' \<and> x \<noteq> q \<longleftrightarrow> ?P x = Some j \<and> x \<notin> F - {?b} \<and> x \<noteq> l"
      by auto
    ultimately show ?thesis by (intro exI conjI) (auto elim: Suc_leD)
  qed
qed

lemma freeMemory_spec:
  assumes "bd_inv m P F {}" "P p = Some k" "p \<notin> F"
  obtains m' P' F' q l where "freeMemory m (H + p + sizeof_block_t) = Some m'" "bd_inv m' P' F' {}"
    "q \<in> F'" "P' q = Some l" "k \<le> l"
    "\<And>x j. P' x = Some j \<and> x \<notin> F' \<longleftrightarrow> P x = Some j \<and> x \<notin> F \<and> x \<noteq> p"
proof -
  note D = bd_invD [OF assms(1)]
  have h: "order (hdr m (H + p)) = k" "status (hdr m (H + p)) = OCCUPIED"
    using bd_hdrsD [OF D(7) assms(2)] assms(3) by (cases "status (hdr m (H + p))"; auto)+
  have s: "sub64 (H + p + sizeof_block_t) sizeof_block_t = H + p" by (simp add: sub64_def)
  have "2 ^ k \<le> used_mem m" using used_sum_insert [OF D(1) assms(2), of F] assms(3) D(9) by simp
  then have s2: "sub64 (used_mem m) (2 ^ k) = used_mem m - 2 ^ k" by (simp add: sub64_def)
  let ?m = "m\<lparr>used_mem := used_mem m - 2 ^ k, hdr := (hdr m)(H + p := (hdr m (H + p))\<lparr>status := FREE\<rparr>)\<rparr>"
  have "bd_inv ?m P F {p}"
    by (rule bd_inv_release [OF assms(1,2,3)]) (use h in simp_all)
  then obtain m1 P' F' q l where m1: "merge_loop ?m (H + p) = Some (m1, H + q)" "k \<le> l" "P' q = Some l"
    "order (hdr m1 (H + q)) = l" "bd_inv m1 P' F' {q}"
    "\<forall>x j. P' x = Some j \<and> x \<notin> F' \<and> x \<noteq> q \<longleftrightarrow> P x = Some j \<and> x \<notin> F \<and> x \<noteq> p"
    using merge_loop_inv [of ?m P F p k] assms(2) h by auto
  from create_block_inv [OF m1(5) _ m1(3)] obtain m' where
    "create_block m1 (H + q) l = Some m'" "bd_inv m' P' (insert q F') {}" by auto
  moreover from this m1 have "freeMemory m (H + p + sizeof_block_t) = Some m'"
    by (simp only: freeMemory_def s) (simp add: h s2 Let_def)
  ultimately show thesis using that m1 by blast
qed

section \<open>The buddy manager is an allocator\<close>

text \<open>
  The live allocations of a tiling: the bytes behind the header of every block that is not
  free.  A request is bounded by \<^const>\<open>HEAP_SIZE\<close>, so no client ever owns more.
\<close>

definition bd_live :: "(nat \<rightharpoonup> nat) \<Rightarrow> nat set \<Rightarrow> addr \<rightharpoonup> nat" where
  "bd_live P F a = (if H + sizeof_block_t \<le> a \<and> a - (H + sizeof_block_t) \<notin> F
     then map_option (\<lambda>k. min (2 ^ k - sizeof_block_t) HEAP_SIZE) (P (a - (H + sizeof_block_t)))
     else None)"

definition bd_rep :: "buddy_manager \<Rightarrow> (addr \<rightharpoonup> nat) \<Rightarrow> bool" where
  "bd_rep m L \<longleftrightarrow> (\<exists>P F. bd_inv m P F {} \<and> L = bd_live P F)"

lemma bd_live_Some:
  "bd_live P F a = Some n \<longleftrightarrow> (\<exists>p k. a = H + p + sizeof_block_t \<and> p \<notin> F \<and> P p = Some k \<and>
     n = min (2 ^ k - sizeof_block_t) HEAP_SIZE)"
proof -
  have "H + sizeof_block_t \<le> a \<longleftrightarrow> (\<exists>p. a = H + p + sizeof_block_t)"
    by (auto intro: exI [of _ "a - (H + sizeof_block_t)"])
  then show ?thesis by (auto simp: bd_live_def)
qed

text \<open>\<^const>\<open>bd_live\<close> depends only on the used part of the tiling.\<close>

definition live_of :: "(nat \<rightharpoonup> nat) \<Rightarrow> addr \<rightharpoonup> nat" where
  "live_of U a = (if H + sizeof_block_t \<le> a
     then map_option (\<lambda>k. min (2 ^ k - sizeof_block_t) HEAP_SIZE) (U (a - (H + sizeof_block_t))) else None)"

lemma bd_live_eq: "bd_live P F = live_of (P |` (- F))"
  by (auto simp: bd_live_def live_of_def fun_eq_iff)

lemma live_of_upd:
  "live_of (U(p := v)) =
   (live_of U)(H + p + sizeof_block_t := map_option (\<lambda>k. min (2 ^ k - sizeof_block_t) HEAP_SIZE) v)"
  by (rule ext) (auto simp: live_of_def)

lemma restrict_eqI:
  assumes "\<And>x l. P x = Some l \<and> x \<notin> F \<longleftrightarrow> U x = Some l"
  shows "P |` (- F) = U"
proof
  fix x
  have "\<And>l. (P |` (- F)) x = Some l \<longleftrightarrow> U x = Some l"
    using assms [of x] by (auto simp: restrict_map_def)
  then show "(P |` (- F)) x = U x" by (metis not_None_eq)
qed

lemma bd_live_insert:
  assumes "\<And>x l. P' x = Some l \<and> x \<notin> F' \<longleftrightarrow> x = p \<and> l = k \<or> P x = Some l \<and> x \<notin> F" "p \<in> F"
  shows "(bd_live P F)(H + p + sizeof_block_t \<mapsto> min (2 ^ k - sizeof_block_t) HEAP_SIZE) = bd_live P' F'"
proof -
  have "P' |` (- F') = (P |` (- F))(p \<mapsto> k)"
    by (rule restrict_eqI) (unfold assms(1), use assms(2) in \<open>auto simp: restrict_map_def\<close>)
  then show ?thesis by (simp add: bd_live_eq live_of_upd)
qed

lemma bd_live_delete:
  assumes "\<And>x l. P' x = Some l \<and> x \<notin> F' \<longleftrightarrow> P x = Some l \<and> x \<notin> F \<and> x \<noteq> p"
  shows "(bd_live P F)(H + p + sizeof_block_t := None) = bd_live P' F'"
proof -
  have "P' |` (- F') = (P |` (- F))(p := None)"
    by (rule restrict_eqI) (unfold assms, auto simp: restrict_map_def)
  then show ?thesis by (simp only: bd_live_eq live_of_upd option.map)
qed

lemma need_order_le:
  assumes "need_order n k" "MIN_ORDER \<le> l" "n + sizeof_block_t \<le> 2 ^ l"
  shows "k \<le> l"
proof (rule ccontr)
  assume "\<not> k \<le> l"
  then have "(2::nat) ^ l \<le> 2 ^ (k - 1)" by (intro power_increasing) auto
  moreover have "2 ^ (k - 1) < n + sizeof_block_t"
    using assms(1,2) \<open>\<not> k \<le> l\<close> by (auto simp: need_order_def)
  ultimately show False using assms(3) by linarith
qed

lemma alloc_from_free:
  assumes "bd_inv m P F {}" "q \<in> F" "P q = Some l" "0 < n" "n \<le> min (2 ^ l - sizeof_block_t) HEAP_SIZE"
  shows "\<exists>a m'. allocMemory m n = Some (a, m') \<and> a \<noteq> 0"
proof -
  note T = tilingD [OF bd_invD(1) [OF assms(1)] assms(3)]
  have n: "n \<le> HEAP_SIZE" "n + sizeof_block_t \<le> 2 ^ l" using assms(4,5) by auto
  show ?thesis
    using assms(1,4) n(1)
  proof (cases rule: allocMemory_spec)
    case (oom k)
    with need_order_le [OF oom(2) T(1) n(2)] assms(2,3) show ?thesis by fastforce
  qed (simp add: heap_constants)
qed

interpretation bd: allocator buddy_ops bd_rep
proof
  fix m L assume "bd_rep m L"
  then show "L 0 = None"
    by (auto simp: bd_rep_def bd_live_def sizeof_block_t_def)
next
  fix m L p k q l assume "bd_rep m L" "L p = Some k" "L q = Some l" "p \<noteq> q"
  then obtain P F x i y j where "bd_inv m P F {}" "p = H + x + sizeof_block_t" "P x = Some i"
    "q = H + y + sizeof_block_t" "P y = Some j" "k \<le> 2 ^ i - sizeof_block_t" "l \<le> 2 ^ j - sizeof_block_t"
    by (auto simp: bd_rep_def bd_live_Some)
  with tiling_apart [OF bd_invD(1), of m P F "{}" x i y j] \<open>p \<noteq> q\<close>
  show "p + k \<le> q \<or> q + l \<le> p" by auto
next
  fix m L and n :: nat assume "bd_rep m L" and n: "0 < n"
  then obtain P F where PF: "bd_inv m P F {}" "L = bd_live P F" by (auto simp: bd_rep_def)
  show "\<exists>p m'. mm_alloc buddy_ops m n = Some (p, m') \<and>
      (p = 0 \<and> m' = m \<or> p \<noteq> 0 \<and> L p = None \<and> (\<exists>k \<ge> n. bd_rep m' (L(p \<mapsto> k))))"
  proof (cases "n \<le> HEAP_SIZE")
    case False then show ?thesis by (simp add: buddy_ops_def allocMemory_def)
  next
    case True
    with PF(1) n show ?thesis
    proof (cases rule: allocMemory_spec)
      case (fit k p m' P' F')
      let ?a = "H + p + sizeof_block_t" and ?n = "min (2 ^ k - sizeof_block_t) HEAP_SIZE"
      have "L(?a \<mapsto> ?n) = bd_live P' F'" using bd_live_insert [OF fit(6,4)] PF(2) by simp
      then have "bd_rep m' (L(?a \<mapsto> ?n))" using fit(3) by (auto simp: bd_rep_def)
      moreover have "n \<le> ?n" using fit(2) True by (auto simp: need_order_def)
      moreover have "L ?a = None" using fit(4) PF(2) by (simp add: bd_live_def)
      moreover have "?a \<noteq> 0" by simp
      ultimately have "?a \<noteq> 0 \<and> L ?a = None \<and> (\<exists>k \<ge> n. bd_rep m' (L(?a \<mapsto> k)))" by blast
      moreover have "mm_alloc buddy_ops m n = Some (?a, m')" using fit(1) by (simp add: buddy_ops_def)
      ultimately show ?thesis by blast
    qed (simp add: buddy_ops_def)
  qed
next
  fix m L p k assume "bd_rep m L" and "L p = Some k"
  then obtain P F x i where PF: "bd_inv m P F {}" "L = bd_live P F" "p = H + x + sizeof_block_t"
    "x \<notin> F" "P x = Some i" "k = min (2 ^ i - sizeof_block_t) HEAP_SIZE"
    by (auto simp: bd_rep_def bd_live_Some)
  obtain m' P' F' q l where F: "freeMemory m (H + x + sizeof_block_t) = Some m'" "bd_inv m' P' F' {}"
    "q \<in> F'" "P' q = Some l" "i \<le> l"
    "\<And>y j. P' y = Some j \<and> y \<notin> F' \<longleftrightarrow> P y = Some j \<and> y \<notin> F \<and> y \<noteq> x"
    by (rule freeMemory_spec [OF PF(1,5,4)]) blast
  have "L(p := None) = bd_live P' F'" using bd_live_delete [OF F(6)] PF(2,3) by simp
  with F(2) have "bd_rep m' (L(p := None))" by (auto simp: bd_rep_def)
  moreover have "(2::nat) ^ i \<le> 2 ^ l" using F(5) by (simp add: power_increasing)
  then have "k \<le> min (2 ^ l - sizeof_block_t) HEAP_SIZE"
    unfolding PF(6) by (intro min.mono diff_le_mono order_refl)
  ultimately show "\<exists>m'. mm_free buddy_ops m p = Some m' \<and> bd_rep m' (L(p := None)) \<and>
        (\<forall>n. 0 < n \<longrightarrow> n \<le> k \<longrightarrow> n < 2 ^ 32 \<longrightarrow> (\<exists>q m''. mm_alloc buddy_ops m' n = Some (q, m'') \<and> q \<noteq> 0))"
    using F(1) PF(3) alloc_from_free [OF F(2-4)] by (force simp: buddy_ops_def)
next
  fix m show "mm_free buddy_ops m 0 = Some m" by (simp add: buddy_ops_def freeMemory_def)
qed

section \<open>Properties\<close>

text \<open>The state after the kernel has called \<^verbatim>\<open>createMemoryManager\<close> on a cleared BSS.\<close>

definition bd_blank :: buddy_manager where
  "bd_blank = \<lparr>max_order = 0, free_blocks = (\<lambda>_. 0), total_mem = 0, used_mem = 0,
     hdr = (\<lambda>_. \<lparr>order = 0, status = FREE, next = 0\<rparr>)\<rparr>"

definition bd_boot :: buddy_manager where
  "bd_boot = \<lparr>max_order = 29, free_blocks = (\<lambda>_. 0)(29 := H), total_mem = 2 ^ 29, used_mem = 0,
     hdr = (\<lambda>_. \<lparr>order = 0, status = FREE, next = 0\<rparr>)(H := \<lparr>order = 29, status = FREE, next = 0\<rparr>)\<rparr>"

lemma tiling_one: "tiling [0 \<mapsto> 29]"
  by (auto simp: tiling_def MIN_ORDER_def)

lemma order_loop_heap: "order_loop 0 1 HEAP_SIZE = Some (29, 2 ^ 29)"
proof -
  obtain K where K: "order_loop 0 (2 ^ 0) HEAP_SIZE = Some (K, 2 ^ K)" "HEAP_SIZE \<le> 2 ^ K"
    "0 < K \<longrightarrow> 2 ^ (K - 1) < HEAP_SIZE"
    using order_loop_least [of HEAP_SIZE 0] by (auto simp: heap_constants)
  have "\<not> K \<le> 28"
  proof
    assume "K \<le> 28"
    then have "(2::nat) ^ K \<le> 2 ^ 28" by (intro power_increasing) auto
    with K(2) show False by (simp add: heap_constants)
  qed
  moreover have "\<not> 29 < K"
  proof
    assume "29 < K"
    then have "(2::nat) ^ 29 \<le> 2 ^ (K - 1)" by (intro power_increasing) auto
    with K(3) \<open>29 < K\<close> show False by (simp add: heap_constants)
  qed
  ultimately have "K = 29" by simp
  with K(1) show ?thesis by simp
qed

lemma createMemoryManager_inv:
  "\<exists>m'. createMemoryManager H HEAP_SIZE m = Some m' \<and> bd_inv m' [0 \<mapsto> 29] {0} {}"
proof -
  let ?m = "m\<lparr>max_order := 29, total_mem := 2 ^ 29, used_mem := 0,
     free_blocks := (\<lambda>i. if i < MAX_ORDER then 0 else free_blocks m i)\<rparr>"
  have "free_chain ?m k []" if "k < 30" for k using that by (simp add: free_chain_def MAX_ORDER_def)
  then have "bd_lists ?m [0 \<mapsto> 29] {}" unfolding bd_lists_def by fastforce
  then have "bd_inv ?m [0 \<mapsto> 29] {} {0}"
    using tiling_one by (simp add: bd_inv_def bd_hdrs_def used_sum_def)
  from create_block_inv [OF this, of 0 29] show ?thesis
    by (auto simp: createMemoryManager_def order_loop_heap [unfolded One_nat_def])
qed

lemma bd_boot_create: "createMemoryManager H HEAP_SIZE bd_blank = Some bd_boot"
  by (auto simp: createMemoryManager_def order_loop_heap [unfolded One_nat_def] create_block_def free_list_def MAX_ORDER_def
      bd_blank_def bd_boot_def)

text \<open>The state after one request for the whole heap.\<close>

definition bd_whole :: buddy_manager where
  "bd_whole = bd_boot\<lparr>free_blocks := (\<lambda>_. 0), used_mem := 2 ^ 29,
     hdr := (hdr bd_boot)(H := \<lparr>order = 29, status = OCCUPIED, next = 0\<rparr>)\<rparr>"

lemma bd_whole_inv: "bd_inv bd_whole [0 \<mapsto> 29] {} {}"
proof -
  have "free_chain bd_whole k []" for k by (simp add: free_chain_def bd_whole_def)
  then have "bd_lists bd_whole [0 \<mapsto> 29] {}" unfolding bd_lists_def by fastforce
  then show ?thesis
    using tiling_one by (simp add: bd_inv_def bd_hdrs_def used_sum_def bd_whole_def bd_boot_def)
qed

lemma bd_boot_inv: "bd_inv bd_boot [0 \<mapsto> 29] {0} {}"
  using createMemoryManager_inv [of bd_blank] bd_boot_create by simp

text \<open>C1. A request for \<open>n\<close> bytes to the buddy manager, in any well-formed state, returns (its
  loops end and no access is out of bounds).  It is refused, with the state unchanged, exactly
  when no free block has the order the request needs; otherwise the block returned was free,
  has the least sufficient order not below \<^const>\<open>MIN_ORDER\<close>, is aligned to its size, and
  becomes the only new used block of a tiling in which blocks never overlap.\<close>

theorem buddy_alloc_correct:
  assumes "bd_inv m P F {}" "0 < n" "n \<le> HEAP_SIZE"
  shows "\<exists>k. need_order n k \<and>
     (if \<exists>p \<in> F. k \<le> the (P p)
      then \<exists>p m' P' F'. allocMemory m n = Some (H + p + sizeof_block_t, m') \<and> p \<in> F \<and>
        2 ^ k dvd p \<and> bd_inv m' P' F' {} \<and>
        P' |` (- F') = (P |` (- F))(p \<mapsto> k)
      else allocMemory m n = Some (0, m))"
  using assms
proof (cases rule: allocMemory_spec)
  case (oom k)
  have "\<not> (\<exists>p \<in> F. k \<le> the (P p))" using oom(3) bd_invD(4) [OF assms(1)] by fastforce
  with oom show ?thesis by auto
next
  case (fit k p m' P' F')
  have r: "P' |` (- F') = (P |` (- F))(p \<mapsto> k)"
    by (rule restrict_eqI) (unfold fit(6), use fit(4) in \<open>auto simp: restrict_map_def\<close>)
  have "\<exists>q \<in> F. k \<le> the (P q)" using fit(4,7) by (metis option.sel)
  with fit r tilingD(3) [OF bd_invD(1) [OF fit(3)] fit(5)] show ?thesis by (intro exI [of _ k]) auto
qed

theorem buddy_alloc_correct_witness:
  "\<exists>k. need_order 100 k \<and>
     (if \<exists>p \<in> {0::nat}. k \<le> the ([0 \<mapsto> 29] p)
      then \<exists>p m' P' F'. allocMemory bd_boot 100 = Some (H + p + sizeof_block_t, m') \<and> p \<in> {0} \<and>
        2 ^ k dvd p \<and> bd_inv m' P' F' {} \<and>
        P' |` (- F') = ([0 \<mapsto> 29] |` (- {0}))(p \<mapsto> k)
      else allocMemory bd_boot 100 = Some (0, bd_boot))"
  by (rule buddy_alloc_correct [OF bd_boot_inv]) (simp_all add: heap_constants)

text \<open>C2. Releasing a used block of the buddy manager returns (the merging loop and every list
  walk end), removes exactly that block from the used ones, leaves a free block at least as
  large as the one released, and makes any request that fitted in the released block succeed.\<close>

theorem buddy_free_correct:
  assumes "bd_inv m P F {}" "P p = Some k" "p \<notin> F"
  shows "\<exists>m' P' F'. freeMemory m (H + p + sizeof_block_t) = Some m' \<and> bd_inv m' P' F' {} \<and>
     P' |` (- F') = (P |` (- F))(p := None) \<and> (\<exists>q \<in> F'. k \<le> the (P' q)) \<and>
     (\<forall>n. 0 < n \<and> n \<le> min (2 ^ k - sizeof_block_t) HEAP_SIZE \<longrightarrow>
        (\<exists>a m''. allocMemory m' n = Some (a, m'') \<and> a \<noteq> 0))"
proof -
  obtain m' P' F' q l where F: "freeMemory m (H + p + sizeof_block_t) = Some m'" "bd_inv m' P' F' {}"
    "q \<in> F'" "P' q = Some l" "k \<le> l"
    "\<And>y j. P' y = Some j \<and> y \<notin> F' \<longleftrightarrow> P y = Some j \<and> y \<notin> F \<and> y \<noteq> p"
    by (rule freeMemory_spec [OF assms]) blast
  have "P' |` (- F') = (P |` (- F))(p := None)"
    by (rule restrict_eqI) (unfold F(6), auto simp: restrict_map_def)
  moreover have "(2::nat) ^ k \<le> 2 ^ l" using F(5) by (simp add: power_increasing)
  then have "n \<le> min (2 ^ l - sizeof_block_t) HEAP_SIZE"
    if "n \<le> min (2 ^ k - sizeof_block_t) HEAP_SIZE" for n
    using that by (elim order_trans) (intro min.mono diff_le_mono order_refl)
  then have "\<forall>n. 0 < n \<and> n \<le> min (2 ^ k - sizeof_block_t) HEAP_SIZE \<longrightarrow>
        (\<exists>a m''. allocMemory m' n = Some (a, m'') \<and> a \<noteq> 0)"
    using alloc_from_free [OF F(2-4)] by blast
  moreover have "\<exists>q \<in> F'. k \<le> the (P' q)" using F(3,4,5) by (metis option.sel)
  ultimately show ?thesis using F(1,2) by blast
qed

theorem buddy_free_correct_witness:
  "\<exists>m' P' F'. freeMemory bd_whole (H + 0 + sizeof_block_t) = Some m' \<and> bd_inv m' P' F' {} \<and>
     P' |` (- F') = ([0 \<mapsto> 29] |` (- {}))(0 := None) \<and> (\<exists>q \<in> F'. 29 \<le> the (P' q)) \<and>
     (\<forall>n. 0 < n \<and> n \<le> min (2 ^ 29 - sizeof_block_t) HEAP_SIZE \<longrightarrow>
        (\<exists>a m''. allocMemory m' n = Some (a, m'') \<and> a \<noteq> 0))"
  by (rule buddy_free_correct [OF bd_whole_inv]) simp_all

text \<open>The initialisation of the buddy manager leaves one free block of order 29 and nothing
  used, whatever the BSS held, so every request the guard of \<^verbatim>\<open>allocMemory\<close> lets through
  is served by the fresh manager.\<close>

theorem buddy_init_serves:
  "\<exists>m'. createMemoryManager HEAP_START_ADDRESS HEAP_SIZE m = Some m' \<and>
     bd_inv m' [0 \<mapsto> 29] {0} {} \<and> used_mem m' = 0 \<and>
     (\<forall>n. 0 < n \<and> n \<le> HEAP_SIZE \<longrightarrow> (\<exists>a m''. allocMemory m' n = Some (a, m'') \<and> a \<noteq> 0))"
proof -
  obtain m' where m': "createMemoryManager H HEAP_SIZE m = Some m'" "bd_inv m' [0 \<mapsto> 29] {0} {}"
    using createMemoryManager_inv by blast
  have "used_mem m' = 0" using bd_invD(9) [OF m'(2)] by (simp add: used_sum_def)
  moreover have "HEAP_SIZE \<le> 2 ^ 29 - sizeof_block_t" by (simp add: heap_constants sizeof_block_t_def)
  then have "\<forall>n. 0 < n \<and> n \<le> HEAP_SIZE \<longrightarrow> (\<exists>a m''. allocMemory m' n = Some (a, m'') \<and> a \<noteq> 0)"
    using alloc_from_free [OF m'(2), of 0 29] by simp
  ultimately show ?thesis using m' by blast
qed

theorem buddy_init_serves_witness:
  "\<exists>m'. createMemoryManager HEAP_START_ADDRESS HEAP_SIZE bd_blank = Some m' \<and>
     bd_inv m' [0 \<mapsto> 29] {0} {} \<and> used_mem m' = 0 \<and>
     (\<forall>n. 0 < n \<and> n \<le> HEAP_SIZE \<longrightarrow> (\<exists>a m''. allocMemory m' n = Some (a, m'') \<and> a \<noteq> 0))"
  by (rule buddy_init_serves [of bd_blank])

text \<open>The buddy manager rounds the heap up to a power of two: it manages \<^term>\<open>2 ^ 29\<close>
  bytes from \<^const>\<open>HEAP_START_ADDRESS\<close> on, and the first request for \<^const>\<open>HEAP_SIZE\<close> bytes is
  granted with an area that ends behind \<^const>\<open>HEAP_END_ADDRESS\<close>, the end of the physical memory.\<close>

theorem buddy_heap_overrun:
  "createMemoryManager HEAP_START_ADDRESS HEAP_SIZE bd_blank = Some bd_boot \<and>
   allocMemory bd_boot HEAP_SIZE = Some (H + sizeof_block_t, bd_whole) \<and>
   HEAP_END_ADDRESS < H + sizeof_block_t + HEAP_SIZE - 1 \<and> HEAP_END_ADDRESS + 1 < H + total_mem bd_boot"
proof -
  obtain K where K: "order_loop (Suc 0) 2 (u64 (HEAP_SIZE + sizeof_block_t)) = Some (K, 2 ^ K)"
    "need_order HEAP_SIZE (max MIN_ORDER K)"
    using need_order_loop [OF order_refl] by auto
  have "(2::nat) ^ max MIN_ORDER K \<le> 2 ^ 28" if "max MIN_ORDER K \<le> 28"
    using that by (intro power_increasing) auto
  then have "29 \<le> max MIN_ORDER K"
    using K(2) by (cases "max MIN_ORDER K \<le> 28") (auto simp: need_order_def heap_constants sizeof_block_t_def)
  then have "K = 29" using K(2) by (auto simp: need_order_def MIN_ORDER_def max_def split: if_splits)
  with K(1) have "allocMemory bd_boot HEAP_SIZE = Some (H + sizeof_block_t, bd_whole)"
    by (simp add: allocMemory_def free_list_def MAX_ORDER_def MIN_ORDER_def bd_boot_def bd_whole_def
        remove_block_def u64_def heap_constants fun_upd_idem)
  then show ?thesis
    using bd_boot_create by (simp add: heap_constants sizeof_block_t_def bd_boot_def)
qed

end
