(* ===== verification/Example_State.thy ===== *)
theory Example_State
  imports Process_Manager Buddy_MM
begin

text \<open>
  A concrete state of the kernel under the buddy manager, at which the witnesses of the
  properties evaluate.  The heap is cut into sixteen blocks of order 25, all of them used,
  so the memory is exhausted; the queues, the process manager and the processes 0 (idle), 1,
  2 (ready) and 3 (blocked) live in the first ones.
\<close>

definition slot :: "nat \<Rightarrow> addr" where "slot i = 6291472 + i * 33554432"

definition ex_tiling :: "nat \<rightharpoonup> nat" where
  "ex_tiling p = (if 33554432 dvd p \<and> p < 536870912 then Some 25 else None)"

definition ex_mm :: buddy_manager where
  "ex_mm = \<lparr>max_order = 29, free_blocks = (\<lambda>_. 0), total_mem = 2 ^ 29, used_mem = 2 ^ 29,
     hdr = (\<lambda>_. \<lparr>order = 25, status = OCCUPIED, next = 0\<rparr>)\<rparr>"

lemma ex_tiling_Some: "ex_tiling p = Some k \<longleftrightarrow> k = 25 \<and> (\<exists>i < 16. p = i * 33554432)"
proof -
  have "33554432 dvd p \<and> p < 536870912 \<longleftrightarrow> (\<exists>i < 16. p = i * 33554432)"
  proof
    assume a: "33554432 dvd p \<and> p < 536870912"
    then obtain i where "p = 33554432 * i" by (elim conjE dvdE)
    with a show "\<exists>i < 16. p = i * 33554432" by (intro exI [of _ i]) auto
  qed auto
  then show ?thesis by (auto simp: ex_tiling_def)
qed

lemma ex_tiling_ok: "tiling ex_tiling"
  unfolding tiling_def
proof (intro conjI allI impI)
  fix p k assume "ex_tiling p = Some k"
  then obtain i where i: "k = 25" "i < 16" "p = i * 33554432" by (auto simp: ex_tiling_Some)
  then show "MIN_ORDER \<le> k" "k \<le> 29" "2 ^ k dvd p" "p + 2 ^ k \<le> 2 ^ 29" by (simp_all add: MIN_ORDER_def)
next
  fix p q k l assume "ex_tiling p = Some k" "ex_tiling q = Some l" "p \<noteq> q"
  then obtain i j where "k = 25" "l = 25" "p = i * 33554432" "q = j * 33554432" "i \<noteq> j"
    by (auto simp: ex_tiling_Some)
  then show "p + 2 ^ k \<le> q \<or> q + 2 ^ l \<le> p" by (cases "i < j") auto
next
  fix x :: nat assume x: "x < 2 ^ 29"
  let ?i = "x div 33554432"
  have "?i < 16" using x by (simp add: div_less_iff_less_mult)
  then have "ex_tiling (?i * 33554432) = Some 25" by (auto simp: ex_tiling_Some)
  moreover have "x = ?i * 33554432 + x mod 33554432" by (rule div_mult_mod_eq [symmetric])
  moreover have "x mod 33554432 < 33554432" by (rule mod_less_divisor) simp
  ultimately have "?i * 33554432 \<le> x" "x < ?i * 33554432 + 33554432" "ex_tiling (?i * 33554432) = Some 25"
    by linarith+
  then show "\<exists>p k. ex_tiling p = Some k \<and> p \<le> x \<and> x < p + 2 ^ k"
    by (intro exI [of _ "?i * 33554432"] exI [of _ 25]) simp
qed

lemma ex_mm_inv: "bd_inv ex_mm ex_tiling {} {}"
proof -
  have d: "dom ex_tiling = (\<lambda>i. i * 33554432) ` {..<16}" by (auto simp: ex_tiling_Some dom_def)
  have "ex_tiling (i * 33554432) = Some 25" if "i < 16" for i using that by (auto simp: ex_tiling_Some)
  then have "used_sum ex_tiling {} = (\<Sum>p \<in> dom ex_tiling. 33554432)"
    unfolding used_sum_def d by (intro sum.cong) auto
  also have "\<dots> = 536870912"
    unfolding d by (subst sum.reindex) (auto simp: inj_on_def)
  finally have u: "used_sum ex_tiling {} = 536870912" .
  have "free_chain ex_mm k []" for k by (simp add: free_chain_def ex_mm_def)
  then have "bd_lists ex_mm ex_tiling {}" unfolding bd_lists_def by fastforce
  then show ?thesis
    using ex_tiling_ok u by (auto simp: bd_inv_def bd_hdrs_def ex_mm_def ex_tiling_Some)
qed

lemma ex_live: "i < 16 \<Longrightarrow> bd_live ex_tiling {} (slot i) = Some 33554416"
  unfolding bd_live_Some
  by (intro exI [of _ "i * 33554432"] exI [of _ 25])
    (auto simp: slot_def heap_constants sizeof_block_t_def ex_tiling_Some)

section \<open>The queues and the process table\<close>

definition pcb_of :: "int \<Rightarrow> State \<Rightarrow> PCB" where
  "pcb_of n st = \<lparr>pid = n, parentPid = 1, waitingForPid = -1, priority = 1, state = st, rsp = 0,
     base = 8192, entryPoint = 0, retValue = 0, foreground = 1, stdin = -1, stdout = 1,
     children_sem = -1, children_count = 0, name = replicate 32 (CHR 0x00)\<rparr>"

definition ex_heap :: "buddy_manager qheap" where
  "ex_heap = \<lparr>mm = ex_mm,
     nodes = (\<lambda>_. \<lparr>node_data = 0, node_next = 0\<rparr>)
       (slot 8 := \<lparr>node_data = slot 5, node_next = slot 9\<rparr>,
        slot 9 := \<lparr>node_data = slot 6, node_next = 0\<rparr>,
        slot 10 := \<lparr>node_data = slot 7, node_next = 0\<rparr>),
     queues = (\<lambda>_. \<lparr>front = 0, rear = 0, qsize = 0\<rparr>)
       (slot 0 := \<lparr>front = slot 8, rear = slot 9, qsize = 2\<rparr>,
        slot 1 := \<lparr>front = slot 10, rear = slot 10, qsize = 1\<rparr>),
     ptrs = (\<lambda>_. 0)\<rparr>"

definition ex_pheap :: "buddy_manager pheap" where
  "ex_pheap = \<lparr>qh = ex_heap,
     pcbs = (\<lambda>_. pcb_of (-1) READY)
       (slot 5 := pcb_of 1 RUNNING, 
        slot 6 := (pcb_of 2 READY)\<lparr>foreground := 0, base := slot 13 + 4096\<rparr>, slot 7 := pcb_of 3 BLOCKED, slot 12 := pcb_of 0 READY),
     pms = (\<lambda>_. \<lparr>foregroundProcess = 0, currentProcess = slot 5, readyQueue = slot 0, blockedQueue = slot 1,
       blockedQueueBySem = slot 2, zombieQueue = slot 3, idleProcess = slot 12, lock = 0\<rparr>)\<rparr>"

definition ex_A :: "addr \<rightharpoonup> addr list" where
  "ex_A = [slot 0 \<mapsto> [slot 5, slot 6], slot 1 \<mapsto> [slot 7], slot 2 \<mapsto> [], slot 3 \<mapsto> [], slot 11 \<mapsto> [],
     slot 14 \<mapsto> [], slot 15 \<mapsto> []]"

definition ex_X :: "addr \<rightharpoonup> nat" where
  "ex_X = [slot 4 \<mapsto> sizeof_PM, slot 5 \<mapsto> sizeof_PCB, slot 6 \<mapsto> sizeof_PCB, slot 7 \<mapsto> sizeof_PCB,
     slot 12 \<mapsto> sizeof_PCB, slot 13 \<mapsto> 4096]"

definition ex_l :: ptable where
  "ex_l = (\<lambda>_. [])(QReady := [slot 5, slot 6], QBlocked := [slot 7])"

definition ex_ns :: "addr \<Rightarrow> addr list" where
  "ex_ns = (\<lambda>_. [])(slot 0 := [slot 8, slot 9], slot 1 := [slot 10])"

lemma slot_inj [simp]: "slot i = slot j \<longleftrightarrow> i = j"
  by (simp add: slot_def)

lemma slot_nonzero [simp]: "slot i \<noteq> 0" "0 < slot i"
  by (simp_all add: slot_def)

lemma ex_owns: "owns (bd_live ex_tiling {}) ex_A ex_X ex_ns"
proof -
  have A: "dom ex_A = {slot 0, slot 1, slot 2, slot 3, slot 11, slot 14, slot 15}" by (auto simp: ex_A_def split: if_splits)
  have X: "dom ex_X = {slot 4, slot 5, slot 6, slot 7, slot 12, slot 13}" by (auto simp: ex_X_def split: if_splits)
  have "\<exists>l \<ge> k. bd_live ex_tiling {} x = Some l" if "ex_X x = Some k" for x k
    using that by (auto simp: ex_X_def ex_live sizeof_PM_def sizeof_PCB_def split: if_splits)
  then show ?thesis
    unfolding owns_def A X by (simp add: ex_ns_def ex_live queue_sizes)
qed

lemma ex_kq: "kq bd_rep ex_heap ex_A ex_X"
proof (rule kqI [where rep = bd_rep and h = ex_heap, OF _ ex_owns])
  show "bd_rep (mm ex_heap) (bd_live ex_tiling {})"
    using ex_mm_inv by (auto simp: bd_rep_def ex_heap_def)
  fix q xs assume "ex_A q = Some xs"
  then show "queue_at ex_heap q (ex_ns q) xs"
    by (auto simp: ex_A_def queue_at_def ex_heap_def ex_ns_def split: if_splits)
qed

lemma ex_pm_inv: "pm_inv bd_rep ex_pheap (slot 4) ex_A ex_X ex_l"
proof -
  have m: "members ex_l = {slot 5, slot 6, slot 7}"
    by (auto simp: ex_l_def split: if_splits)
  have "inj (qaddr (pms ex_pheap (slot 4)))"
  proof (rule injI)
    fix c d assume "qaddr (pms ex_pheap (slot 4)) c = qaddr (pms ex_pheap (slot 4)) d"
    then show "c = d" by (cases c; cases d) (simp_all add: ex_pheap_def)
  qed
  moreover have "ex_A (qaddr (pms ex_pheap (slot 4)) c) = Some (ex_l c)" for c
    by (cases c) (simp_all add: ex_pheap_def ex_A_def ex_l_def)
  moreover have "pt_ok (pcbs ex_pheap) ex_l"
    unfolding pt_ok_def m by (auto simp: ex_pheap_def ex_l_def pcb_of_def)
  ultimately show ?thesis
    using ex_kq unfolding pm_inv_def m by (simp add: ex_pheap_def ex_X_def)
qed

end
