(* ===== verification/Process_Properties.thy ===== *)
theory Process_Properties
  imports Example_State
begin

text \<open>
  The properties of the queues and of the process manager.  They hold for every memory
  manager that keeps the contract \<open>allocator\<close>; the witnesses take the buddy manager.
\<close>

section \<open>Queues\<close>

text \<open>C4. Refinement: a queue of the kernel is a list.  \<^verbatim>\<open>enqueue\<close> appends or, without memory,
  returns -1 and changes nothing; \<^verbatim>\<open>dequeue\<close> takes the head or, on the empty queue, returns
  \<^verbatim>\<open>NULL\<close>; the size, emptiness and peek functions read the list.  All other queues and
  allocations are untouched, and none of the operations faults.\<close>

theorem queue_refines_list:
  assumes "allocator ops rep" "kq rep h A X" "A q = Some xs"
  shows "(\<exists>r h'. enqueue ops h q d = Some (r, h') \<and>
       (r = 0 \<and> kq rep h' (A(q \<mapsto> xs @ [d])) X \<or> r = -1 \<and> h' = h \<and> \<not> node_ready ops h)) \<and>
     (case xs of [] \<Rightarrow> dequeue ops h q = Some (0, h)
      | x # ys \<Rightarrow> \<exists>h'. dequeue ops h q = Some (x, h') \<and> kq rep h' (A(q \<mapsto> ys)) X) \<and>
     queueSize h q = int (length xs) \<and> isQueueEmpty h q = (xs = []) \<and>
     peekQueue h q = (if xs = [] then 0 else hd xs)"
proof (intro conjI)
  show "\<exists>r h'. enqueue ops h q d = Some (r, h') \<and>
       (r = 0 \<and> kq rep h' (A(q \<mapsto> xs @ [d])) X \<or> r = -1 \<and> h' = h \<and> \<not> node_ready ops h)"
    using allocator.enqueue_law [OF assms, of d] by blast
  show "case xs of [] \<Rightarrow> dequeue ops h q = Some (0, h)
      | x # ys \<Rightarrow> \<exists>h'. dequeue ops h q = Some (x, h') \<and> kq rep h' (A(q \<mapsto> ys)) X"
    using allocator.dequeue_empty [OF assms(1,2), of q] allocator.dequeue_law [OF assms(1,2), of q] assms(3)
    by (cases xs) (simp, fastforce)
qed (use allocator.size_law [OF assms] in simp_all)

theorem queue_refines_list_witness:
  "(\<exists>r h'. enqueue buddy_ops ex_heap (slot 0) 4096 = Some (r, h') \<and>
       (r = 0 \<and> kq bd_rep h' (ex_A(slot 0 \<mapsto> [slot 5, slot 6] @ [4096])) ex_X \<or>
        r = -1 \<and> h' = ex_heap \<and> \<not> node_ready buddy_ops ex_heap)) \<and>
     (case [slot 5, slot 6] of [] \<Rightarrow> dequeue buddy_ops ex_heap (slot 0) = Some (0, ex_heap)
      | x # ys \<Rightarrow> \<exists>h'. dequeue buddy_ops ex_heap (slot 0) = Some (x, h') \<and> kq bd_rep h' (ex_A(slot 0 \<mapsto> ys)) ex_X) \<and>
     queueSize ex_heap (slot 0) = int (length [slot 5, slot 6]) \<and>
     isQueueEmpty ex_heap (slot 0) = ([slot 5, slot 6] = []) \<and>
     peekQueue ex_heap (slot 0) = (if [slot 5, slot 6] = [] then 0 else hd [slot 5, slot 6])"
  by (rule queue_refines_list [OF bd.allocator_axioms ex_kq]) (simp add: ex_A_def)

text \<open>\<^verbatim>\<open>containsQueue\<close> and \<^verbatim>\<open>remove\<close> work on the first element the comparison accepts: the
  former returns it, the latter unlinks exactly it (first, middle or last) and releases its
  cell, after which an \<^verbatim>\<open>enqueue\<close> is certain to find memory.  Without a match both return
  \<^verbatim>\<open>NULL\<close> and nothing changes.\<close>

theorem queue_search:
  assumes "allocator ops rep" "kq rep h A X" "A q = Some xs"
  shows "case find (\<lambda>x. c x key = 0) xs of
      None \<Rightarrow> containsQueue h q key (Some c) = Some 0 \<and> remove_q ops h q key (Some c) = Some (0, h)
    | Some x \<Rightarrow> containsQueue h q key (Some c) = Some x \<and>
        (\<exists>h'. remove_q ops h q key (Some c) = Some (x, h') \<and> node_ready ops h' \<and>
           kq rep h' (A(q \<mapsto> remove_first (\<lambda>x. c x key = 0) xs)) X)"
  using allocator.contains_law [OF assms, of key c] allocator.remove_none [OF assms, of c key]
    allocator.remove_law [OF assms, of c key]
  by (auto split: option.splits)

theorem queue_search_witness:
  "case find (\<lambda>x. hasPid (pcbs ex_pheap) x 2 = 0) [slot 5, slot 6] of
      None \<Rightarrow> containsQueue ex_heap (slot 0) 2 (Some (hasPid (pcbs ex_pheap))) = Some 0 \<and>
        remove_q buddy_ops ex_heap (slot 0) 2 (Some (hasPid (pcbs ex_pheap))) = Some (0, ex_heap)
    | Some x \<Rightarrow> containsQueue ex_heap (slot 0) 2 (Some (hasPid (pcbs ex_pheap))) = Some x \<and>
        (\<exists>h'. remove_q buddy_ops ex_heap (slot 0) 2 (Some (hasPid (pcbs ex_pheap))) = Some (x, h') \<and>
           node_ready buddy_ops h' \<and>
           kq bd_rep h' (ex_A(slot 0 \<mapsto> remove_first (\<lambda>x. hasPid (pcbs ex_pheap) x 2 = 0) [slot 5, slot 6])) ex_X)"
  by (rule queue_search [OF bd.allocator_axioms ex_kq]) (simp add: ex_A_def)

section \<open>The process manager\<close>

text \<open>Blocking, by request or by a semaphore, moves a ready process to the end of the
  blocked queue and marks it BLOCKED; a process that is not ready is refused with -1 and the
  state is unchanged.  The move never fails, even when the memory is exhausted, so no process
  is lost, and every process stays in exactly one queue.\<close>

theorem process_block_correct:
  assumes "allocator ops rep" "pm_inv rep k pm A X l"
  shows "case find (pid_match k key) (l QReady) of
      None \<Rightarrow> blockProcessQueue ops k pm key = Some (-1, k) \<and> blockProcessQueueBySem ops k pm key = Some (-1, k)
    | Some x \<Rightarrow> (\<exists>k'. blockProcessQueue ops k pm key = Some (0, k') \<and>
          moved rep k pm A X l key QReady QBlocked BLOCKED x k') \<and>
        (\<exists>k'. blockProcessQueueBySem ops k pm key = Some (0, k') \<and>
          moved rep k pm A X l key QReady QSem BLOCKED x k')"
  using allocator.blockProcessQueue_law [OF assms, of key] allocator.blockProcessQueueBySem_law [OF assms, of key]
  by (simp split: option.splits)

theorem process_block_correct_witness:
  "case find (pid_match ex_pheap 2) (ex_l QReady) of
      None \<Rightarrow> blockProcessQueue buddy_ops ex_pheap (slot 4) 2 = Some (-1, ex_pheap) \<and>
        blockProcessQueueBySem buddy_ops ex_pheap (slot 4) 2 = Some (-1, ex_pheap)
    | Some x \<Rightarrow> (\<exists>k'. blockProcessQueue buddy_ops ex_pheap (slot 4) 2 = Some (0, k') \<and>
          moved bd_rep ex_pheap (slot 4) ex_A ex_X ex_l 2 QReady QBlocked BLOCKED x k') \<and>
        (\<exists>k'. blockProcessQueueBySem buddy_ops ex_pheap (slot 4) 2 = Some (0, k') \<and>
          moved bd_rep ex_pheap (slot 4) ex_A ex_X ex_l 2 QReady QSem BLOCKED x k')"
  by (rule process_block_correct [OF bd.allocator_axioms ex_pm_inv])

text \<open>Unblocking is symmetric: a process of the blocked queue (of the semaphore queue) goes to
  the end of the ready queue in state READY; any other pid is refused with -1.\<close>

theorem process_unblock_correct:
  assumes "allocator ops rep" "pm_inv rep k pm A X l"
  shows "(case find (pid_match k key) (l QBlocked) of
        None \<Rightarrow> unblockProcessQueue ops k pm key = Some (-1, k)
      | Some x \<Rightarrow> \<exists>k'. unblockProcessQueue ops k pm key = Some (0, k') \<and>
          moved rep k pm A X l key QBlocked QReady READY x k') \<and>
     (case find (pid_match k key) (l QSem) of
        None \<Rightarrow> unblockProcessQueueBySem ops k pm key = Some (-1, k)
      | Some x \<Rightarrow> \<exists>k'. unblockProcessQueueBySem ops k pm key = Some (0, k') \<and>
          moved rep k pm A X l key QSem QReady READY x k')"
  using allocator.unblockProcessQueue_law [OF assms, of key]
    allocator.unblockProcessQueueBySem_law [OF assms, of key] by blast

theorem process_unblock_correct_witness:
  "(case find (pid_match ex_pheap 3) (ex_l QBlocked) of
        None \<Rightarrow> unblockProcessQueue buddy_ops ex_pheap (slot 4) 3 = Some (-1, ex_pheap)
      | Some x \<Rightarrow> \<exists>k'. unblockProcessQueue buddy_ops ex_pheap (slot 4) 3 = Some (0, k') \<and>
          moved bd_rep ex_pheap (slot 4) ex_A ex_X ex_l 3 QBlocked QReady READY x k') \<and>
     (case find (pid_match ex_pheap 3) (ex_l QSem) of
        None \<Rightarrow> unblockProcessQueueBySem buddy_ops ex_pheap (slot 4) 3 = Some (-1, ex_pheap)
      | Some x \<Rightarrow> \<exists>k'. unblockProcessQueueBySem buddy_ops ex_pheap (slot 4) 3 = Some (0, k') \<and>
          moved bd_rep ex_pheap (slot 4) ex_A ex_X ex_l 3 QSem QReady READY x k')"
  by (rule process_unblock_correct [OF bd.allocator_axioms ex_pm_inv])

text \<open>A number of consecutive choices of the scheduler.\<close>

primrec next_n :: "'m mm_ops \<Rightarrow> nat \<Rightarrow> 'm pheap \<Rightarrow> addr \<Rightarrow> (addr list \<times> 'm pheap) option" where
  "next_n ops 0 k pm = Some ([], k)"
| "next_n ops (Suc n) k pm = do {
     (x, k1) \<leftarrow> getNextProcess ops k pm;
     (xs, k2) \<leftarrow> next_n ops n k1 pm;
     Some (x # xs, k2)
   }"

lemma next_n_law:
  assumes "allocator ops rep" "pm_inv rep k pm A X l" "n \<le> length (l QReady)"
  shows "\<exists>k' A'. next_n ops n k pm = Some (take n (l QReady), k') \<and>
     pm_inv rep k' pm A' X (l(QReady := drop n (l QReady) @ take n (l QReady))) \<and> pcbs k' = pcbs k"
  using assms(2,3)
proof (induction n arbitrary: k A l)
  case 0
  then show ?case by (auto simp: fun_upd_idem)
next
  case (Suc n)
  then obtain x xs where l: "l QReady = x # xs" by (cases "l QReady") auto
  obtain k1 A1 where k1: "getNextProcess ops k pm = Some (x, k1)"
    "pm_inv rep k1 pm A1 X (l(QReady := xs @ [x]))" "pcbs k1 = pcbs k"
    using allocator.getNextProcess_law [OF assms(1) Suc.prems(1)] l by auto
  have "n \<le> length ((l(QReady := xs @ [x])) QReady)" using Suc.prems(2) l by simp
  from Suc.IH [OF k1(2) this, unfolded fun_upd_same fun_upd_upd] obtain k' A' where
    "next_n ops n k1 pm = Some (take n (xs @ [x]), k')"
    "pm_inv rep k' pm A' X (l(QReady := drop n (xs @ [x]) @ take n (xs @ [x])))" "pcbs k' = pcbs k1"
    by blast
  moreover have "n \<le> length xs" using Suc.prems(2) l by simp
  ultimately show ?case using k1(1,3) l
    by (intro exI [of _ k'] exI [of _ A']) (simp del: fun_upd_apply)
qed

text \<open>C8. Round robin: with \<open>n\<close> ready processes, \<open>n\<close> consecutive choices of the scheduler select each
  ready process exactly once, in queue order, and leave the ready queue as it was.  No choice
  fails, even when the memory is exhausted.\<close>

theorem round_robin_fair:
  assumes "allocator ops rep" "pm_inv rep k pm A X l"
  shows "\<exists>k' A'. next_n ops (length (l QReady)) k pm = Some (l QReady, k') \<and> pm_inv rep k' pm A' X l \<and>
     pcbs k' = pcbs k"
  using next_n_law [OF assms order_refl] by (simp add: fun_upd_idem)

theorem round_robin_fair_witness:
  "\<exists>k' A'. next_n buddy_ops (length (ex_l QReady)) ex_pheap (slot 4) = Some (ex_l QReady, k') \<and>
     pm_inv bd_rep k' (slot 4) A' ex_X ex_l \<and> pcbs k' = pcbs ex_pheap"
  by (rule round_robin_fair [OF bd.allocator_axioms ex_pm_inv])

text \<open>\<^verbatim>\<open>killProcess\<close> finds a process in any of the three live queues, moves it to the zombies with
  the given exit code and state, resets the foreground process if it was that one, and makes
  the idle process current if the victim was running.\<close>

theorem process_kill_correct:
  assumes "allocator ops rep" "pm_inv rep k pm A X l" "c \<noteq> QZombie" "find (pid_match k key) (l c) = Some x"
  shows "\<exists>k' A'. killProcess ops k pm key ret st = Some (x, k') \<and> x \<in> set (l c) \<and>
     pm_inv rep k' pm A' X (pt_move k key c QZombie x l) \<and>
     pcbs k' = (pcbs k)(x := (pcbs k x)\<lparr>retValue := ret, state := st\<rparr>) \<and>
     pms k' = (pms k)(pm := (pms k pm)\<lparr>
       currentProcess := (if currentProcess (pms k pm) \<noteq> 0 \<and> pid (pcbs k (currentProcess (pms k pm))) = key
         then idleProcess (pms k pm) else currentProcess (pms k pm)),
       foregroundProcess := (if foregroundProcess (pms k pm) \<noteq> 0 \<and> pid (pcbs k (foregroundProcess (pms k pm))) = key
         then 0 else foregroundProcess (pms k pm))\<rparr>)"
  using allocator.killProcess_some [OF assms, of ret st] by blast

theorem process_kill_correct_witness:
  "\<exists>k' A'. killProcess buddy_ops ex_pheap (slot 4) 1 7 ZOMBIE = Some (slot 5, k') \<and> slot 5 \<in> set (ex_l QReady) \<and>
     pm_inv bd_rep k' (slot 4) A' ex_X (pt_move ex_pheap 1 QReady QZombie (slot 5) ex_l) \<and>
     pcbs k' = (pcbs ex_pheap)(slot 5 := (pcbs ex_pheap (slot 5))\<lparr>retValue := 7, state := ZOMBIE\<rparr>) \<and>
     pms k' = (pms ex_pheap)(slot 4 := (pms ex_pheap (slot 4))\<lparr>
       currentProcess := (if currentProcess (pms ex_pheap (slot 4)) \<noteq> 0 \<and>
           pid (pcbs ex_pheap (currentProcess (pms ex_pheap (slot 4)))) = 1
         then idleProcess (pms ex_pheap (slot 4)) else currentProcess (pms ex_pheap (slot 4))),
       foregroundProcess := (if foregroundProcess (pms ex_pheap (slot 4)) \<noteq> 0 \<and>
           pid (pcbs ex_pheap (foregroundProcess (pms ex_pheap (slot 4)))) = 1
         then 0 else foregroundProcess (pms ex_pheap (slot 4)))\<rparr>)"
  by (rule process_kill_correct [OF bd.allocator_axioms ex_pm_inv])
    (simp_all add: ex_l_def ex_pheap_def pcb_of_def hasPid_def)

text \<open>\<^verbatim>\<open>getProcess\<close> finds every process by its pid, whichever queue holds it, and the counters
  of the process manager are the lengths of the queues (the idle process counts as one).\<close>

theorem process_lookup:
  assumes "allocator ops rep" "pm_inv rep k pm A X l"
  shows "(\<forall>c. \<forall>x \<in> set (l c). getProcess k pm (pid (pcbs k x)) = Some x) \<and>
     processCount k pm = int (length (l QReady) + length (l QBlocked) + length (l QSem) + length (l QZombie)) + 1 \<and>
     readyProcessCount k pm = int (length (l QReady)) \<and> zombieProcessCount k pm = int (length (l QZombie)) \<and>
     blockedProcessCount k pm = int (length (l QBlocked) + length (l QSem)) \<and>
     hasNextReadyProcess k pm = (l QReady \<noteq> [])"
proof -
  note S = allocator.size_law [OF assms(1) pm_invD(1,4) [OF assms(2)]]
  show ?thesis
    using S(1) [of QReady] S(1) [of QBlocked] S(1) [of QSem] S(1) [of QZombie] S(2) [of QReady]
      allocator.pm_nonzero(1) [OF assms] allocator.getProcess_law [OF assms]
    by (simp add: processCount_def readyProcessCount_def zombieProcessCount_def blockedProcessCount_def
        hasNextReadyProcess_def)
qed

theorem process_lookup_witness:
  "getProcess ex_pheap (slot 4) 3 = Some (slot 7) \<and> processCount ex_pheap (slot 4) = 4 \<and>
     readyProcessCount ex_pheap (slot 4) = 2 \<and> zombieProcessCount ex_pheap (slot 4) = 0 \<and>
     blockedProcessCount ex_pheap (slot 4) = 1 \<and> hasNextReadyProcess ex_pheap (slot 4)"
proof -
  note L = process_lookup [OF bd.allocator_axioms ex_pm_inv]
  have "slot 7 \<in> set (ex_l QBlocked)" by (simp add: ex_l_def)
  then have "getProcess ex_pheap (slot 4) (pid (pcbs ex_pheap (slot 7))) = Some (slot 7)" using L by blast
  then have "getProcess ex_pheap (slot 4) 3 = Some (slot 7)" by (simp add: ex_pheap_def pcb_of_def)
  then show ?thesis using L by (simp add: ex_l_def)
qed

end
