(* ===== verification/Scheduler_Core.thy ===== *)
theory Scheduler_Core
  imports Process_Manager
begin

text \<open>
  The state of the whole kernel and the part of \<^verbatim>\<open>Kernel/processes/scheduler.c\<close> that switches
  processes: the quantum, \<^verbatim>\<open>schedule\<close>, blocking, unblocking and \<^verbatim>\<open>yield\<close>.

  System calls and interrupt handlers run with interrupts disabled (the gates of the IDT
  are interrupt gates), so a kernel operation is one step up to the point where it gives
  the processor away.  An operation that calls \<^verbatim>\<open>yield\<close> takes the stack pointer \<open>sp\<close> that the
  timer interrupt would save; its result state is the one after the switch, and its result
  value is what the caller sees when it is scheduled again.

  The globals of \<^verbatim>\<open>scheduler.c\<close>, \<^verbatim>\<open>semaphore.c\<close>, \<^verbatim>\<open>pipe.c\<close> and \<^verbatim>\<open>time.c\<close> are fields of one record.
\<close>

section \<open>State\<close>

definition NUM_SEMS :: nat where "NUM_SEMS = 300"
definition PIPE_BUFFER_SIZE :: nat where "PIPE_BUFFER_SIZE = 100"
definition MAX_PIPES :: nat where "MAX_PIPES = 16"

record sem_t =
  sem_value :: nat
  sem_lock :: nat
  sem_used :: bool
  sem_blocked :: addr

record pipe_t =
  buffer :: "nat \<Rightarrow> char"
  readIdx :: nat
  writeIdx :: nat
  count :: nat
  semReaders :: int
  semWriters :: int
  mutex :: int
  readers :: nat
  writers :: nat
  isOpen :: bool

record 'm kernel =
  ph :: "'m pheap"
  processManager :: addr
  currentPid :: int
  nextPid :: int
  quantum :: nat
  first :: bool
  ticks :: nat
  manager :: addr
  sems :: "nat \<Rightarrow> sem_t"
  pidcells :: "addr \<Rightarrow> int"
  pipes :: "nat \<Rightarrow> pipe_t"
  next_pipe_id :: int
  next_sem_id :: int
  pipeManagerInit :: bool

section \<open>Operations\<close>

definition QUANTUM :: int where "QUANTUM = 3"
definition MAX_PRIORITY :: int where "MAX_PRIORITY = 5"
definition MIN_PRIORITY :: int where "MIN_PRIORITY = 0"
definition IDLE_PRIORITY :: int where "IDLE_PRIORITY = 6"

definition calculateQuantum :: "int \<Rightarrow> nat" where
  "calculateQuantum prio = (if prio = IDLE_PRIORITY then nat QUANTUM
     else nat ((QUANTUM * (MAX_PRIORITY - prio + 1)) mod 2 ^ 64))"

definition getForegroundPid :: "'m kernel \<Rightarrow> int" where
  "getForegroundPid k = (let p = getForegroundProcess (ph k) (processManager k) in
     if p \<noteq> 0 then pid (pcbs (ph k) p) else -1)"

definition getCurrentPid :: "'m kernel \<Rightarrow> int" where
  "getCurrentPid k = (let p = getCurrentProcess (ph k) (processManager k) in
     if p \<noteq> 0 then pid (pcbs (ph k) p) else -1)"

text \<open>The part of \<^verbatim>\<open>schedule\<close> that saves the interrupted process.\<close>

definition saveCurrent :: "'m kernel \<Rightarrow> addr \<Rightarrow> nat \<Rightarrow> 'm kernel" where
  "saveCurrent k cur sp =
     (let k = (if \<not> first k then k\<lparr>ph := set_pcb (ph k) cur ((pcbs (ph k) cur)\<lparr>rsp := sp\<rparr>)\<rparr>
               else k\<lparr>first := False\<rparr>)
      in if state (pcbs (ph k) cur) = RUNNING then k\<lparr>ph := set_state (ph k) cur READY\<rparr> else k)"

definition schedule :: "'m mm_ops \<Rightarrow> 'm kernel \<Rightarrow> nat \<Rightarrow> (nat \<times> 'm kernel) option" where
  "schedule ops k sp = (let cur = getCurrentProcess (ph k) (processManager k) in
     if cur = 0 then None
     else if quantum k > 0 \<and> state (pcbs (ph k) cur) = RUNNING
     then Some (sp, k\<lparr>quantum := quantum k - 1\<rparr>)
     else do {
       let k = saveCurrent k cur sp;
       (nextProcess, p) \<leftarrow> getNextProcess ops (ph k) (processManager k);
       if nextProcess = 0 then None
       else Some (rsp (pcbs p nextProcess),
         k\<lparr>ph := set_state p nextProcess RUNNING,
           currentPid := pid (pcbs p nextProcess),
           quantum := calculateQuantum (priority (pcbs p nextProcess))\<rparr>)
     })"

text \<open>The timer interrupt: \<^verbatim>\<open>timer_handler\<close>, then \<^verbatim>\<open>schedule\<close>.\<close>

definition timerTick :: "'m mm_ops \<Rightarrow> 'm kernel \<Rightarrow> nat \<Rightarrow> (nat \<times> 'm kernel) option" where
  "timerTick ops k sp = schedule ops (k\<lparr>ticks := u64 (ticks k + 1)\<rparr>) sp"

definition yield :: "'m mm_ops \<Rightarrow> 'm kernel \<Rightarrow> nat \<Rightarrow> 'm kernel option" where
  "yield ops k sp = map_option snd (timerTick ops (k\<lparr>quantum := 0\<rparr>) sp)"

definition lift_p :: "('m pheap \<Rightarrow> ('a \<times> 'm pheap) option) \<Rightarrow> 'm kernel \<Rightarrow> ('a \<times> 'm kernel) option" where
  "lift_p f k = do { (r, p) \<leftarrow> f (ph k); Some (r, k\<lparr>ph := p\<rparr>) }"

definition blockProcess :: "'m mm_ops \<Rightarrow> 'm kernel \<Rightarrow> int \<Rightarrow> nat \<Rightarrow> (int \<times> 'm kernel) option" where
  "blockProcess ops k p sp = do {
     (r, k) \<leftarrow> lift_p (\<lambda>h. blockProcessQueue ops h (processManager k) p) k;
     if r \<noteq> 0 then Some (-1, k)
     else if p = getCurrentPid k then do { k \<leftarrow> yield ops k sp; Some (0, k) }
     else Some (0, k)
   }"

definition blockProcessBySem :: "'m mm_ops \<Rightarrow> 'm kernel \<Rightarrow> int \<Rightarrow> nat \<Rightarrow> (int \<times> 'm kernel) option" where
  "blockProcessBySem ops k p sp = do {
     (r, k) \<leftarrow> lift_p (\<lambda>h. blockProcessQueueBySem ops h (processManager k) p) k;
     if r \<noteq> 0 then Some (-1, k)
     else if p = getCurrentPid k then do { k \<leftarrow> yield ops k sp; Some (0, k) }
     else Some (0, k)
   }"

definition unblockProcess :: "'m mm_ops \<Rightarrow> 'm kernel \<Rightarrow> int \<Rightarrow> (int \<times> 'm kernel) option" where
  "unblockProcess ops k p = lift_p (\<lambda>h. unblockProcessQueue ops h (processManager k) p) k"

definition unblockProcessBySem :: "'m mm_ops \<Rightarrow> 'm kernel \<Rightarrow> int \<Rightarrow> (int \<times> 'm kernel) option" where
  "unblockProcessBySem ops k p = lift_p (\<lambda>h. unblockProcessQueueBySem ops h (processManager k) p) k"

definition getCurrentStdin :: "'m kernel \<Rightarrow> int" where
  "getCurrentStdin k = (let p = getCurrentProcess (ph k) (processManager k) in
     if p \<noteq> 0 then stdin (pcbs (ph k) p) else -1)"

definition getCurrentStdout :: "'m kernel \<Rightarrow> int" where
  "getCurrentStdout k = (let p = getCurrentProcess (ph k) (processManager k) in
     if p \<noteq> 0 then stdout (pcbs (ph k) p) else -1)"

section \<open>The invariant of the scheduler\<close>

abbreviation pm_of :: "'m kernel \<Rightarrow> ProcessManagerCDT" where
  "pm_of k \<equiv> pms (ph k) (processManager k)"

definition ks_inv :: "('m \<Rightarrow> (addr \<rightharpoonup> nat) \<Rightarrow> bool) \<Rightarrow> 'm kernel \<Rightarrow> (addr \<rightharpoonup> addr list) \<Rightarrow>
    (addr \<rightharpoonup> nat) \<Rightarrow> ptable \<Rightarrow> bool" where
  "ks_inv rep k A X l \<longleftrightarrow> pm_inv rep (ph k) (processManager k) A X l \<and>
     X (idleProcess (pm_of k)) = Some sizeof_PCB \<and> idleProcess (pm_of k) \<notin> members l \<and>
     X (currentProcess (pm_of k)) = Some sizeof_PCB"

lemma ks_invD:
  assumes "ks_inv rep k A X l"
  shows "pm_inv rep (ph k) (processManager k) A X l" "X (idleProcess (pm_of k)) = Some sizeof_PCB"
    "idleProcess (pm_of k) \<notin> members l" "X (currentProcess (pm_of k)) = Some sizeof_PCB"
  using assms by (auto simp: ks_inv_def)

text \<open>Updates of other fields of the kernel do not matter.\<close>

lemma ks_inv_cong:
  "ph k' = ph k \<Longrightarrow> processManager k' = processManager k \<Longrightarrow> ks_inv rep k' A X l = ks_inv rep k A X l"
  by (simp add: ks_inv_def)

text \<open>The process that runs next, and the blocks after the switch.\<close>

definition next_of :: "'m kernel \<Rightarrow> ptable \<Rightarrow> addr" where
  "next_of k l = (case l QReady of [] \<Rightarrow> idleProcess (pm_of k) | x # _ \<Rightarrow> x)"

definition save_context :: "'m kernel \<Rightarrow> nat \<Rightarrow> addr \<Rightarrow> PCB" where
  "save_context k sp = (let c = currentProcess (pm_of k); P = pcbs (ph k) in
     P(c := (P c)\<lparr>rsp := (if first k then rsp (P c) else sp),
                  state := (if state (P c) = RUNNING then READY else state (P c))\<rparr>))"

definition run_next :: "(addr \<Rightarrow> PCB) \<Rightarrow> addr \<Rightarrow> (addr \<Rightarrow> PCB)" where
  "run_next P x = P(x := (P x)\<lparr>state := RUNNING\<rparr>)"

lemma save_context_pid [simp]: "pid (save_context k sp p) = pid (pcbs (ph k) p)"
  by (simp add: save_context_def Let_def)

lemma save_context_foreground [simp]: "foreground (save_context k sp p) = foreground (pcbs (ph k) p)"
  by (simp add: save_context_def Let_def)

lemma run_next_pid [simp]: "pid (run_next P x p) = pid (P p)"
  by (simp add: run_next_def)

lemma saveCurrent_eq:
  "saveCurrent k (currentProcess (pm_of k)) sp = k\<lparr>ph := (ph k)\<lparr>pcbs := save_context k sp\<rparr>, first := False\<rparr>"
  unfolding save_context_def saveCurrent_def Let_def
  by (cases k; cases "ph k"; cases "pcbs (ph k) (currentProcess (pm_of k))") (auto simp: fun_upd_idem)

context allocator
begin

lemma ks_nonzero:
  assumes "ks_inv rep k A X l"
  shows "currentProcess (pm_of k) \<noteq> 0" "idleProcess (pm_of k) \<noteq> 0" "processManager k \<noteq> 0" "next_of k l \<noteq> 0"
    "p \<in> members l \<Longrightarrow> p \<noteq> 0"
proof -
  note D = ks_invD [OF assms]
  note N = kq_nonzero(2) [OF pm_invD(1) [OF D(1)]]
  show "currentProcess (pm_of k) \<noteq> 0" and i: "idleProcess (pm_of k) \<noteq> 0" using N D by blast+
  show "processManager k \<noteq> 0" using pm_nonzero(1) [OF D(1)] .
  show m: "p \<in> members l \<Longrightarrow> p \<noteq> 0" for p using pm_nonzero(2) [OF D(1)] .
  show "next_of k l \<noteq> 0"
  proof (cases "l QReady")
    case (Cons x xs)
    then have "x \<in> set (l QReady)" by simp
    then have "x \<noteq> 0" using m by blast
    then show ?thesis using Cons by (simp add: next_of_def)
  qed (use i in \<open>simp add: next_of_def\<close>)
qed

lemma schedule_keep:
  assumes "ks_inv rep k A X l" "0 < quantum k" "state (pcbs (ph k) (currentProcess (pm_of k))) = RUNNING"
  shows "schedule ops k sp = Some (sp, k\<lparr>quantum := quantum k - 1\<rparr>)"
  using assms(2,3) ks_nonzero [OF assms(1)] by (simp add: schedule_def getCurrentProcess_def)

lemma getNext_of:
  assumes "ks_inv rep k A X l" "p = (ph k)\<lparr>pcbs := P\<rparr>"
    "\<And>a. pid (P a) = pid (pcbs (ph k) a)" "\<And>a. foreground (P a) = foreground (pcbs (ph k) a)"
  shows "\<exists>p' A'. getNextProcess ops p (processManager k) = Some (next_of k l, p') \<and>
     pm_inv rep p' (processManager k) A' X (l(QReady := rotate1 (l QReady))) \<and> pcbs p' = P \<and>
     (\<forall>q. q \<notin> range (qaddr (pm_of k)) \<longrightarrow> A' q = A q) \<and>
     pms p' = (pms (ph k))(processManager k := (pm_of k)\<lparr>currentProcess := next_of k l, foregroundProcess :=
       (if l QReady \<noteq> [] \<and> foreground (pcbs (ph k) (next_of k l)) = 1 then next_of k l
        else foregroundProcess (pm_of k))\<rparr>)"
proof -
  have "pt_ok P l = pt_ok (pcbs (ph k)) l" by (rule pt_ok_cong) (rule assms(3))
  then have inv: "pm_inv rep p (processManager k) A X l"
    using ks_invD(1) [OF assms(1)] by (simp add: pm_inv_def assms(2))
  show ?thesis
  proof (cases "l QReady")
    case Nil
    let ?p = "set_pm p (processManager k) ((pms p (processManager k))\<lparr>currentProcess := idleProcess (pm_of k)\<rparr>)"
    have "pm_inv rep ?p (processManager k) A X l" using inv by (simp add: pm_inv_pm)
    moreover have "pms ?p = (pms (ph k))(processManager k := (pm_of k)\<lparr>currentProcess := idleProcess (pm_of k),
        foregroundProcess := foregroundProcess (pm_of k)\<rparr>)"
      by (cases "pm_of k") (simp add: assms(2))
    ultimately show ?thesis
      using getNextProcess_law [OF inv] Nil
      by (intro exI [of _ ?p] exI [of _ A]) (simp add: next_of_def fun_upd_idem assms(2))
  next
    case (Cons x xs)
    obtain p' A' where p': "getNextProcess ops p (processManager k) = Some (x, p')"
      "pm_inv rep p' (processManager k) A' X (l(QReady := xs @ [x]))"
      "\<forall>q. q \<notin> range (qaddr (pms p (processManager k))) \<longrightarrow> A' q = A q" "pcbs p' = pcbs p"
      "pms p' = (pms p)(processManager k := (pms p (processManager k))\<lparr>currentProcess := x, foregroundProcess :=
          (if foreground (pcbs p x) = 1 then x else foregroundProcess (pms p (processManager k)))\<rparr>)"
      using getNextProcess_law [OF inv] unfolding Cons list.case by blast
    then show ?thesis using Cons assms(2,4) by (intro exI [of _ p'] exI [of _ A']) (simp add: next_of_def)
  qed
qed

text \<open>
  A switch: the stack pointer of the interrupted process is saved in its block, the head
  of the ready queue (or the idle process) runs with a fresh quantum.
\<close>

lemma schedule_switch:
  assumes "ks_inv rep k A X l"
    "\<not> (0 < quantum k \<and> state (pcbs (ph k) (currentProcess (pm_of k))) = RUNNING)"
  obtains k' A' where "schedule ops k sp = Some (rsp (save_context k sp (next_of k l)), k')"
    "ks_inv rep k' A' X (l(QReady := rotate1 (l QReady)))"
    "\<And>q. q \<notin> range (qaddr (pm_of k)) \<Longrightarrow> A' q = A q"
    "pcbs (ph k') = run_next (save_context k sp) (next_of k l)"
    "currentProcess (pm_of k') = next_of k l" "idleProcess (pm_of k') = idleProcess (pm_of k)"
    "qaddr (pm_of k') = qaddr (pm_of k)"
    "k' = k\<lparr>ph := ph k', first := False, currentPid := pid (pcbs (ph k) (next_of k l)),
            quantum := calculateQuantum (priority (pcbs (ph k) (next_of k l)))\<rparr>"
proof -
  note D = ks_invD [OF assms(1)] and N = ks_nonzero [OF assms(1)]
  define P where "P = save_context k sp"
  define k1 where "k1 = k\<lparr>ph := (ph k)\<lparr>pcbs := P\<rparr>, first := False\<rparr>"
  obtain p' A' where p': "getNextProcess ops (ph k1) (processManager k) = Some (next_of k l, p')"
    "pm_inv rep p' (processManager k) A' X (l(QReady := rotate1 (l QReady)))" "pcbs p' = P"
    "\<And>q. q \<notin> range (qaddr (pm_of k)) \<Longrightarrow> A' q = A q"
    "pms p' = (pms (ph k))(processManager k := (pm_of k)\<lparr>currentProcess := next_of k l, foregroundProcess :=
       (if l QReady \<noteq> [] \<and> foreground (pcbs (ph k) (next_of k l)) = 1 then next_of k l
        else foregroundProcess (pm_of k))\<rparr>)"
    using getNext_of [OF assms(1), of "ph k1" P] by (auto simp: k1_def P_def)
  let ?n = "next_of k l"
  define k' where "k' = k1\<lparr>ph := set_state p' ?n RUNNING, currentPid := pid (P ?n),
     quantum := calculateQuantum (priority (P ?n))\<rparr>"
  have c: "getCurrentProcess (ph k) (processManager k) = currentProcess (pm_of k)"
    using N(3) by (simp add: getCurrentProcess_def)
  have "schedule ops k sp = Some (rsp (P ?n), k')"
    using assms(2) N(1,4) p'(1,3) unfolding schedule_def Let_def c saveCurrent_eq P_def [symmetric]
    by (auto simp: k1_def k'_def)
  moreover have pk: "processManager k' = processManager k" "pms (ph k') = pms p'" by (simp_all add: k'_def k1_def)
  moreover have "pm_inv rep (ph k') (processManager k') A' X (l(QReady := rotate1 (l QReady)))"
    using p'(2) unfolding pk by (simp add: k'_def pm_inv_pcb)
  moreover have "X ?n = Some sizeof_PCB"
  proof (cases "l QReady")
    case (Cons x xs)
    then show ?thesis using pm_invD(6) [OF D(1), of x QReady] by (simp add: next_of_def)
  qed (use D(2) in \<open>simp add: next_of_def\<close>)
  moreover have "idleProcess (pm_of k') = idleProcess (pm_of k)" "currentProcess (pm_of k') = ?n"
    using p'(5) by (simp_all add: pk)
  moreover have "set ((l(QReady := rotate1 (l QReady))) c) = set (l c)" for c by simp
  then have "members (l(QReady := rotate1 (l QReady))) = members l" by (simp only:)
  ultimately have "ks_inv rep k' A' X (l(QReady := rotate1 (l QReady)))"
    using D(2,3) unfolding ks_inv_def by (simp only: simp_thms)
  moreover have "qaddr (pm_of k') = qaddr (pm_of k)" using p'(5) by (auto simp: pk)
  moreover have "priority (P ?n) = priority (pcbs (ph k) ?n)" by (simp add: P_def save_context_def Let_def)
  then have "k' = k\<lparr>ph := ph k', first := False, currentPid := pid (pcbs (ph k) ?n),
            quantum := calculateQuantum (priority (pcbs (ph k) ?n))\<rparr>"
    by (simp add: k'_def k1_def P_def)
  moreover have "pcbs (ph k') = run_next P ?n" by (simp add: k'_def run_next_def p'(3))
  ultimately show thesis
    using that p'(4) \<open>schedule ops k sp = Some (rsp (P ?n), k')\<close> \<open>currentProcess (pm_of k') = ?n\<close>
      \<open>idleProcess (pm_of k') = idleProcess (pm_of k)\<close> unfolding P_def by blast
qed

text \<open>After a move between queues the invariant holds for the moved table.\<close>

lemma ks_inv_moved:
  assumes "ks_inv rep k A X l" "moved rep (ph k) (processManager k) A X l key c d st x p'" "c \<noteq> d"
    "find (pid_match (ph k) key) (l c) = Some x"
  shows "\<exists>A'. ks_inv rep (k\<lparr>ph := p'\<rparr>) A' X (pt_move (ph k) key c d x l) \<and>
     (\<forall>q. q \<notin> range (qaddr (pm_of k)) \<longrightarrow> A' q = A q)"
proof -
  note D = ks_invD [OF assms(1)]
  obtain A' where "pm_inv rep p' (processManager k) A' X (pt_move (ph k) key c d x l)"
    "\<forall>q. q \<notin> range (qaddr (pm_of k)) \<longrightarrow> A' q = A q" "pms p' = pms (ph k)"
    using assms(2) by (auto simp: moved_def)
  moreover have "members (pt_move (ph k) key c d x l) = members l"
    by (rule pt_ok_move(2) [OF pm_invD(5) [OF D(1)] assms(3,4)])
  ultimately show ?thesis using D(2-4) unfolding ks_inv_def by (intro exI [of _ A']) simp
qed

lemma yield_law:
  assumes "ks_inv rep k A X l"
  obtains k' A' where "yield ops k sp = Some k'"
    "ks_inv rep k' A' X (l(QReady := rotate1 (l QReady)))" "\<And>q. q \<notin> range (qaddr (pm_of k)) \<Longrightarrow> A' q = A q"
    "pcbs (ph k') = run_next (save_context k sp) (next_of k l)"
    "currentProcess (pm_of k') = next_of k l" "idleProcess (pm_of k') = idleProcess (pm_of k)"
    "qaddr (pm_of k') = qaddr (pm_of k)"
    "sems k' = sems k" "pidcells k' = pidcells k" "manager k' = manager k" "processManager k' = processManager k"
    "pipes k' = pipes k"
    "k' = k\<lparr>ph := ph k', first := False, ticks := u64 (ticks k + 1), currentPid := pid (pcbs (ph k) (next_of k l)),
            quantum := calculateQuantum (priority (pcbs (ph k) (next_of k l)))\<rparr>"
proof -
  let ?k = "k\<lparr>quantum := 0, ticks := u64 (ticks k + 1)\<rparr>"
  have inv: "ks_inv rep ?k A X l" using assms by (simp add: ks_inv_def)
  have q: "\<not> (0 < quantum ?k \<and> state (pcbs (ph ?k) (currentProcess (pm_of ?k))) = RUNNING)" by simp
  have e: "next_of ?k l = next_of k l" "save_context ?k sp = save_context k sp"
    by (simp_all add: next_of_def save_context_def split: list.split)
  obtain k' A' where S: "schedule ops ?k sp = Some (rsp (save_context ?k sp (next_of ?k l)), k')"
    "ks_inv rep k' A' X (l(QReady := rotate1 (l QReady)))"
    "\<And>q. q \<notin> range (qaddr (pm_of ?k)) \<Longrightarrow> A' q = A q"
    "pcbs (ph k') = run_next (save_context ?k sp) (next_of ?k l)"
    "currentProcess (pm_of k') = next_of ?k l" "idleProcess (pm_of k') = idleProcess (pm_of ?k)"
    "qaddr (pm_of k') = qaddr (pm_of ?k)"
    and E: "k' = ?k\<lparr>ph := ph k', first := False, currentPid := pid (pcbs (ph ?k) (next_of ?k l)),
            quantum := calculateQuantum (priority (pcbs (ph ?k) (next_of ?k l)))\<rparr>"
    by (rule schedule_switch [OF inv q]) blast
  have F: "k' = k\<lparr>ph := ph k', first := False, ticks := u64 (ticks k + 1), currentPid := pid (pcbs (ph k) (next_of k l)),
            quantum := calculateQuantum (priority (pcbs (ph k) (next_of k l)))\<rparr>"
    by (rule trans [OF E]) (unfold e, simp)
  have fields: "sems k' = sems k" "pidcells k' = pidcells k" "manager k' = manager k"
    "processManager k' = processManager k" "pipes k' = pipes k"
    by (rule trans [OF arg_cong [OF F]], simp)+
  have "yield ops k sp = Some k'" using S(1) by (simp add: yield_def timerTick_def)
  moreover have "range (qaddr (pm_of ?k)) = range (qaddr (pm_of k))" by simp
  ultimately show thesis
    using that S(2-7) F fields unfolding e by (simp only: kernel.select_convs kernel.update_convs simp_thms) simp
qed

end

end
