(* ===== verification/Semaphore.thy ===== *)
theory Semaphore
  imports Scheduler_Core
begin

text \<open>
  The semaphores, \<^verbatim>\<open>Kernel/semaphores/semaphore.c\<close>, with the spin lock of
  \<^verbatim>\<open>Kernel/asm/semaphore.asm\<close>.

  The table behind \<^verbatim>\<open>manager\<close> is the field \<open>sems\<close>; an access with a null manager or an index out
  of bounds is a fault.  A waiting process is a cell of four bytes that holds its pid (the
  store \<open>pidcells\<close>), queued in the semaphore.  \<^verbatim>\<open>acquire\<close> spins while the lock is taken; the
  kernel runs with interrupts disabled, so spinning never ends and is \<open>None\<close>.
\<close>

definition sizeof_pid :: nat where "sizeof_pid = 4"
definition sizeof_SemaphoreCDT :: nat where "sizeof_SemaphoreCDT = 4800"

definition lift_h :: "('m qheap \<Rightarrow> ('a \<times> 'm qheap) option) \<Rightarrow> 'm kernel \<Rightarrow> ('a \<times> 'm kernel) option" where
  "lift_h f = lift_p (lift_q f)"

definition lift_hv :: "('m qheap \<Rightarrow> 'm qheap option) \<Rightarrow> 'm kernel \<Rightarrow> 'm kernel option" where
  "lift_hv f k = do { p \<leftarrow> lift_v f (ph k); Some (k\<lparr>ph := p\<rparr>) }"

abbreviation set_sem :: "'m kernel \<Rightarrow> nat \<Rightarrow> sem_t \<Rightarrow> 'm kernel" where
  "set_sem k i v \<equiv> k\<lparr>sems := (sems k)(i := v)\<rparr>"

definition sem_valid :: "int \<Rightarrow> bool" where
  "sem_valid i \<longleftrightarrow> 0 \<le> i \<and> i < int NUM_SEMS"

section \<open>Operations\<close>

definition createSemaphoresManager :: "'m mm_ops \<Rightarrow> 'm kernel \<Rightarrow> (addr \<times> 'm kernel) option" where
  "createSemaphoresManager ops k = do {
     (p, k) \<leftarrow> lift_h (\<lambda>h. kalloc ops h sizeof_SemaphoreCDT) k;
     let k = k\<lparr>manager := p\<rparr>;
     if p = 0 then Some (0, k)
     else Some (p, k\<lparr>sems := (\<lambda>i. if i < NUM_SEMS
       then \<lparr>sem_value = 0, sem_lock = 0, sem_used = False, sem_blocked = 0\<rparr> else sems k i)\<rparr>)
   }"

definition semInit :: "'m mm_ops \<Rightarrow> 'm kernel \<Rightarrow> int \<Rightarrow> nat \<Rightarrow> (int \<times> 'm kernel) option" where
  "semInit ops k i value = (if \<not> sem_valid i then Some (-1, k) else if manager k = 0 then None
     else if \<not> sem_used (sems k (nat i)) then do {
       (q, k1) \<leftarrow> lift_h (createQueue ops) k;
       let k2 = set_sem k1 (nat i) \<lparr>sem_value = value, sem_lock = 0, sem_used = True, sem_blocked = q\<rparr>;
       if q = 0 then do { k3 \<leftarrow> lift_hv (\<lambda>h. kfree ops h (manager k2)) k2; Some (-1, k3) }
       else Some (0, k2)
     } else Some (-1, k))"

definition semOpen :: "'m kernel \<Rightarrow> int \<Rightarrow> int option" where
  "semOpen k i = (if \<not> sem_valid i then Some (-1) else if manager k = 0 then None
     else Some (if sem_used (sems k (nat i)) then 0 else -1))"

definition semClose :: "'m mm_ops \<Rightarrow> 'm kernel \<Rightarrow> int \<Rightarrow> (int \<times> 'm kernel) option" where
  "semClose ops k i = (if \<not> sem_valid i then Some (-1, k) else if manager k = 0 then None
     else if \<not> sem_used (sems k (nat i)) then Some (-1, k)
     else do {
       k1 \<leftarrow> lift_hv (\<lambda>h. freeQueue ops h (sem_blocked (sems k (nat i)))) k;
       Some (0, set_sem k1 (nat i) ((sems k1 (nat i))\<lparr>sem_used := False, sem_value := 0, sem_lock := 0\<rparr>))
     })"

definition getFreeSemId :: "'m kernel \<Rightarrow> int" where
  "getFreeSemId k = (if manager k = 0 then -1
     else case find (\<lambda>i. \<not> sem_used (sems k i)) [0..<NUM_SEMS] of None \<Rightarrow> -1 | Some i \<Rightarrow> int i)"

definition acquire :: "sem_t \<Rightarrow> sem_t option" where
  "acquire s = (if sem_lock s = 0 then Some (s\<lparr>sem_lock := 1\<rparr>) else None)"

definition release :: "sem_t \<Rightarrow> sem_t" where
  "release s = s\<lparr>sem_lock := 0\<rparr>"

definition wait :: "'m mm_ops \<Rightarrow> 'm kernel \<Rightarrow> nat \<Rightarrow> nat \<Rightarrow> (int \<times> 'm kernel) option" where
  "wait ops k i sp = do {
     s \<leftarrow> acquire (sems k i);
     let k = set_sem k i s;
     if sem_value s > 0 then Some (0, set_sem k i (release (s\<lparr>sem_value := sem_value s - 1\<rparr>)))
     else do {
       (c, k) \<leftarrow> lift_h (\<lambda>h. kalloc ops h sizeof_pid) k;
       if c = 0 then Some (-1, set_sem k i (release (sems k i)))
       else do {
         let k = k\<lparr>pidcells := (pidcells k)(c := getCurrentPid k)\<rparr>;
         (_, k) \<leftarrow> lift_h (\<lambda>h. enqueue ops h (sem_blocked (sems k i)) c) k;
         let k = set_sem k i (release (sems k i));
         (_, k) \<leftarrow> blockProcessBySem ops k (pidcells k c) sp;
         Some (0, k)
       }
     }
   }"

definition post :: "'m mm_ops \<Rightarrow> 'm kernel \<Rightarrow> nat \<Rightarrow> (int \<times> 'm kernel) option" where
  "post ops k i = do {
     s \<leftarrow> acquire (sems k i);
     let k = set_sem k i s;
     (c, k) \<leftarrow> lift_h (\<lambda>h. dequeue ops h (sem_blocked s)) k;
     if c \<noteq> 0 then do {
       let p = pidcells k c;
       k \<leftarrow> lift_hv (\<lambda>h. kfree ops h c) k;
       (_, k) \<leftarrow> unblockProcessBySem ops k p;
       Some (0, set_sem k i (release (sems k i)))
     } else Some (0, set_sem k i (release (s\<lparr>sem_value := u32 (sem_value s + 1)\<rparr>)))
   }"

definition semWait :: "'m mm_ops \<Rightarrow> 'm kernel \<Rightarrow> int \<Rightarrow> nat \<Rightarrow> (int \<times> 'm kernel) option" where
  "semWait ops k i sp = (if \<not> sem_valid i \<or> manager k = 0 then None else wait ops k (nat i) sp)"

definition semPost :: "'m mm_ops \<Rightarrow> 'm kernel \<Rightarrow> int \<Rightarrow> (int \<times> 'm kernel) option" where
  "semPost ops k i = (if \<not> sem_valid i \<or> manager k = 0 then None else post ops k (nat i))"

section \<open>The semaphore as a counter and a list of waiting processes\<close>

text \<open>The semaphore \<open>i\<close> is open and free, and its queue holds the cells \<open>cs\<close>.\<close>

definition sem_at :: "'m kernel \<Rightarrow> (addr \<rightharpoonup> addr list) \<Rightarrow> (addr \<rightharpoonup> nat) \<Rightarrow> nat \<Rightarrow> addr list \<Rightarrow> bool" where
  "sem_at k A X i cs \<longleftrightarrow> sem_used (sems k i) \<and> sem_lock (sems k i) = 0 \<and>
     sem_blocked (sems k i) \<notin> range (qaddr (pm_of k)) \<and> A (sem_blocked (sems k i)) = Some cs \<and>
     (\<forall>c \<in> set cs. X c = Some sizeof_pid)"

text \<open>The pids of the waiting processes, the longest wait first.\<close>

definition waiters :: "'m kernel \<Rightarrow> addr list \<Rightarrow> int list" where
  "waiters k cs = map (pidcells k) cs"

lemma lift_h_eq:
  "lift_h f k = (case f (qh (ph k)) of None \<Rightarrow> None | Some (r, h) \<Rightarrow> Some (r, k\<lparr>ph := (ph k)\<lparr>qh := h\<rparr>\<rparr>))"
  by (auto simp: lift_h_def lift_p_def lift_q_def split: option.splits)

lemma lift_hv_eq:
  "lift_hv f k = (case f (qh (ph k)) of None \<Rightarrow> None | Some h \<Rightarrow> Some (k\<lparr>ph := (ph k)\<lparr>qh := h\<rparr>\<rparr>))"
  by (auto simp: lift_hv_def lift_v_def split: option.splits)

lemmas lift_eqs = lift_h_eq lift_hv_eq

lemma pheap_same [simp]: "p\<lparr>qh := qh p\<rparr> = (p :: 'm pheap)"
  by (cases p) simp

lemma kernel_same [simp]: "k\<lparr>ph := ph k\<rparr> = k" "k\<lparr>sems := f, ph := ph k\<rparr> = k\<lparr>sems := f\<rparr>" "k\<lparr>sems := sems k\<rparr> = k"
  by (cases k, simp)+

lemma sem_release:
  "sem_lock s = 0 \<Longrightarrow> s\<lparr>sem_value := v, sem_lock := 0\<rparr> = s\<lparr>sem_value := v\<rparr>"
  "sem_lock s = 0 \<Longrightarrow> s\<lparr>sem_lock := 0, sem_value := v\<rparr> = s\<lparr>sem_value := v\<rparr>"
  "sem_lock s = 0 \<Longrightarrow> s\<lparr>sem_lock := 0\<rparr> = s"
  by (cases s, simp)+

lemma getCurrentPid_heap: "getCurrentPid (k\<lparr>sems := f, ph := (ph k)\<lparr>qh := h\<rparr>\<rparr>) = getCurrentPid k"
  by (simp add: getCurrentPid_def getCurrentProcess_def Let_def)

lemma ks_inv_heap:
  assumes "ks_inv rep k A X l" "kq rep h A' X'" "\<And>c. A' (qaddr (pm_of k) c) = A (qaddr (pm_of k) c)"
    "\<And>p n. X p = Some n \<Longrightarrow> n = sizeof_PM \<or> n = sizeof_PCB \<Longrightarrow> X' p = Some n"
  shows "ks_inv rep (k\<lparr>ph := (ph k)\<lparr>qh := h\<rparr>\<rparr>) A' X' l"
  using assms unfolding ks_inv_def pm_inv_def by simp

lemma sem_at_cong:
  "sems k' i = sems k i \<Longrightarrow> qaddr (pm_of k') = qaddr (pm_of k) \<Longrightarrow> sem_at k' A X i cs = sem_at k A X i cs"
  by (simp add: sem_at_def)

context allocator
begin

lemma semWait_token:
  assumes "manager k \<noteq> 0" "sem_valid i" "sem_lock (sems k (nat i)) = 0" "0 < sem_value (sems k (nat i))"
  shows "semWait ops k i sp =
     Some (0, set_sem k (nat i) ((sems k (nat i))\<lparr>sem_value := sem_value (sems k (nat i)) - 1\<rparr>))"
  using assms by (simp add: semWait_def wait_def acquire_def release_def Let_def sem_release)

lemma semPost_token:
  assumes "ks_inv rep k A X l" "manager k \<noteq> 0" "sem_valid i" "sem_at k A X (nat i) []"
  shows "semPost ops k i =
     Some (0, set_sem k (nat i) ((sems k (nat i))\<lparr>sem_value := u32 (sem_value (sems k (nat i)) + 1)\<rparr>))"
proof -
  let ?s = "sems k (nat i)"
  have l: "sem_lock ?s = 0" "A (sem_blocked ?s) = Some []" using assms(4) by (auto simp: sem_at_def)
  have "dequeue ops (qh (ph k)) (sem_blocked ?s) = Some (0, qh (ph k))"
    by (rule dequeue_empty [OF pm_invD(1) [OF ks_invD(1) [OF assms(1)]] l(2)])
  then show ?thesis
    using assms(2,3) l(1) by (simp add: semPost_def post_def acquire_def release_def lift_eqs sem_release)
qed

text \<open>\<^verbatim>\<open>semPost\<close> with waiting processes: the one that waited longest becomes ready.\<close>

lemma semPost_wake:
  assumes "ks_inv rep k A X l" "manager k \<noteq> 0" "sem_valid i" "sem_at k A X (nat i) (c # cs)" "c \<notin> set cs"
    "find (pid_match (ph k) (pidcells k c)) (l QSem) = Some x"
  shows "\<exists>k' A'. semPost ops k i = Some (0, k') \<and>
     ks_inv rep k' A' (X(c := None)) (pt_move (ph k) (pidcells k c) QSem QReady x l) \<and>
     sem_at k' A' (X(c := None)) (nat i) cs \<and> sems k' = sems k \<and> pidcells k' = pidcells k \<and>
     pcbs (ph k') = (pcbs (ph k))(x := (pcbs (ph k) x)\<lparr>state := READY\<rparr>) \<and> pms (ph k') = pms (ph k) \<and>
     (\<exists>p'. k' = k\<lparr>ph := p'\<rparr>)"
proof -
  let ?s = "sems k (nat i)" and ?q = "sem_blocked (sems k (nat i))"
  note D = ks_invD [OF assms(1)]
  have S: "sem_lock ?s = 0" "A ?q = Some (c # cs)" "?q \<notin> range (qaddr (pm_of k))" "sem_used ?s"
    "\<forall>d \<in> set (c # cs). X d = Some sizeof_pid" using assms(4) by (auto simp: sem_at_def)
  note K = pm_invD(1) [OF D(1)]
  have c0: "c \<noteq> 0" using kq_nonzero(2) [OF K] S(5) by auto
  obtain h1 where h1: "dequeue ops (qh (ph k)) ?q = Some (c, h1)" "kq rep h1 (A(?q \<mapsto> cs)) X"
    using dequeue_law [OF K S(2)] by blast
  obtain h2 where h2: "kfree ops h1 c = Some h2" "kq rep h2 (A(?q \<mapsto> cs)) (X(c := None))"
    using kfree_law [OF h1(2), of c sizeof_pid] S(5) by auto
  have q: "(A(?q \<mapsto> cs)) (qaddr (pm_of k) d) = A (qaddr (pm_of k) d)" for d
    using S(3) by (metis fun_upd_other rangeI)
  define k1 where "k1 = k\<lparr>ph := (ph k)\<lparr>qh := h2\<rparr>\<rparr>"
  have inv1: "ks_inv rep k1 (A(?q \<mapsto> cs)) (X(c := None)) l"
    unfolding k1_def by (rule ks_inv_heap [OF assms(1) h2(2) q])
      (use S(5) in \<open>auto simp: sizeof_pid_def sizeof_PM_def sizeof_PCB_def\<close>)
  have k1: "pcbs (ph k1) = pcbs (ph k)" "pms (ph k1) = pms (ph k)" "processManager k1 = processManager k"
    "sems k1 = sems k" by (simp_all add: k1_def)
  have f: "find (pid_match (ph k1) (pidcells k c)) (l QSem) = Some x" using assms(6) by (simp add: k1)
  obtain p' where p': "unblockProcessQueueBySem ops (ph k1) (processManager k1) (pidcells k c) = Some (0, p')"
    "moved rep (ph k1) (processManager k1) (A(?q \<mapsto> cs)) (X(c := None)) l (pidcells k c) QSem QReady READY x p'"
    using unblockProcessQueueBySem_law [OF ks_invD(1) [OF inv1], of "pidcells k c"] f by auto
  obtain A' where A': "ks_inv rep (k1\<lparr>ph := p'\<rparr>) A' (X(c := None)) (pt_move (ph k1) (pidcells k c) QSem QReady x l)"
    "\<forall>q'. q' \<notin> range (qaddr (pm_of k1)) \<longrightarrow> A' q' = (A(?q \<mapsto> cs)) q'"
    using ks_inv_moved [OF inv1 p'(2) _ f] by auto
  have m: "pt_move (ph k1) (pidcells k c) QSem QReady x l = pt_move (ph k) (pidcells k c) QSem QReady x l"
    by (simp add: pt_move_def k1)
  have pm: "pms p' = pms (ph k)" "pcbs p' = (pcbs (ph k))(x := (pcbs (ph k) x)\<lparr>state := READY\<rparr>)"
    using p'(2) by (auto simp: moved_def k1)
  define k' where "k' = k\<lparr>ph := p'\<rparr>"
  have "k1\<lparr>ph := p'\<rparr> = k'" by (simp add: k1_def k'_def)
  then have inv': "ks_inv rep k' A' (X(c := None)) (pt_move (ph k) (pidcells k c) QSem QReady x l)"
    using A'(1) m by simp
  have "sem_at k' A' (X(c := None)) (nat i) cs"
    using S A'(2) assms(5) pm(1) by (auto simp: sem_at_def k'_def k1)
  moreover have "semPost ops k i = Some (0, k')"
    using assms(2,3) S(1) h1(1) h2(1) c0 p'(1)
    by (simp add: semPost_def post_def acquire_def release_def lift_eqs unblockProcessBySem_def lift_p_def
        k1_def k'_def sem_release [OF S(1)])
  ultimately show ?thesis using inv' pm by (intro exI [of _ k'] exI [of _ A']) (auto simp: k'_def)
qed

text \<open>
  \<^verbatim>\<open>semWait\<close> without a token.  Without memory for the cell it is refused.  Otherwise the
  caller leaves the ready queue and the next process runs; the cell is at the end of the
  semaphore's queue unless the memory was exhausted by the cell itself.
\<close>

lemma semWait_block:
  assumes "ks_inv rep k A X l" "manager k \<noteq> 0" "sem_valid i" "sem_at k A X (nat i) cs"
    "sem_value (sems k (nat i)) = 0" "currentProcess (pm_of k) \<in> set (l QReady)"
  defines "x \<equiv> currentProcess (pm_of k)"
  defines "l1 \<equiv> pt_move (ph k) (pid (pcbs (ph k) x)) QReady QSem x l"
  shows "semWait ops k i sp = Some (-1, k) \<or>
    (\<exists>k' A' c queued. semWait ops k i sp = Some (0, k') \<and> X c = None \<and> c \<noteq> 0 \<and>
       (queued \<or> (\<exists>h. kalloc ops (qh (ph k)) sizeof_pid = Some (c, h) \<and> \<not> node_ready ops h)) \<and>
       ks_inv rep k' A' (X(c \<mapsto> sizeof_pid)) (l1(QReady := rotate1 (l1 QReady))) \<and>
       sem_at k' A' (X(c \<mapsto> sizeof_pid)) (nat i) (if queued then cs @ [c] else cs) \<and>
       pidcells k' = (pidcells k)(c := pid (pcbs (ph k) x)) \<and> sems k' = sems k \<and>
       currentProcess (pm_of k') = next_of k l1 \<and>
       pcbs (ph k') = run_next (save_context (k\<lparr>ph := set_state (ph k) x BLOCKED\<rparr>) sp) (next_of k l1))"
proof -
  let ?s = "sems k (nat i)" and ?q = "sem_blocked (sems k (nat i))"
  note D = ks_invD [OF assms(1)] and N = ks_nonzero [OF assms(1)]
  note K = pm_invD(1) [OF D(1)]
  have S: "sem_lock ?s = 0" "A ?q = Some cs" "?q \<notin> range (qaddr (pm_of k))" "sem_used ?s"
    "\<forall>d \<in> set cs. X d = Some sizeof_pid" using assms(4) by (auto simp: sem_at_def)
  have cp: "getCurrentPid k = pid (pcbs (ph k) x)"
    using N(1,3) by (simp add: getCurrentPid_def getCurrentProcess_def x_def)
  have sz: "0 < sizeof_pid" "sizeof_pid < 2 ^ 32" by (simp_all add: sizeof_pid_def)
  show ?thesis using K sz
  proof (cases rule: kalloc_law)
    case oom
    then have "semWait ops k i sp = Some (-1, k)"
      using assms(2,3,5) S(1)
      by (simp add: semWait_def wait_def acquire_def release_def lift_eqs sem_release)
    then show ?thesis ..
  next
    case (fresh c h1)
    let ?X = "X(c \<mapsto> sizeof_pid)" and ?p = "pid (pcbs (ph k) x)"
    obtain r h2 where e: "enqueue ops h1 ?q c = Some (r, h2)" "kq rep h2 (A(?q \<mapsto> cs @ [c])) ?X \<or> h2 = h1 \<and> \<not> node_ready ops h1"
      using enqueue_law [OF fresh(8) S(2), of c] by blast
    have "A(?q \<mapsto> cs) = A" using S(2) by auto
    then have "\<exists>queued. kq rep h2 (A(?q \<mapsto> (if queued then cs @ [c] else cs))) ?X \<and> (queued \<or> \<not> node_ready ops h1)"
      using e(2) fresh(8) by (metis (full_types))
    then obtain queued A2 where h2: "kq rep h2 A2 ?X" "A2 = A(?q \<mapsto> (if queued then cs @ [c] else cs))"
      and nr: "queued \<or> \<not> node_ready ops h1" by blast
    note h2 = e(1) h2
    have q: "A2 (qaddr (pm_of k) d) = A (qaddr (pm_of k) d)" for d
      using S(3) unfolding h2(3) by (metis fun_upd_other rangeI)
    define k1 where "k1 = k\<lparr>pidcells := (pidcells k)(c := ?p), ph := (ph k)\<lparr>qh := h2\<rparr>\<rparr>"
    have k1: "pcbs (ph k1) = pcbs (ph k)" "pms (ph k1) = pms (ph k)" "processManager k1 = processManager k"
      by (simp_all add: k1_def)
    have "ks_inv rep (k\<lparr>ph := (ph k)\<lparr>qh := h2\<rparr>\<rparr>) A2 ?X l"
      by (rule ks_inv_heap [OF assms(1) h2(2) q]) (use fresh(3) in auto)
    then have inv1: "ks_inv rep k1 A2 ?X l" by (simp add: k1_def ks_inv_def)
    have x: "x \<in> set (l QReady)" "x \<noteq> 0" using assms(6) N(1) by (simp_all add: x_def)
    have f: "find (pid_match (ph k1) ?p) (l QReady) = Some x"
      using find_member [OF D(1) x(1)] by (simp add: k1)
    obtain p' where p': "blockProcessQueueBySem ops (ph k1) (processManager k1) ?p = Some (0, p')"
      "moved rep (ph k1) (processManager k1) A2 ?X l ?p QReady QSem BLOCKED x p'"
      using blockProcessQueueBySem_law [OF ks_invD(1) [OF inv1], of ?p] f by auto
    define k2 where "k2 = k1\<lparr>ph := p'\<rparr>"
    have m: "pt_move (ph k1) ?p QReady QSem x l = l1" by (simp add: pt_move_def k1 l1_def)
    obtain A3 where A3: "ks_inv rep k2 A3 ?X l1" "\<forall>q'. q' \<notin> range (qaddr (pm_of k1)) \<longrightarrow> A3 q' = A2 q'"
      using ks_inv_moved [OF inv1 p'(2) _ f] unfolding m k2_def by auto
    have k2: "pms (ph k2) = pms (ph k)" "pcbs (ph k2) = (pcbs (ph k))(x := (pcbs (ph k) x)\<lparr>state := BLOCKED\<rparr>)"
      "processManager k2 = processManager k" "sems k2 = sems k" "pidcells k2 = (pidcells k)(c := ?p)" "first k2 = first k"
      using p'(2) by (auto simp: moved_def k2_def k1 k1_def)
    have cp2: "getCurrentPid k2 = ?p"
      using N(1,3) by (simp add: getCurrentPid_def getCurrentProcess_def k2 x_def)
    have n: "next_of k2 l1 = next_of k l1" by (simp add: next_of_def k2 split: list.split)
    have sv: "save_context k2 sp = save_context (k\<lparr>ph := set_state (ph k) x BLOCKED\<rparr>) sp"
      by (simp add: save_context_def k2 fun_eq_iff)
    obtain k' A' where Y: "yield ops k2 sp = Some k'" "ks_inv rep k' A' ?X (l1(QReady := rotate1 (l1 QReady)))"
      "\<And>q. q \<notin> range (qaddr (pm_of k2)) \<Longrightarrow> A' q = A3 q"
      "pcbs (ph k') = run_next (save_context k2 sp) (next_of k2 l1)"
      "currentProcess (pm_of k') = next_of k2 l1" "qaddr (pm_of k') = qaddr (pm_of k2)"
      "sems k' = sems k2" "pidcells k' = pidcells k2"
      by (rule yield_law [OF A3(1)]) blast
    have "semWait ops k i sp = Some (0, k')"
      using assms(2,3,5) S(1) fresh(1,2) h2(1) p'(1) Y(1) cp cp2
      by (simp add: semWait_def wait_def acquire_def release_def lift_eqs sem_release blockProcessBySem_def
          lift_p_def k1_def k2_def Let_def getCurrentPid_heap)
    moreover have "sem_at k' A' ?X (nat i) (if queued then cs @ [c] else cs)"
      using S A3(2) Y(3) h2(3) by (auto simp: sem_at_def Y(6,7) k2 k1)
    ultimately show ?thesis
      using Y(2,4,5,7,8) fresh(1,2,3) nr unfolding n sv k2 by blast
  qed
qed

end

end
