(* ===== verification/Pipe.thy ===== *)
theory Pipe
  imports Semaphore
begin

text \<open>
  The pipes, \<^verbatim>\<open>Kernel/pipes/pipe.c\<close>: bounded ring buffers of 100 bytes guarded by three
  semaphores (bytes available, free places, a mutex).

  \<^verbatim>\<open>pipeRead\<close> and \<^verbatim>\<open>pipeWrite\<close> call \<^verbatim>\<open>semWait\<close> before every byte and can lose the processor there.
  Their loops run until they finish or until that \<^verbatim>\<open>semWait\<close> suspends the caller; the
  functions \<open>read_resume\<close> and \<open>write_resume\<close> continue a suspended call when the scheduler comes
  back to it.  The destination buffer is the list of what was stored at each index; \<open>None\<close>
  is an index that was not written.
\<close>

section \<open>Operations\<close>

definition createPipeManager :: "'m kernel \<Rightarrow> 'm kernel" where
  "createPipeManager k = k\<lparr>next_pipe_id := 0, pipes := (\<lambda>i. if i < MAX_PIPES
     then (pipes k i)\<lparr>isOpen := False, readIdx := 0, writeIdx := 0, count := 0, readers := 0, writers := 0,
            semReaders := -1, semWriters := -1, mutex := -1\<rparr>
     else pipes k i)\<rparr>"

definition ensurePipeManagerInit :: "'m kernel \<Rightarrow> 'm kernel" where
  "ensurePipeManagerInit k =
     (if \<not> pipeManagerInit k then (createPipeManager k)\<lparr>pipeManagerInit := True\<rparr> else k)"

text \<open>\<^verbatim>\<open>PIPE_ID_CHECK\<close>: the index of an open pipe, or \<open>None\<close> where the macro returns -1.\<close>

definition pipe_index :: "'m kernel \<Rightarrow> int \<Rightarrow> nat option" where
  "pipe_index k pipe_id = (if pipe_id < 0 \<or> int MAX_PIPES \<le> pipe_id then None
     else let i = nat (if pipe_id > 2 then pipe_id - 2 else pipe_id) in if isOpen (pipes k i) then Some i else None)"

abbreviation set_pipe :: "'m kernel \<Rightarrow> nat \<Rightarrow> pipe_t \<Rightarrow> 'm kernel" where
  "set_pipe k i v \<equiv> k\<lparr>pipes := (pipes k)(i := v)\<rparr>"

definition createPipe :: "'m mm_ops \<Rightarrow> 'm kernel \<Rightarrow> (int \<times> 'm kernel) option" where
  "createPipe ops k0 = (let k = ensurePipeManagerInit k0 in
     case find (\<lambda>i. \<not> isOpen (pipes k i)) [0..<MAX_PIPES] of
       None \<Rightarrow> Some (-1, k)
     | Some i \<Rightarrow> do {
         let n = next_sem_id k;
         let k = set_pipe (k\<lparr>next_sem_id := n + 3\<rparr>) i ((pipes k i)\<lparr>readIdx := 0, writeIdx := 0, count := 0,
                   readers := 0, writers := 0, isOpen := True, semReaders := n, semWriters := n + 1, mutex := n + 2\<rparr>);
         (r, k) \<leftarrow> semInit ops k n 0;
         if r < 0 then Some (-1, k) else do {
           (r, k) \<leftarrow> semInit ops k (n + 1) PIPE_BUFFER_SIZE;
           if r < 0 then Some (-1, k) else do {
             (r, k) \<leftarrow> semInit ops k (n + 2) 1;
             if r < 0 then Some (-1, k) else Some (if i = 0 then 0 else int i + 2, k)
           }
         }
       })"

text \<open>The critical sections of \<^verbatim>\<open>pipeRead\<close> and \<^verbatim>\<open>pipeWrite\<close>.\<close>

definition pipe_get :: "pipe_t \<Rightarrow> char option \<times> pipe_t" where
  "pipe_get p = (if count p > 0
     then (Some (buffer p (readIdx p)),
           p\<lparr>readIdx := (readIdx p + 1) mod PIPE_BUFFER_SIZE, count := count p - 1\<rparr>)
     else (None, p))"

definition pipe_put :: "char \<Rightarrow> pipe_t \<Rightarrow> bool \<times> pipe_t" where
  "pipe_put b p = (if count p < PIPE_BUFFER_SIZE
     then (True, p\<lparr>buffer := (buffer p)(writeIdx p := b),
                   writeIdx := (writeIdx p + 1) mod PIPE_BUFFER_SIZE, count := count p + 1\<rparr>)
     else (False, p))"

text \<open>The body of the loop behind the first \<^verbatim>\<open>semWait\<close>.\<close>

definition read_body :: "'m mm_ops \<Rightarrow> nat \<Rightarrow> 'm kernel \<Rightarrow> nat \<Rightarrow> (char option \<times> 'm kernel) option" where
  "read_body ops i k sp = do {
     (_, k) \<leftarrow> semWait ops k (mutex (pipes k i)) sp;
     let (b, p) = pipe_get (pipes k i);
     let k = set_pipe k i p;
     (_, k) \<leftarrow> semPost ops k (mutex (pipes k i));
     (_, k) \<leftarrow> semPost ops k (semWriters (pipes k i));
     Some (b, k)
   }"

definition write_body :: "'m mm_ops \<Rightarrow> nat \<Rightarrow> char \<Rightarrow> 'm kernel \<Rightarrow> nat \<Rightarrow> (bool \<times> 'm kernel) option" where
  "write_body ops i c k sp = do {
     (_, k) \<leftarrow> semWait ops k (mutex (pipes k i)) sp;
     let (b, p) = pipe_put c (pipes k i);
     let k = set_pipe k i p;
     (_, k) \<leftarrow> semPost ops k (mutex (pipes k i));
     (_, k) \<leftarrow> semPost ops k (semReaders (pipes k i));
     Some (b, k)
   }"

datatype rw_status = Finished | Suspended

text \<open>Whether a \<^verbatim>\<open>semWait\<close> that returned \<open>r\<close> suspended its caller: there was no token and memory for a cell.\<close>

definition suspends :: "'m kernel \<Rightarrow> int \<Rightarrow> int \<Rightarrow> bool" where
  "suspends k i r \<longleftrightarrow> sem_value (sems k (nat i)) = 0 \<and> r = 0"

fun read_loop :: "'m mm_ops \<Rightarrow> nat \<Rightarrow> nat \<Rightarrow> char option list \<Rightarrow> 'm kernel \<Rightarrow> nat \<Rightarrow>
    (rw_status \<times> nat \<times> char option list \<times> 'm kernel) option" where
  "read_loop ops i 0 acc k sp = Some (Finished, 0, acc, k)"
| "read_loop ops i (Suc n) acc k sp = do {
     (r, k1) \<leftarrow> semWait ops k (semReaders (pipes k i)) sp;
     if suspends k (semReaders (pipes k i)) r then Some (Suspended, Suc n, acc, k1)
     else do { (b, k2) \<leftarrow> read_body ops i k1 sp; read_loop ops i n (acc @ [b]) k2 sp }
   }"

definition read_resume :: "'m mm_ops \<Rightarrow> nat \<Rightarrow> nat \<Rightarrow> char option list \<Rightarrow> 'm kernel \<Rightarrow> nat \<Rightarrow>
    (rw_status \<times> nat \<times> char option list \<times> 'm kernel) option" where
  "read_resume ops i n acc k sp =
     do { (b, k) \<leftarrow> read_body ops i k sp; read_loop ops i (n - 1) (acc @ [b]) k sp }"

fun write_loop :: "'m mm_ops \<Rightarrow> nat \<Rightarrow> string \<Rightarrow> nat \<Rightarrow> 'm kernel \<Rightarrow> nat \<Rightarrow>
    (rw_status \<times> string \<times> nat \<times> 'm kernel) option" where
  "write_loop ops i [] written k sp = Some (Finished, [], written, k)"
| "write_loop ops i (c # cs) written k sp = do {
     (r, k1) \<leftarrow> semWait ops k (semWriters (pipes k i)) sp;
     if suspends k (semWriters (pipes k i)) r then Some (Suspended, c # cs, written, k1)
     else do {
       (b, k2) \<leftarrow> write_body ops i c k1 sp;
       write_loop ops i cs (if b then written + 1 else written) k2 sp
     }
   }"

definition write_resume :: "'m mm_ops \<Rightarrow> nat \<Rightarrow> string \<Rightarrow> nat \<Rightarrow> 'm kernel \<Rightarrow> nat \<Rightarrow>
    (rw_status \<times> string \<times> nat \<times> 'm kernel) option" where
  "write_resume ops i cs written k sp = do {
     (b, k) \<leftarrow> write_body ops i (hd cs) k sp;
     write_loop ops i (tl cs) (if b then written + 1 else written) k sp
   }"

text \<open>
  The calls.  \<open>Inl r\<close>: returned at once with \<open>r\<close>.  \<open>buf\<close> is the user's pointer, \<open>xs\<close> the bytes
  there (\<^verbatim>\<open>pipeWrite\<close>).
\<close>

definition pipeRead :: "'m mm_ops \<Rightarrow> 'm kernel \<Rightarrow> int \<Rightarrow> addr \<Rightarrow> int \<Rightarrow> nat \<Rightarrow>
    (int \<times> 'm kernel + nat \<times> rw_status \<times> nat \<times> char option list \<times> 'm kernel) option" where
  "pipeRead ops k0 pipe_id buf sz sp = (let k = ensurePipeManagerInit k0 in
     case pipe_index k pipe_id of None \<Rightarrow> Some (Inl (-1, k))
     | Some i \<Rightarrow> if buf = 0 \<or> sz \<le> 0 then Some (Inl (-1, k))
         else map_option (\<lambda>r. Inr (i, r)) (read_loop ops i (nat sz) [] k sp))"

definition pipeWrite :: "'m mm_ops \<Rightarrow> 'm kernel \<Rightarrow> int \<Rightarrow> addr \<Rightarrow> string \<Rightarrow> int \<Rightarrow> nat \<Rightarrow>
    (int \<times> 'm kernel + nat \<times> rw_status \<times> string \<times> nat \<times> 'm kernel) option" where
  "pipeWrite ops k0 pipe_id buf xs sz sp = (let k = ensurePipeManagerInit k0 in
     case pipe_index k pipe_id of None \<Rightarrow> Some (Inl (-1, k))
     | Some i \<Rightarrow> if buf = 0 \<or> sz \<le> 0 then Some (Inl (-1, k))
         else map_option (\<lambda>r. Inr (i, r)) (write_loop ops i (take (nat sz) xs) 0 k sp))"

definition pipeClose :: "'m mm_ops \<Rightarrow> 'm kernel \<Rightarrow> int \<Rightarrow> (int \<times> 'm kernel) option" where
  "pipeClose ops k0 pipe_id = (let k = ensurePipeManagerInit k0 in
     case pipe_index k pipe_id of None \<Rightarrow> Some (-1, k)
     | Some i \<Rightarrow> if i \<le> 2 then Some (-1, k) else do {
         (_, k) \<leftarrow> semClose ops k (semReaders (pipes k i));
         (_, k) \<leftarrow> semClose ops k (semWriters (pipes k i));
         (_, k) \<leftarrow> semClose ops k (mutex (pipes k i));
         Some (0, set_pipe k i ((pipes k i)\<lparr>isOpen := False, readIdx := 0, writeIdx := 0, count := 0,
           readers := 0, writers := 0, semReaders := -1, semWriters := -1, mutex := -1\<rparr>))
       })"

definition pipeClear :: "'m mm_ops \<Rightarrow> 'm kernel \<Rightarrow> int \<Rightarrow> nat \<Rightarrow> (int \<times> 'm kernel) option" where
  "pipeClear ops k0 pipe_id sp = (let k = ensurePipeManagerInit k0 in
     case pipe_index k pipe_id of None \<Rightarrow> Some (-1, k)
     | Some i \<Rightarrow> do {
         (_, k) \<leftarrow> semWait ops k (mutex (pipes k i)) sp;
         let k = set_pipe k i ((pipes k i)\<lparr>readIdx := 0, writeIdx := 0, count := 0\<rparr>);
         (_, k) \<leftarrow> semPost ops k (mutex (pipes k i));
         Some (0, k)
       })"

section \<open>The ring buffer is a bounded queue\<close>

definition ring_ok :: "pipe_t \<Rightarrow> bool" where
  "ring_ok p \<longleftrightarrow> readIdx p < PIPE_BUFFER_SIZE \<and> count p \<le> PIPE_BUFFER_SIZE \<and>
     writeIdx p = (readIdx p + count p) mod PIPE_BUFFER_SIZE"

definition content :: "pipe_t \<Rightarrow> string" where
  "content p = map (\<lambda>j. buffer p ((readIdx p + j) mod PIPE_BUFFER_SIZE)) [0..<count p]"

lemma length_content [simp]: "length (content p) = count p"
  by (simp add: content_def)

lemma pipe_get_spec:
  assumes "ring_ok p" "content p = b # bs"
  shows "\<exists>p'. pipe_get p = (Some b, p') \<and> ring_ok p' \<and> content p' = bs \<and> buffer p' = buffer p"
proof -
  have n: "0 < count p" "count p = Suc (length bs)" using assms(2) length_content [of p] by auto
  let ?p = "p\<lparr>readIdx := (readIdx p + 1) mod PIPE_BUFFER_SIZE, count := count p - 1\<rparr>"
  have idx: "[0..<count p] = 0 # map Suc [0..<count p - 1]"
    using n by (metis Suc_pred' map_Suc_upt upt_conv_Cons)
  have "content p = buffer p (readIdx p) # content ?p"
    unfolding content_def idx using assms(1)
    by (simp add: ring_ok_def comp_def mod_add_left_eq)
  moreover have "ring_ok ?p"
    using assms(1) n by (simp add: ring_ok_def PIPE_BUFFER_SIZE_def mod_add_left_eq)
  ultimately show ?thesis using assms(2) n by (simp add: pipe_get_def)
qed

lemma pipe_put_spec:
  assumes "ring_ok p" "length (content p) < PIPE_BUFFER_SIZE"
  shows "\<exists>p'. pipe_put b p = (True, p') \<and> ring_ok p' \<and> content p' = content p @ [b]"
proof -
  let ?p = "p\<lparr>buffer := (buffer p)(writeIdx p := b), writeIdx := (writeIdx p + 1) mod PIPE_BUFFER_SIZE,
     count := count p + 1\<rparr>"
  have n: "count p < PIPE_BUFFER_SIZE" using assms(2) by simp
  have w: "writeIdx p = (readIdx p + count p) mod PIPE_BUFFER_SIZE" "readIdx p < PIPE_BUFFER_SIZE"
    using assms(1) by (simp_all add: ring_ok_def)
  have ne: "(readIdx p + j) mod PIPE_BUFFER_SIZE \<noteq> writeIdx p" if "j < count p" for j
    using that n w by (auto simp: mod_if PIPE_BUFFER_SIZE_def split: if_splits)
  have "content ?p = content p @ [b]"
    using ne w(1) by (simp add: content_def)
  moreover have "ring_ok ?p"
    using assms(1) n by (simp add: ring_ok_def PIPE_BUFFER_SIZE_def mod_Suc_eq)
  ultimately show ?thesis using n by (simp add: pipe_put_def)
qed

section \<open>Transfers that find their tokens\<close>

text \<open>A change of the value of a semaphore, and what it leaves alone.\<close>

definition setv :: "'m kernel \<Rightarrow> nat \<Rightarrow> nat \<Rightarrow> 'm kernel" where
  "setv k i v = set_sem k i ((sems k i)\<lparr>sem_value := v\<rparr>)"

lemma setv_simps [simp]:
  "ph (setv k i v) = ph k" "processManager (setv k i v) = processManager k" "manager (setv k i v) = manager k"
  "pipes (setv k i v) = pipes k" "pipeManagerInit (setv k i v) = pipeManagerInit k" "sem_value (sems (setv k i v) j) = (if j = i then v else sem_value (sems k j))"
  "sem_at (setv k i v) A X j cs = sem_at k A X j cs" "ks_inv rep (setv k i v) A X l = ks_inv rep k A X l"
  by (auto simp: setv_def sem_at_def ks_inv_def)

lemma set_pipe_simps [simp]:
  "sem_at (k\<lparr>pipes := f\<rparr>) A X j cs = sem_at k A X j cs" "ks_inv rep (k\<lparr>pipes := f\<rparr>) A X l = ks_inv rep k A X l"
  by (auto simp: sem_at_def ks_inv_def)

text \<open>
  A quiescent pipe: nobody waits, the tokens of the readers are the bytes in the buffer
  and those of the writers the free places.
\<close>

definition pipe_ready :: "'m kernel \<Rightarrow> (addr \<rightharpoonup> addr list) \<Rightarrow> (addr \<rightharpoonup> nat) \<Rightarrow> nat \<Rightarrow> bool" where
  "pipe_ready k A X i \<longleftrightarrow> (let p = pipes k i; r = semReaders p; w = semWriters p; m = mutex p in
     manager k \<noteq> 0 \<and> ring_ok p \<and> distinct [r, w, m] \<and> sem_valid r \<and> sem_valid w \<and> sem_valid m \<and>
     sem_at k A X (nat r) [] \<and> sem_at k A X (nat w) [] \<and> sem_at k A X (nat m) [] \<and>
     sem_value (sems k (nat r)) = count p \<and>
     sem_value (sems k (nat w)) = PIPE_BUFFER_SIZE - count p \<and> sem_value (sems k (nat m)) = 1)"

lemma pipe_readyI:
  assumes "pipes k i = p" "manager k \<noteq> 0" "ring_ok p" "semReaders p \<noteq> semWriters p" "semReaders p \<noteq> mutex p"
    "semWriters p \<noteq> mutex p" "sem_valid (semReaders p)" "sem_valid (semWriters p)" "sem_valid (mutex p)"
    "sem_at k A X (nat (semReaders p)) []" "sem_at k A X (nat (semWriters p)) []" "sem_at k A X (nat (mutex p)) []"
    "sem_value (sems k (nat (semReaders p))) = count p"
    "sem_value (sems k (nat (semWriters p))) = PIPE_BUFFER_SIZE - count p"
    "sem_value (sems k (nat (mutex p))) = 1"
  shows "pipe_ready k A X i"
  using assms by (simp add: pipe_ready_def Let_def)

lemma sem_valid_nat: "sem_valid i \<Longrightarrow> sem_valid j \<Longrightarrow> nat i = nat j \<longleftrightarrow> i = j"
  by (auto simp: sem_valid_def)

lemma pipe_frame:
  "semReaders (snd (pipe_get p)) = semReaders p" "semWriters (snd (pipe_get p)) = semWriters p"
  "mutex (snd (pipe_get p)) = mutex p" "semReaders (snd (pipe_put b p)) = semReaders p"
  "semWriters (snd (pipe_put b p)) = semWriters p" "mutex (snd (pipe_put b p)) = mutex p"
  "isOpen (snd (pipe_put b p)) = isOpen p"
  by (simp_all add: pipe_get_def pipe_put_def)

context allocator
begin

lemma token_wait:
  assumes "manager k \<noteq> 0" "sem_valid i" "sem_at k A X (nat i) []" "0 < sem_value (sems k (nat i))"
  shows "semWait ops k i sp = Some (0, setv k (nat i) (sem_value (sems k (nat i)) - 1))"
  using semWait_token [OF assms(1,2) _ assms(4)] assms(3) by (simp add: sem_at_def setv_def)

lemma token_post:
  assumes "ks_inv rep k A X l" "manager k \<noteq> 0" "sem_valid i" "sem_at k A X (nat i) []"
    "sem_value (sems k (nat i)) < PIPE_BUFFER_SIZE"
  shows "semPost ops k i = Some (0, setv k (nat i) (sem_value (sems k (nat i)) + 1))"
  using semPost_token [OF assms(1-4)] assms(5) by (simp add: setv_def PIPE_BUFFER_SIZE_def u32_small)

lemma write_byte:
  assumes "ks_inv rep k A X l" "pipe_ready k A X i" "length (content (pipes k i)) < PIPE_BUFFER_SIZE"
  obtains k1 k' where "semWait ops k (semWriters (pipes k i)) sp = Some (0, k1)"
    "\<not> suspends k (semWriters (pipes k i)) 0" "write_body ops i c k1 sp = Some (True, k')"
    "ks_inv rep k' A X l" "pipe_ready k' A X i" "content (pipes k' i) = content (pipes k i) @ [c]" "ph k' = ph k"
    "pipeManagerInit k' = pipeManagerInit k" "isOpen (pipes k' i) = isOpen (pipes k i)"
proof -
  let ?p = "pipes k i"
  let ?r = "semReaders ?p" and ?w = "semWriters ?p" and ?m = "mutex ?p"
  have P: "manager k \<noteq> 0" "ring_ok ?p" "?r \<noteq> ?w" "?r \<noteq> ?m" "?w \<noteq> ?m" "sem_valid ?r" "sem_valid ?w" "sem_valid ?m"
    "sem_at k A X (nat ?r) []" "sem_at k A X (nat ?w) []" "sem_at k A X (nat ?m) []"
    "sem_value (sems k (nat ?r)) = count ?p" "sem_value (sems k (nat ?w)) = PIPE_BUFFER_SIZE - count ?p"
    "sem_value (sems k (nat ?m)) = 1"
    using assms(2) by (auto simp: pipe_ready_def Let_def)
  have ne: "nat ?r \<noteq> nat ?w" "nat ?r \<noteq> nat ?m" "nat ?w \<noteq> nat ?m" "nat ?w \<noteq> nat ?r" "nat ?m \<noteq> nat ?r" "nat ?m \<noteq> nat ?w"
    using P(3-8) by (auto simp: sem_valid_nat)
  have cnt: "count ?p < PIPE_BUFFER_SIZE" using assms(3) by simp
  obtain p' where p': "pipe_put c ?p = (True, p')" "ring_ok p'" "content p' = content ?p @ [c]"
    using pipe_put_spec [OF P(2) assms(3)] by blast
  have f: "semReaders p' = ?r" "semWriters p' = ?w" "mutex p' = ?m" and op: "isOpen p' = isOpen ?p"
    using pipe_frame(4-7) [of c ?p] p'(1) by simp_all
  have c': "count p' = count ?p + 1" using p'(3) length_content [of p'] by simp
  let ?k1 = "setv k (nat ?w) (PIPE_BUFFER_SIZE - count ?p - 1)"
  let ?k2 = "setv ?k1 (nat ?m) 0"
  let ?k3 = "set_pipe ?k2 i p'"
  let ?k4 = "setv ?k3 (nat ?m) 1"
  let ?k5 = "setv ?k4 (nat ?r) (count ?p + 1)"
  have s1: "semWait ops k ?w sp = Some (0, ?k1)"
    using token_wait [OF P(1,7,10)] P(13) cnt by simp
  have s2: "semWait ops ?k1 ?m sp = Some (0, ?k2)"
    using token_wait [of ?k1 ?m A X] by (simp add: P ne)
  have s4: "semPost ops ?k3 ?m = Some (0, ?k4)"
    using token_post [of ?k3 A X l ?m] assms(1) by (simp add: P ne PIPE_BUFFER_SIZE_def)
  have s5: "semPost ops ?k4 ?r = Some (0, ?k5)"
    using token_post [of ?k4 A X l ?r] assms(1) cnt by (simp add: P ne)
  have "write_body ops i c ?k1 sp = Some (True, ?k5)"
    using s2 s4 s5 p'(1) f by (simp add: write_body_def)
  moreover have "pipe_ready ?k5 A X i"
    by (rule pipe_readyI [where p = p', unfolded f]) (use cnt in \<open>simp_all add: P(1-11) p'(2) c' ne\<close>)
  ultimately show thesis
    using that [of ?k1 ?k5] s1 assms(1) p'(3) P(13) cnt op by (simp add: suspends_def)
qed

lemma read_byte:
  assumes "ks_inv rep k A X l" "pipe_ready k A X i" "content (pipes k i) = b # bs"
  obtains k1 k' where "semWait ops k (semReaders (pipes k i)) sp = Some (0, k1)"
    "\<not> suspends k (semReaders (pipes k i)) 0" "read_body ops i k1 sp = Some (Some b, k')"
    "ks_inv rep k' A X l" "pipe_ready k' A X i" "content (pipes k' i) = bs" "ph k' = ph k"
proof -
  let ?p = "pipes k i"
  let ?r = "semReaders ?p" and ?w = "semWriters ?p" and ?m = "mutex ?p"
  have P: "manager k \<noteq> 0" "ring_ok ?p" "?r \<noteq> ?w" "?r \<noteq> ?m" "?w \<noteq> ?m" "sem_valid ?r" "sem_valid ?w" "sem_valid ?m"
    "sem_at k A X (nat ?r) []" "sem_at k A X (nat ?w) []" "sem_at k A X (nat ?m) []"
    "sem_value (sems k (nat ?r)) = count ?p" "sem_value (sems k (nat ?w)) = PIPE_BUFFER_SIZE - count ?p"
    "sem_value (sems k (nat ?m)) = 1"
    using assms(2) by (auto simp: pipe_ready_def Let_def)
  have ne: "nat ?r \<noteq> nat ?w" "nat ?r \<noteq> nat ?m" "nat ?w \<noteq> nat ?m" "nat ?w \<noteq> nat ?r" "nat ?m \<noteq> nat ?r" "nat ?m \<noteq> nat ?w"
    using P(3-8) by (auto simp: sem_valid_nat)
  have cnt: "0 < count ?p" "count ?p \<le> PIPE_BUFFER_SIZE"
    using assms(3) length_content [of ?p] P(2) by (auto simp: ring_ok_def)
  obtain p' where p': "pipe_get ?p = (Some b, p')" "ring_ok p'" "content p' = bs"
    using pipe_get_spec [OF P(2) assms(3)] by blast
  have f: "semReaders p' = ?r" "semWriters p' = ?w" "mutex p' = ?m"
    using pipe_frame(1-3) [of ?p] p'(1) by simp_all
  have c': "count p' = count ?p - 1" using p'(3) assms(3) length_content [of p'] length_content [of ?p] by simp
  let ?k1 = "setv k (nat ?r) (count ?p - 1)"
  let ?k2 = "setv ?k1 (nat ?m) 0"
  let ?k3 = "set_pipe ?k2 i p'"
  let ?k4 = "setv ?k3 (nat ?m) 1"
  let ?k5 = "setv ?k4 (nat ?w) (PIPE_BUFFER_SIZE - count ?p + 1)"
  have s1: "semWait ops k ?r sp = Some (0, ?k1)"
    using token_wait [OF P(1,6,9)] P(12) cnt by simp
  have s2: "semWait ops ?k1 ?m sp = Some (0, ?k2)"
    using token_wait [of ?k1 ?m A X] by (simp add: P ne)
  have s4: "semPost ops ?k3 ?m = Some (0, ?k4)"
    using token_post [of ?k3 A X l ?m] assms(1) by (simp add: P ne PIPE_BUFFER_SIZE_def)
  have s5: "semPost ops ?k4 ?w = Some (0, ?k5)"
    using token_post [of ?k4 A X l ?w] assms(1) cnt by (simp add: P ne PIPE_BUFFER_SIZE_def)
  have "read_body ops i ?k1 sp = Some (Some b, ?k5)"
    using s2 s4 s5 p'(1) f by (simp add: read_body_def)
  moreover have "pipe_ready ?k5 A X i"
    by (rule pipe_readyI [where p = p', unfolded f]) (use cnt in \<open>simp_all add: P(1-11) p'(2) c' ne\<close>)
  ultimately show thesis
    using that [of ?k1 ?k5] s1 assms(1) p'(3) P(12) cnt by (simp add: suspends_def)
qed

lemma write_loop_law:
  assumes "ks_inv rep k A X l" "pipe_ready k A X i" "length (content (pipes k i)) + length cs \<le> PIPE_BUFFER_SIZE"
  shows "\<exists>k'. write_loop ops i cs n k sp = Some (Finished, [], n + length cs, k') \<and> ks_inv rep k' A X l \<and>
     pipe_ready k' A X i \<and> content (pipes k' i) = content (pipes k i) @ cs \<and> ph k' = ph k \<and>
     pipeManagerInit k' = pipeManagerInit k \<and> isOpen (pipes k' i) = isOpen (pipes k i)"
  using assms
proof (induction cs arbitrary: k n)
  case (Cons c cs)
  have "length (content (pipes k i)) < PIPE_BUFFER_SIZE" using Cons.prems(3) by simp
  from write_byte [OF Cons.prems(1,2) this] obtain k1 k2 where
    W: "semWait ops k (semWriters (pipes k i)) sp = Some (0, k1)"
    "\<not> suspends k (semWriters (pipes k i)) 0" "write_body ops i c k1 sp = Some (True, k2)"
    "ks_inv rep k2 A X l" "pipe_ready k2 A X i" "content (pipes k2 i) = content (pipes k i) @ [c]" "ph k2 = ph k"
    "pipeManagerInit k2 = pipeManagerInit k" "isOpen (pipes k2 i) = isOpen (pipes k i)"
    by metis
  have "length (content (pipes k2 i)) + length cs \<le> PIPE_BUFFER_SIZE"
    using Cons.prems(3) unfolding W(6) by simp
  from Cons.IH [OF W(4,5) this, of "n + 1"] W show ?case by auto
qed simp

lemma read_loop_law:
  assumes "ks_inv rep k A X l" "pipe_ready k A X i" "n \<le> length (content (pipes k i))"
  shows "\<exists>k'. read_loop ops i n acc k sp = Some (Finished, 0, acc @ map Some (take n (content (pipes k i))), k') \<and>
     ks_inv rep k' A X l \<and> pipe_ready k' A X i \<and> content (pipes k' i) = drop n (content (pipes k i)) \<and> ph k' = ph k"
  using assms
proof (induction n arbitrary: k acc)
  case (Suc n)
  then obtain b bs where b: "content (pipes k i) = b # bs" by (cases "content (pipes k i)") auto
  from read_byte [OF Suc.prems(1,2) b] obtain k1 k2 where
    R: "semWait ops k (semReaders (pipes k i)) sp = Some (0, k1)"
    "\<not> suspends k (semReaders (pipes k i)) 0" "read_body ops i k1 sp = Some (Some b, k2)"
    "ks_inv rep k2 A X l" "pipe_ready k2 A X i" "content (pipes k2 i) = bs" "ph k2 = ph k"
    by metis
  have "n \<le> length (content (pipes k2 i))" using Suc.prems(3) unfolding R(6) b by simp
  from Suc.IH [OF R(4,5) this, of "acc @ [Some b]"] R b show ?case by auto
qed simp

end

end
