(* ===== verification/Kernel_Lib.thy ===== *)
theory Kernel_Lib
  imports Kernel_Prelude
begin

text \<open>
  The byte memory and the routines of \<^verbatim>\<open>Kernel/lib.c\<close>: \<^verbatim>\<open>memset\<close>, \<^verbatim>\<open>strlen\<close>, \<^verbatim>\<open>strncpy\<close>
  and \<^verbatim>\<open>memcpy\<close>.

  A memory maps addresses to bytes (type \<open>char\<close>).  Words are stored with the least
  significant byte first.  The lemmas show that the word-wise path of \<^verbatim>\<open>memcpy\<close> computes the
  same memory as the byte-wise one for all arguments, what each routine does to the memory,
  and that the \<^verbatim>\<open>uint8_t\<close> result of \<^verbatim>\<open>strlen\<close> wraps at 256.
\<close>

section \<open>Memory\<close>

type_synonym mem = "addr \<Rightarrow> char"

abbreviation NUL :: char where "NUL \<equiv> CHR 0x00"

text \<open>Little-endian access to \<open>n\<close> bytes.\<close>

fun load_le :: "mem \<Rightarrow> addr \<Rightarrow> nat \<Rightarrow> nat" where
  "load_le m a 0 = 0"
| "load_le m a (Suc n) = of_char (m a) + 256 * load_le m (a + 1) n"

fun store_le :: "mem \<Rightarrow> addr \<Rightarrow> nat \<Rightarrow> nat \<Rightarrow> mem" where
  "store_le m a 0 v = m"
| "store_le m a (Suc n) v = store_le (m(a := char_of v)) (a + 1) n (v div 256)"

section \<open>Operations\<close>

fun memset_loop :: "mem \<Rightarrow> addr \<Rightarrow> char \<Rightarrow> nat \<Rightarrow> mem" where
  "memset_loop m dst chr 0 = m"
| "memset_loop m dst chr (Suc n) = memset_loop (m(dst + n := chr)) dst chr n"

definition memset :: "mem \<Rightarrow> addr \<Rightarrow> int \<Rightarrow> nat \<Rightarrow> addr \<times> mem" where
  "memset m destination c len = (destination, memset_loop m destination (char_of c) len)"

text \<open>The loop of \<^verbatim>\<open>strlen\<close> ends where the memory holds a NUL; without one it does not return.\<close>

partial_function (option) strlen_walk :: "mem \<Rightarrow> addr \<Rightarrow> addr option" where
  [code]: "strlen_walk m p = (if m p = NUL then Some p else strlen_walk m (p + 1))"

definition strlen :: "mem \<Rightarrow> addr \<Rightarrow> nat option" where
  "strlen m s = map_option (\<lambda>p. u8 (p - s)) (strlen_walk m s)"

fun strncpy_pad :: "mem \<Rightarrow> addr \<Rightarrow> nat \<Rightarrow> nat \<Rightarrow> mem" where
  "strncpy_pad m d i 0 = m"
| "strncpy_pad m d i (Suc n) = strncpy_pad (m(d + i := NUL)) d (i + 1) n"

fun strncpy_copy :: "mem \<Rightarrow> addr \<Rightarrow> addr \<Rightarrow> nat \<Rightarrow> nat \<Rightarrow> mem" where
  "strncpy_copy m d s i 0 = m"
| "strncpy_copy m d s i (Suc n) = (if m (s + i) \<noteq> NUL then strncpy_copy (m(d + i := m (s + i))) d s (i + 1) n
     else strncpy_pad m d i (Suc n))"

definition strncpy :: "mem \<Rightarrow> addr \<Rightarrow> addr \<Rightarrow> nat \<Rightarrow> addr \<times> mem" where
  "strncpy m destination source len = (destination, strncpy_copy m destination source 0 len)"

fun memcpy_words :: "mem \<Rightarrow> addr \<Rightarrow> addr \<Rightarrow> nat \<Rightarrow> nat \<Rightarrow> mem" where
  "memcpy_words m d s i 0 = m"
| "memcpy_words m d s i (Suc n) = memcpy_words (store_le m (d + 4 * i) 4 (load_le m (s + 4 * i) 4)) d s (i + 1) n"

fun memcpy_bytes :: "mem \<Rightarrow> addr \<Rightarrow> addr \<Rightarrow> nat \<Rightarrow> nat \<Rightarrow> mem" where
  "memcpy_bytes m d s i 0 = m"
| "memcpy_bytes m d s i (Suc n) = memcpy_bytes (m(d + i := m (s + i))) d s (i + 1) n"

definition memcpy :: "mem \<Rightarrow> addr \<Rightarrow> addr \<Rightarrow> nat \<Rightarrow> addr \<times> mem" where
  "memcpy m destination source len = (destination,
     if destination mod 4 = 0 \<and> source mod 4 = 0 \<and> len mod 4 = 0
     then memcpy_words m destination source 0 (len div 4)
     else memcpy_bytes m destination source 0 len)"

section \<open>Effect on the memory\<close>

text \<open>Writing a list of bytes, and reading one.\<close>

definition put :: "mem \<Rightarrow> addr \<Rightarrow> string \<Rightarrow> mem" where
  "put m a cs = (\<lambda>x. if a \<le> x \<and> x < a + length cs then cs ! (x - a) else m x)"

definition bytes_at :: "mem \<Rightarrow> addr \<Rightarrow> nat \<Rightarrow> string" where
  "bytes_at m a n = map (\<lambda>i. m (a + i)) [0..<n]"

lemma put_Nil [simp]: "put m a [] = m"
  by (auto simp: put_def fun_eq_iff)

lemma put_Cons: "put m a (c # cs) = put (m(a := c)) (a + 1) cs"
  by (auto simp: put_def fun_eq_iff nth_Cons' Suc_diff_le)

lemma put_replicate: "put m a (replicate n c) = (\<lambda>x. if a \<le> x \<and> x < a + n then c else m x)"
  by (auto simp: put_def fun_eq_iff)

lemma length_bytes_at [simp]: "length (bytes_at m a n) = n"
  by (simp add: bytes_at_def)

lemma bytes_at_put [simp]: "bytes_at (put m a cs) a (length cs) = cs"
  by (rule nth_equalityI) (simp_all add: bytes_at_def put_def)

lemma put_apply_out: "x < a \<or> a + length cs \<le> x \<Longrightarrow> put m a cs x = m x"
  by (auto simp: put_def)

lemma bytes_at_cong: "(\<And>i. i < n \<Longrightarrow> m' (a + i) = m (a + i)) \<Longrightarrow> bytes_at m' a n = bytes_at m a n"
  by (simp add: bytes_at_def)

lemma bytes_at_put_disjoint: "a + length cs \<le> b \<or> b + n \<le> a \<Longrightarrow> bytes_at (put m a cs) b n = bytes_at m b n"
  by (rule bytes_at_cong) (auto simp: put_def)

lemma memset_loop_put: "memset_loop m d c n = put m d (replicate n c)"
  by (induction n arbitrary: m) (auto simp: put_replicate fun_eq_iff less_Suc_eq simp del: replicate_Suc)

lemma strncpy_pad_put: "strncpy_pad m d i n = put m (d + i) (replicate n NUL)"
  by (induction n arbitrary: m i) (auto simp: put_replicate fun_eq_iff less_Suc_eq simp del: replicate_Suc)

text \<open>The bytes \<^verbatim>\<open>strncpy\<close> writes: the string up to its NUL, padded.\<close>

definition strn :: "nat \<Rightarrow> string \<Rightarrow> string" where
  "strn n cs = (let p = takeWhile (\<lambda>c. c \<noteq> NUL) (take n cs) in p @ replicate (n - length p) NUL)"

lemma length_strn [simp]: "n \<le> length cs \<Longrightarrow> length (strn n cs) = n"
  using length_takeWhile_le [of "\<lambda>c. c \<noteq> NUL" "take n cs"] by (simp add: strn_def Let_def)

text \<open>\<open>string_at m a cs\<close>: the C string \<open>cs\<close> with its NUL is at \<open>a\<close>.\<close>

definition string_at :: "mem \<Rightarrow> addr \<Rightarrow> string \<Rightarrow> bool" where
  "string_at m a cs \<longleftrightarrow> NUL \<notin> set cs \<and> bytes_at m a (Suc (length cs)) = cs @ [NUL]"

lemma bytes_at_Suc: "bytes_at m a (Suc n) = m a # bytes_at m (a + 1) n"
  by (simp add: bytes_at_def upt_conv_Cons map_Suc_upt [symmetric] comp_def del: upt_Suc map_Suc_upt)

lemma string_at_Nil [simp]: "string_at m a [] \<longleftrightarrow> m a = NUL"
  by (auto simp: string_at_def bytes_at_Suc) (simp add: bytes_at_def)

lemma string_at_Cons [simp]: "string_at m a (c # cs) \<longleftrightarrow> c \<noteq> NUL \<and> m a = c \<and> string_at m (a + 1) cs"
  by (auto simp: string_at_def bytes_at_Suc)

lemma strlen_walk_string: "string_at m a cs \<Longrightarrow> strlen_walk m a = Some (a + length cs)"
  by (induction cs arbitrary: a) (subst strlen_walk.simps, simp)+

subsection \<open>Copying\<close>

lemma char_of_low [simp]: "char_of (of_char c + 256 * x :: nat) = c"
proof -
  have "char_of (of_char c + 256 * x :: nat) = char_of ((of_char c + 256 * x) mod 256 :: nat)"
    by (simp only: char_of_mod_256)
  then show ?thesis by simp
qed

lemma of_char_256 [simp]: "of_char c < (256 :: nat)"
  using of_char_mod_256 [of c, where 'a = nat] by (metis mod_less_divisor zero_less_numeral)

lemma div_low [simp]: "(of_char c + 256 * x :: nat) div 256 = x"
  by (simp add: div_mult_self4)

lemma store_load4: "store_le m d 4 (load_le m s 4) =
   m(d := m s, d + 1 := m (s + 1), d + 2 := m (s + 2), d + 3 := m (s + 3))"
proof -
  have 4: "4 = Suc (Suc (Suc (Suc 0)))" by simp
  show ?thesis unfolding 4 load_le.simps store_le.simps char_of_low div_low
    using char_of_low [of "m (s + 1 + 1 + 1)" 0] by (simp add: eval_nat_numeral)
qed

text \<open>One word copied is four bytes copied, unless the areas overlap by less than a word.\<close>

lemma word_step:
  assumes "d = s \<or> s + 4 \<le> d \<or> d + 4 \<le> s"
  shows "store_le m (d + i) 4 (load_le m (s + i) 4) = memcpy_bytes m d s i 4"
  using assms unfolding store_load4 by (auto simp: numeral_eq_Suc fun_eq_iff)

lemma memcpy_bytes_add: "memcpy_bytes m d s i (n + k) = memcpy_bytes (memcpy_bytes m d s i n) d s (i + n) k"
  by (induction n arbitrary: m i) simp_all

lemma memcpy_words_bytes:
  assumes "d = s \<or> s + 4 \<le> d \<or> d + 4 \<le> s"
  shows "memcpy_words m d s i n = memcpy_bytes m d s (4 * i) (4 * n)"
proof (induction n arbitrary: m i)
  case (Suc n)
  have "memcpy_bytes m d s (4 * i) (4 * Suc n) = memcpy_bytes (memcpy_bytes m d s (4 * i) 4) d s (4 * i + 4) (4 * n)"
    using memcpy_bytes_add [of m d s "4 * i" 4 "4 * n"] by simp
  then show ?case using Suc.IH [of _ "i + 1"] word_step [OF assms, of m "4 * i"] by (simp add: add.commute)
qed simp

text \<open>A forward copy is right unless the destination starts inside the source.\<close>

lemma memcpy_bytes_put:
  assumes "d \<le> s \<or> s + i + n \<le> d"
  shows "memcpy_bytes m d s i n = put m (d + i) (bytes_at m (s + i) n)"
  using assms
proof (induction n arbitrary: m i)
  case (Suc n)
  let ?m = "m(d + i := m (s + i))"
  have "memcpy_bytes m d s i (Suc n) = put ?m (d + (i + 1)) (bytes_at ?m (s + (i + 1)) n)"
    using Suc.IH [of "i + 1" ?m] Suc.prems by (simp del: fun_upd_apply)
  also have "bytes_at ?m (s + (i + 1)) n = bytes_at m (s + (i + 1)) n"
    using Suc.prems by (intro bytes_at_cong) auto
  also have "put ?m (d + (i + 1)) (bytes_at m (s + (i + 1)) n) = put m (d + i) (bytes_at m (s + i) (Suc n))"
    by (simp add: put_Cons bytes_at_Suc)
  finally show ?case .
qed (simp add: bytes_at_def)

lemma strncpy_copy_put:
  assumes "d + i + n \<le> s + i \<or> s + i + n \<le> d + i"
  shows "strncpy_copy m d s i n = put m (d + i) (strn n (bytes_at m (s + i) n))"
  using assms
proof (induction n arbitrary: m i)
  case (Suc n)
  show ?case
  proof (cases "m (s + i) = NUL")
    case True
    then have "strn (Suc n) (bytes_at m (s + i) (Suc n)) = replicate (Suc n) NUL"
      by (simp add: strn_def bytes_at_Suc)
    then show ?thesis using True by (simp add: strncpy_pad_put del: strncpy_pad.simps replicate_Suc)
  next
    case False
    let ?m = "m(d + i := m (s + i))"
    have prem: "d + (i + 1) + n \<le> s + (i + 1) \<or> s + (i + 1) + n \<le> d + (i + 1)" using Suc.prems by auto
    have "strncpy_copy m d s i (Suc n) = put ?m (d + (i + 1)) (strn n (bytes_at ?m (s + (i + 1)) n))"
      using Suc.IH [of "i + 1" ?m] prem False by (simp del: fun_upd_apply)
    also have "bytes_at ?m (s + (i + 1)) n = bytes_at m (s + (i + 1)) n"
      using Suc.prems by (intro bytes_at_cong) auto
    also have "put ?m (d + (i + 1)) (strn n (bytes_at m (s + (i + 1)) n)) =
        put m (d + i) (m (s + i) # strn n (bytes_at m (s + (i + 1)) n))"
      by (simp add: put_Cons)
    also have "m (s + i) # strn n (bytes_at m (s + (i + 1)) n) = strn (Suc n) (bytes_at m (s + i) (Suc n))"
      using False by (simp add: strn_def bytes_at_Suc Let_def)
    finally show ?thesis .
  qed
qed (simp add: strn_def bytes_at_def)

lemma memcpy_bytes_eq: "memcpy m d s n = (d, memcpy_bytes m d s 0 n)"
proof -
  have "d = s \<or> s + 4 \<le> d \<or> d + 4 \<le> s" if "d mod 4 = 0" "s mod 4 = 0"
    using that by presburger
  then show ?thesis using memcpy_words_bytes [of d s m 0 "n div 4"] by (auto simp: memcpy_def)
qed

lemma memcpy_put: "d \<le> s \<or> s + n \<le> d \<Longrightarrow> memcpy m d s n = (d, put m d (bytes_at m s n))"
  using memcpy_bytes_put [of d s 0 n m] by (simp add: memcpy_bytes_eq)

section \<open>Properties\<close>

text \<open>\<^verbatim>\<open>strlen\<close> returns for every NUL-terminated string, and its \<^verbatim>\<open>uint8_t\<close> result is the
  length modulo 256.\<close>

theorem strlen_wraps: "string_at m s cs \<Longrightarrow> strlen m s = Some (length cs mod 256)"
  by (simp add: strlen_def strlen_walk_string u8_def)

theorem strlen_wraps_witness:
  "strlen (put (\<lambda>_. NUL) 100 (replicate 256 CHR ''a'')) 100 = Some 0"
proof -
  let ?m = "put (\<lambda>_. NUL) 100 (replicate 256 CHR ''a'')"
  have "bytes_at ?m 100 (Suc 256) = replicate 256 CHR ''a'' @ [NUL]"
    by (rule nth_equalityI) (auto simp: bytes_at_def put_def nth_append simp del: upt_Suc)
  then have "string_at ?m 100 (replicate 256 CHR ''a'')" by (simp add: string_at_def)
  from strlen_wraps [OF this] show ?thesis by simp
qed

text \<open>C23. Equivalence: \<^verbatim>\<open>memcpy\<close> computes the memory of the plain byte loop for every
  destination, source and length, whether or not it takes the word-wise path, and also when the
  areas overlap; if the destination does not start inside the source this is the copy of the
  source bytes.\<close>

theorem memcpy_equiv:
  "memcpy m d s n = (d, memcpy_bytes m d s 0 n) \<and>
   (d \<le> s \<or> s + n \<le> d \<longrightarrow> memcpy m d s n = (d, put m d (bytes_at m s n)))"
  using memcpy_put by (auto simp: memcpy_bytes_eq)

theorem memcpy_equiv_witness:
  "memcpy (put (\<lambda>_. NUL) 8 ''abcdefgh'') 100 8 8 = (100, put (put (\<lambda>_. NUL) 8 ''abcdefgh'') 100 ''abcdefgh'')"
proof -
  let ?m = "put (\<lambda>_. NUL) 8 ''abcdefgh''"
  have "bytes_at ?m 8 8 = ''abcdefgh''" using bytes_at_put [of "\<lambda>_. NUL" 8 "''abcdefgh''"]
    by (simp add: eval_nat_numeral)
  moreover have "100 \<le> (8::nat) \<or> 8 + 8 \<le> (100::nat)" by simp
  then have "memcpy ?m 100 8 8 = (100, put ?m 100 (bytes_at ?m 8 8))" using memcpy_equiv by blast
  ultimately show ?thesis by (simp only:)
qed

text \<open>\<^verbatim>\<open>memset\<close> writes exactly its area, and \<^verbatim>\<open>strncpy\<close> between disjoint areas writes exactly
  \<open>n\<close> bytes: the source up to its NUL and NULs behind; a source of \<open>n\<close> or more bytes is cut and
  not terminated.\<close>

theorem lib_fill_copy:
  assumes "d + n \<le> s \<or> s + n \<le> d"
  shows "memset m d c n = (d, put m d (replicate n (char_of c))) \<and>
     strncpy m d s n = (d, put m d (strn n (bytes_at m s n))) \<and>
     (NUL \<notin> set (bytes_at m s n) \<longrightarrow> strn n (bytes_at m s n) = bytes_at m s n)"
proof -
  have "strn n (bytes_at m s n) = bytes_at m s n" if "NUL \<notin> set (bytes_at m s n)"
  proof -
    have "takeWhile (\<lambda>c. c \<noteq> NUL) (bytes_at m s n) = bytes_at m s n"
      unfolding takeWhile_eq_all_conv using that by metis
    then have "strn n (bytes_at m s n) = bytes_at m s n @ replicate (n - length (bytes_at m s n)) NUL"
      unfolding strn_def Let_def by (metis length_bytes_at order_refl take_all)
    then show ?thesis by simp
  qed
  then show ?thesis
    using assms strncpy_copy_put [of d 0 n s m] by (simp add: memset_def memset_loop_put strncpy_def)
qed

theorem lib_fill_copy_witness:
  "strncpy (put (\<lambda>_. CHR ''x'') 8 [CHR ''a'', NUL, CHR ''b'']) 100 8 3 =
     (100, put (put (\<lambda>_. CHR ''x'') 8 [CHR ''a'', NUL, CHR ''b'']) 100 [CHR ''a'', NUL, NUL])"
proof -
  let ?m = "put (\<lambda>_. CHR ''x'') 8 [CHR ''a'', NUL, CHR ''b'']"
  have b: "bytes_at ?m 8 3 = [CHR ''a'', NUL, CHR ''b'']"
    using bytes_at_put [of "\<lambda>_. CHR ''x''" 8 "[CHR ''a'', NUL, CHR ''b'']"] by (simp add: numeral_eq_Suc)
  have "100 + 3 \<le> (8::nat) \<or> 8 + 3 \<le> (100::nat)" by simp
  from lib_fill_copy [OF this, of ?m 0] show ?thesis unfolding b by (simp add: strn_def numeral_eq_Suc)
qed

end
