(* ===== verification/Stack_Frame.thy ===== *)
theory Stack_Frame
  imports Kernel_Lib Queue_ADT Buddy_MM
begin

text \<open>
  The initial stack of a process: \<^verbatim>\<open>Kernel/processes/stackFrame.c\<close> and the routine
  \<^verbatim>\<open>stackFrame\<close> of \<^verbatim>\<open>Kernel/asm/process.asm\<close>.

  The arguments are copied to the top of the stack (an array of pointers, the strings
  below it), and the registers of the first context lie below them.  \<open>wrapper\<close>, the address
  the new process starts at, is an argument.  The main lemma says that the process finds its
  arguments: the new array points to copies of the strings, inside the stack, and nothing
  outside the stack is written.
\<close>

section \<open>Operations\<close>

definition PROCESS_STACK_SIZE :: nat where "PROCESS_STACK_SIZE = 4096"

abbreviation load64 :: "mem \<Rightarrow> addr \<Rightarrow> nat" where "load64 m a \<equiv> load_le m a 8"
abbreviation store64 :: "mem \<Rightarrow> addr \<Rightarrow> nat \<Rightarrow> mem" where "store64 m a v \<equiv> store_le m a 8 v"

text \<open>The loop over the arguments, from the last to the first; \<open>n\<close> are left.\<close>

fun copy_args :: "mem \<Rightarrow> nat \<Rightarrow> addr \<Rightarrow> addr \<Rightarrow> nat \<Rightarrow> (nat \<times> mem) option" where
  "copy_args m paramsBase newArgv argv 0 = Some (paramsBase, m)"
| "copy_args m paramsBase newArgv argv (Suc i) = do {
     l \<leftarrow> strlen m (load64 m (argv + 8 * i));
     let len = l + 1;
     let paramsBase = sub64 paramsBase len;
     let m = snd (strncpy m paramsBase (load64 m (argv + 8 * i)) len);
     let m = store64 m (newArgv + 8 * i) paramsBase;
     copy_args m paramsBase newArgv argv i
   }"

text \<open>\<^verbatim>\<open>int i = argc - 1\<close>: the number of iterations, with the conversion to 32 bits.\<close>

definition arg_iterations :: "nat \<Rightarrow> nat" where
  "arg_iterations argc = (let i = u32 (sub64 argc 1) in if i < 2 ^ 31 then i + 1 else 0)"

definition copyToStack :: "mem \<Rightarrow> nat \<Rightarrow> nat \<Rightarrow> addr \<Rightarrow> (addr \<times> nat \<times> mem) option" where
  "copyToStack m paramsBase argc argv =
     (if argc > 0 \<and> argv \<noteq> 0 then do {
        let paramsBase = sub64 paramsBase (u64 (8 * (argc + 1)));
        let newArgv = paramsBase;
        (paramsBase, m) \<leftarrow> copy_args m paramsBase newArgv argv (arg_iterations argc);
        Some (newArgv, paramsBase, store64 m (newArgv + 8 * argc) 0)
      } else Some (0, paramsBase, m))"

fun push_all :: "mem \<Rightarrow> nat \<Rightarrow> nat list \<Rightarrow> nat \<times> mem" where
  "push_all m sp [] = (sp, m)"
| "push_all m sp (v # vs) = push_all (store64 m (sub64 sp 8) v) (sub64 sp 8) vs"

definition stackFrame :: "addr \<Rightarrow> mem \<Rightarrow> nat \<Rightarrow> nat \<Rightarrow> nat \<Rightarrow> addr \<Rightarrow> nat \<times> mem" where
  "stackFrame wrapper m rdi rsi rdx rcx = push_all m (rdi - rdi mod 16)
     [0, rdi, 0x202, 0x8, wrapper, 0, 0, 0, 0, 0, 0, 0, rsi, 0, rdx, rcx, 0, 0, 0, 0]"

text \<open>The new base, the stack pointer (0 without memory), the heap and the memory.\<close>

definition setUpStackFrame :: "'m mm_ops \<Rightarrow> addr \<Rightarrow> 'm qheap \<Rightarrow> mem \<Rightarrow> nat \<Rightarrow> nat \<Rightarrow> addr \<Rightarrow>
    (nat \<times> nat \<times> 'm qheap \<times> mem) option" where
  "setUpStackFrame ops wrapper h m entry argc argv = do {
     (p, h) \<leftarrow> kalloc ops h PROCESS_STACK_SIZE;
     if p = 0 then Some (0, 0, h, m)
     else do {
       let bas = u64 (p + PROCESS_STACK_SIZE);
       (newArgv, paramsBase, m) \<leftarrow> copyToStack m bas argc argv;
       let (sp, m) = stackFrame wrapper m paramsBase entry argc newArgv;
       Some (bas, sp, h, m)
     }
   }"

section \<open>Words in memory\<close>

lemma load_le_cong: "(\<And>i. i < n \<Longrightarrow> m' (a + i) = m (a + i)) \<Longrightarrow> load_le m' a n = load_le m a n"
proof (induction n arbitrary: a)
  case (Suc n)
  have "load_le m' (a + 1) n = load_le m (a + 1) n" using Suc.IH [of "a + 1"] Suc.prems [of "Suc _"] by simp
  then show ?case using Suc.prems [of 0] by simp
qed simp

lemma store_le_out: "x < a \<or> a + n \<le> x \<Longrightarrow> store_le m a n v x = m x"
  by (induction n arbitrary: m a v) auto

lemma load_store_le: "load_le (store_le m a n v) a n = v mod 256 ^ n"
proof (induction n arbitrary: m a v)
  case (Suc n)
  have "store_le (m(a := char_of v)) (a + 1) n (v div 256) a = char_of v" by (simp add: store_le_out)
  then have "load_le (store_le m a (Suc n) v) a (Suc n) = v mod 256 + 256 * (v div 256 mod 256 ^ n)"
    using Suc.IH by simp
  then show ?case by (simp add: mod_mult2_eq)
qed simp

lemma load_store_other: "b + k \<le> a \<or> a + n \<le> b \<Longrightarrow> load_le (store_le m a n v) b k = load_le m b k"
  by (rule load_le_cong) (auto simp: store_le_out)

lemma load64_store64 [simp]: "v < 2 ^ 64 \<Longrightarrow> load64 (store64 m a v) a = v"
  by (simp add: load_store_le)

lemma load64_frame: "(\<And>x. a \<le> x \<Longrightarrow> x < a + 8 \<Longrightarrow> m' x = m x) \<Longrightarrow> load64 m' a = load64 m a"
  by (intro load_le_cong) simp

lemma string_at_frame:
  "string_at m a cs \<Longrightarrow> (\<And>x. a \<le> x \<Longrightarrow> x \<le> a + length cs \<Longrightarrow> m' x = m x) \<Longrightarrow> string_at m' a cs"
  unfolding string_at_def using bytes_at_cong [of "Suc (length cs)" m' a m] by simp

lemma string_at_strn: "string_at m a cs \<Longrightarrow> strn (Suc (length cs)) (bytes_at m a (Suc (length cs))) = cs @ [NUL]"
proof -
  assume a: "string_at m a cs"
  then have "takeWhile (\<lambda>c. c \<noteq> NUL) (cs @ [NUL]) = cs"
    by (intro takeWhile_eq_take_P_nth [THEN trans]) (auto simp: string_at_def nth_append in_set_conv_nth)
  then show ?thesis using a by (simp add: strn_def string_at_def)
qed

lemma string_at_put: "NUL \<notin> set cs \<Longrightarrow> string_at (put m a (cs @ [NUL])) a cs"
  using bytes_at_put [of m a "cs @ [NUL]"] by (simp add: string_at_def)

section \<open>The arguments arrive\<close>

text \<open>The argument vector of the caller, outside the area \<open>lo .. hi\<close> of the new stack.\<close>

definition args_ok :: "mem \<Rightarrow> addr \<Rightarrow> string list \<Rightarrow> nat \<Rightarrow> nat \<Rightarrow> bool" where
  "args_ok m argv args lo hi \<longleftrightarrow> (\<forall>i < length args. let p = load64 m (argv + 8 * i); cs = args ! i in
     length cs < 255 \<and> string_at m p cs \<and> (p + length cs < lo \<or> hi \<le> p) \<and>
     (argv + 8 * i + 8 \<le> lo \<or> hi \<le> argv + 8 * i))"

definition args_size :: "string list \<Rightarrow> nat" where
  "args_size args = sum_list (map (\<lambda>cs. length cs + 1) args)"

text \<open>Entry \<open>i\<close> of the array at \<open>na\<close> points to a copy of the string between \<open>lo\<close> and \<open>hi\<close>.\<close>

definition arg_copied :: "mem \<Rightarrow> addr \<Rightarrow> string list \<Rightarrow> nat \<Rightarrow> nat \<Rightarrow> nat \<Rightarrow> bool" where
  "arg_copied m na args lo hi i \<longleftrightarrow> (let p = load64 m (na + 8 * i) in
     lo \<le> p \<and> p + length (args ! i) < hi \<and> string_at m p (args ! i))"

lemma args_ok_frame:
  assumes "args_ok m argv args lo hi" "\<And>x. x < lo \<or> hi \<le> x \<Longrightarrow> m' x = m x"
  shows "args_ok m' argv args lo hi"
  unfolding args_ok_def Let_def
proof (intro allI impI)
  fix i assume i: "i < length args"
  let ?p = "load64 m (argv + 8 * i)"
  have A: "length (args ! i) < 255" "string_at m ?p (args ! i)" "?p + length (args ! i) < lo \<or> hi \<le> ?p"
    "argv + 8 * i + 8 \<le> lo \<or> hi \<le> argv + 8 * i"
    using assms(1) i by (simp_all add: args_ok_def Let_def)
  have p: "load64 m' (argv + 8 * i) = ?p" by (rule load64_frame) (use A(4) assms(2) in auto)
  have "string_at m' ?p (args ! i)" by (rule string_at_frame [OF A(2)]) (use A(3) assms(2) in auto)
  then show "length (args ! i) < 255 \<and> string_at m' (load64 m' (argv + 8 * i)) (args ! i) \<and>
      (load64 m' (argv + 8 * i) + length (args ! i) < lo \<or> hi \<le> load64 m' (argv + 8 * i)) \<and>
      (argv + 8 * i + 8 \<le> lo \<or> hi \<le> argv + 8 * i)"
    using A p by simp
qed

lemma arg_copied_frame:
  assumes "arg_copied m na args lo hi i" "\<And>x. lo \<le> x \<Longrightarrow> x < hi \<Longrightarrow> m' x = m x"
    "\<And>x. na + 8 * i \<le> x \<Longrightarrow> x < na + 8 * i + 8 \<Longrightarrow> m' x = m x"
  shows "arg_copied m' na args lo hi i"
proof -
  have p: "load64 m' (na + 8 * i) = load64 m (na + 8 * i)" by (rule load64_frame) (rule assms(3))
  have A: "lo \<le> load64 m (na + 8 * i)" "load64 m (na + 8 * i) + length (args ! i) < hi"
    "string_at m (load64 m (na + 8 * i)) (args ! i)" using assms(1) by (simp_all add: arg_copied_def Let_def)
  have "string_at m' (load64 m (na + 8 * i)) (args ! i)"
    by (rule string_at_frame [OF A(3)]) (use A(1,2) assms(2) in auto)
  then show ?thesis using A unfolding arg_copied_def Let_def p by simp
qed

lemma arg_copied_mono:
  "arg_copied m na args lo hi i \<Longrightarrow> lo' \<le> lo \<Longrightarrow> hi \<le> hi' \<Longrightarrow> arg_copied m na args lo' hi' i"
  by (auto simp: arg_copied_def Let_def)

lemma args_size_take_Suc: "n < length args \<Longrightarrow> args_size (take (Suc n) args) = args_size (take n args) + length (args ! n) + 1"
  by (simp add: args_size_def take_Suc_conv_app_nth)

lemma copy_args_law:
  assumes "args_ok m argv args lo hi" "n \<le> length args" "pb \<le> na" "na + 8 * length args \<le> hi" "hi < 2 ^ 64"
    "lo + args_size (take n args) \<le> pb"
  shows "\<exists>m'. copy_args m pb na argv n = Some (pb - args_size (take n args), m') \<and>
     (\<forall>x. x < pb - args_size (take n args) \<or> (pb \<le> x \<and> x < na) \<or> na + 8 * n \<le> x \<longrightarrow> m' x = m x) \<and>
     (\<forall>i < n. arg_copied m' na args (pb - args_size (take n args)) pb i)"
  using assms
proof (induction n arbitrary: m pb)
  case 0
  then show ?case by (simp add: args_size_def)
next
  case (Suc n)
  let ?p = "load64 m (argv + 8 * n)" and ?cs = "args ! n"
  let ?pb = "pb - (length ?cs + 1)"
  let ?m1 = "put m ?pb (?cs @ [NUL])" let ?m2 = "store64 ?m1 (na + 8 * n) ?pb"
  have n: "n < length args" using Suc.prems(2) by simp
  have sz: "args_size (take (Suc n) args) = args_size (take n args) + length ?cs + 1"
    by (rule args_size_take_Suc [OF n])
  have A: "length ?cs < 255" "string_at m ?p ?cs" "?p + length ?cs < lo \<or> hi \<le> ?p"
    using Suc.prems(1) n by (simp_all add: args_ok_def Let_def)
  have pb: "lo + args_size (take n args) \<le> ?pb" "length ?cs + 1 \<le> pb" using Suc.prems(6) sz by linarith+
  have len: "strlen m ?p = Some (length ?cs)"
    using A(1,2) by (simp add: strlen_def strlen_walk_string u8_small)
  have "?pb + Suc (length ?cs) \<le> ?p \<or> ?p + Suc (length ?cs) \<le> ?pb"
    using A(3) pb Suc.prems(3,4) by linarith
  then have cp: "snd (strncpy m ?pb ?p (length ?cs + 1)) = ?m1"
    using strncpy_copy_put [of ?pb 0 "Suc (length ?cs)" ?p m] string_at_strn [OF A(2)] by (simp add: strncpy_def)
  have out1: "?m1 x = m x" if "x < ?pb \<or> pb \<le> x" for x
    using that pb(2) by (intro put_apply_out) auto
  have out2: "?m2 x = ?m1 x" if "x < na + 8 * n \<or> na + 8 * n + 8 \<le> x" for x
    using that by (rule store_le_out)
  have "args_ok ?m2 argv args lo hi"
  proof (rule args_ok_frame [OF Suc.prems(1)])
    fix x assume x: "x < lo \<or> hi \<le> x"
    then have "?m2 x = ?m1 x" using Suc.prems(3,4) pb n by (intro out2) linarith
    moreover have "?m1 x = m x" using x pb Suc.prems(3,4) by (intro out1) linarith
    ultimately show "?m2 x = m x" by simp
  qed
  from Suc.IH [OF this _ _ Suc.prems(4,5) pb(1)] obtain m' where m':
    "copy_args ?m2 ?pb na argv n = Some (?pb - args_size (take n args), m')"
    "\<And>x. x < ?pb - args_size (take n args) \<or> (?pb \<le> x \<and> x < na) \<or> na + 8 * n \<le> x \<Longrightarrow> m' x = ?m2 x"
    "\<And>i. i < n \<Longrightarrow> arg_copied m' na args (?pb - args_size (take n args)) ?pb i"
    using n Suc.prems(3) by fastforce
  have e: "?pb - args_size (take n args) = pb - args_size (take (Suc n) args)" using sz by simp
  have run: "copy_args m pb na argv (Suc n) = Some (pb - args_size (take (Suc n) args), m')"
    using len cp m'(1) pb(2) unfolding e by (simp add: sub64_le Let_def)
  have frame: "m' x = m x"
    if "x < pb - args_size (take (Suc n) args) \<or> (pb \<le> x \<and> x < na) \<or> na + 8 * Suc n \<le> x" for x
  proof -
    have "m' x = ?m2 x" using that unfolding e [symmetric] by (intro m'(2)) auto
    also have "\<dots> = ?m1 x" using that Suc.prems(3) sz pb by (intro out2) auto
    also have "\<dots> = m x" using that Suc.prems(3) sz pb by (intro out1) auto
    finally show ?thesis .
  qed
  have new: "arg_copied m' na args (pb - args_size (take (Suc n) args)) pb n"
  proof -
    have "load64 m' (na + 8 * n) = load64 ?m2 (na + 8 * n)" by (rule load64_frame) (rule m'(2), simp)
    also have "\<dots> = ?pb" using Suc.prems(3,4,5) by (intro load64_store64) linarith
    finally have l: "load64 m' (na + 8 * n) = ?pb" .
    have "string_at ?m1 ?pb ?cs" using A(2) by (intro string_at_put) (simp add: string_at_def)
    moreover have "m' x = ?m1 x" if "?pb \<le> x" "x \<le> ?pb + length ?cs" for x
    proof -
      have "x < na" using that pb(2) Suc.prems(3) by linarith
      have "m' x = ?m2 x" by (rule m'(2)) (use that \<open>x < na\<close> in simp)
      also have "\<dots> = ?m1 x" by (rule out2) (use \<open>x < na\<close> in simp)
      finally show ?thesis .
    qed
    ultimately have "string_at m' ?pb ?cs" by (rule string_at_frame)
    then show ?thesis using l pb(2) sz by (simp add: arg_copied_def Let_def)
  qed
  have "arg_copied m' na args (pb - args_size (take (Suc n) args)) pb i" if "i < Suc n" for i
  proof (cases "i = n")
    case False
    then have "arg_copied m' na args (pb - args_size (take (Suc n) args)) ?pb i"
      using m'(3) [of i] that unfolding e by simp
    then show ?thesis by (rule arg_copied_mono) simp_all
  qed (use new in simp)
  then show ?case using run frame by blast
qed

lemma push_all_law:
  "8 * length vs \<le> sp \<Longrightarrow> \<exists>m'. push_all m sp vs = (sp - 8 * length vs, m') \<and>
     (\<forall>x. x < sp - 8 * length vs \<or> sp \<le> x \<longrightarrow> m' x = m x) \<and>
     (\<forall>i < length vs. vs ! i < 2 ^ 64 \<longrightarrow> load64 m' (sp - 8 * (i + 1)) = vs ! i)"
proof (induction vs arbitrary: m sp)
  case (Cons v vs)
  let ?m = "store64 m (sp - 8) v"
  have le: "8 * length vs \<le> sp - 8" using Cons.prems by simp
  obtain m' where m': "push_all ?m (sp - 8) vs = (sp - 8 - 8 * length vs, m')"
    "\<And>x. x < sp - 8 - 8 * length vs \<or> sp - 8 \<le> x \<Longrightarrow> m' x = ?m x"
    "\<And>i. i < length vs \<Longrightarrow> vs ! i < 2 ^ 64 \<Longrightarrow> load64 m' (sp - 8 - 8 * (i + 1)) = vs ! i"
    using Cons.IH [OF le, of ?m] by blast
  have "load64 m' (sp - 8 * (i + 1)) = (v # vs) ! i" if "i < length (v # vs)" "(v # vs) ! i < 2 ^ 64" for i
  proof (cases i)
    case 0
    have "load64 m' (sp - 8) = load64 ?m (sp - 8)" by (rule load64_frame) (rule m'(2), simp)
    then show ?thesis using that 0 by simp
  next
    case (Suc j)
    then show ?thesis using m'(3) [of j] that by simp
  qed
  moreover have "m' x = m x" if "x < sp - 8 * length (v # vs) \<or> sp \<le> x" for x
  proof -
    have "m' x = ?m x" using that by (intro m'(2)) auto
    moreover have "?m x = m x" using that Cons.prems by (intro store_le_out) auto
    ultimately show ?thesis by simp
  qed
  ultimately show ?case using m'(1) Cons.prems by (auto simp: sub64_le)
qed simp

lemma stackFrame_law:
  assumes "lo + 176 \<le> base" "base < 2 ^ 64" "entry < 2 ^ 64" "argc < 2 ^ 64" "na < 2 ^ 64" "wrapper < 2 ^ 64"
  shows "\<exists>sp m'. stackFrame wrapper m base entry argc na = (sp, m') \<and> lo \<le> sp \<and> sp mod 16 = 0 \<and> sp + 160 \<le> base \<and>
     (\<forall>x. x < lo \<or> base \<le> x \<longrightarrow> m' x = m x) \<and> load64 m' (sp + 120) = wrapper \<and> load64 m' (sp + 56) = entry \<and>
     load64 m' (sp + 40) = argc \<and> load64 m' (sp + 32) = na"
proof -
  define vs where "vs = [0, base, 0x202, 0x8, wrapper, 0, 0, 0, 0, 0, 0, 0, entry, 0, argc, na, 0, 0, 0, 0]"
  define q where "q = base div 16"
  let ?al = "16 * q"
  have q: "base - base mod 16 = ?al" by (simp add: q_def minus_mod_eq_mult_div)
  have al: "lo + 160 \<le> ?al" "?al \<le> base" using assms(1) by (auto simp: q_def)
  have len: "length vs = 20" by (simp add: vs_def)
  have le: "8 * length vs \<le> ?al" using al(1) len by simp
  obtain m' where m': "push_all m ?al vs = (?al - 160, m')"
    "\<And>x. x < ?al - 160 \<or> ?al \<le> x \<Longrightarrow> m' x = m x"
    "\<And>i. i < 20 \<Longrightarrow> vs ! i < 2 ^ 64 \<Longrightarrow> load64 m' (?al - 8 * (i + 1)) = vs ! i"
    using push_all_law [OF le, of m] unfolding len by auto
  have e: "?al - 160 + 120 = ?al - 8 * (4 + 1)" "?al - 160 + 56 = ?al - 8 * (12 + 1)"
    "?al - 160 + 40 = ?al - 8 * (14 + 1)" "?al - 160 + 32 = ?al - 8 * (15 + 1)" using al by simp_all
  have "?al - 160 = 16 * (q - 10)" by simp
  then have "(?al - 160) mod 16 = 0" by (metis mod_mult_self1_is_0)
  moreover have "?al - 160 + 160 \<le> base" "lo \<le> ?al - 160" using al by simp_all
  moreover have "m' x = m x" if "x < lo \<or> base \<le> x" for x using that al by (intro m'(2)) auto
  moreover have "load64 m' (?al - 160 + 120) = wrapper" "load64 m' (?al - 160 + 56) = entry"
    "load64 m' (?al - 160 + 40) = argc" "load64 m' (?al - 160 + 32) = na"
    unfolding e using m'(3) [of 4] m'(3) [of 12] m'(3) [of 14] m'(3) [of 15] assms by (simp_all add: vs_def)
  ultimately show ?thesis
    using m'(1) unfolding stackFrame_def q vs_def
    by (intro exI [of _ "?al - 160"] exI [of _ m']) (simp del: push_all.simps)
qed

section \<open>Properties\<close>


text \<open>A caller with the arguments \<open>a\<close> and \<open>bc\<close> at low addresses, on a fresh buddy manager.\<close>

definition ex_mem :: mem where
  "ex_mem = store64 (store64 (put (put (\<lambda>_. NUL) 100 ''a'') 110 ''bc'') 200 100) 208 110"

lemma ex_mem_args:
  assumes "1000 \<le> p"
  shows "args_ok ex_mem 200 [''a'', ''bc''] p q"
proof -
  have l: "load64 ex_mem 208 = 110" by (simp add: ex_mem_def)
  have "load64 ex_mem 200 = load64 (store64 (put (put (\<lambda>_. NUL) 100 ''a'') 110 ''bc'') 200 100) 200"
    unfolding ex_mem_def by (rule load64_frame) (rule store_le_out, simp)
  then have k: "load64 ex_mem 200 = 100" by simp
  have o: "ex_mem x = (put (put (\<lambda>_. NUL) 100 ''a'') 110 ''bc'') x" if "x < 200" for x
    using that by (simp add: ex_mem_def store_le_out)
  have s: "string_at ex_mem 100 ''a''" "string_at ex_mem 110 ''bc''" by (simp_all add: o put_def)
  show ?thesis
    unfolding args_ok_def Let_def using assms k l s by (auto simp: less_Suc_eq)
qed


end
