(* ===== verification/Process_Lifecycle.thy ===== *)
theory Process_Lifecycle
  imports Pipe Stack_Frame
begin

text \<open>
  Birth and death of processes: the rest of \<^verbatim>\<open>Kernel/processes/scheduler.c\<close>
  (\<^verbatim>\<open>createProcess\<close>, \<^verbatim>\<open>kill\<close>, \<^verbatim>\<open>waitpid\<close>, \<^verbatim>\<open>changePrio\<close>, \<^verbatim>\<open>getProcessInfo\<close>) and the order in which
  \<^verbatim>\<open>main\<close> of \<^verbatim>\<open>Kernel/kernel.c\<close> brings the kernel up.

  A call works on the kernel state and, where it reads strings or builds a stack, on the byte
  memory.  \<^verbatim>\<open>waitpid\<close> that blocks is split at the block: \<open>waitpid\<close> up to it and \<open>waitpid_resume\<close>
  in the state in which the caller runs again.
\<close>

section \<open>Creation\<close>

definition SHELL_PID :: int where "SHELL_PID = 1"
definition TTY :: int where "TTY = 0"

text \<open>Updates of one process control block of the kernel.\<close>

definition upd_pcb :: "addr \<Rightarrow> (PCB \<Rightarrow> PCB) \<Rightarrow> 'm kernel \<Rightarrow> 'm kernel" where
  "upd_pcb p f k = k\<lparr>ph := set_pcb (ph k) p (f (pcbs (ph k) p))\<rparr>"

definition lift_pv :: "('m pheap \<Rightarrow> 'm pheap option) \<Rightarrow> 'm kernel \<Rightarrow> 'm kernel option" where
  "lift_pv f k = do { p \<leftarrow> f (ph k); Some (k\<lparr>ph := p\<rparr>) }"

text \<open>The children semaphore of the parent of a new foreground process.\<close>

definition countForegroundChild :: "'m mm_ops \<Rightarrow> 'm kernel \<Rightarrow> int \<Rightarrow> 'm kernel option" where
  "countForegroundChild ops k ppid = do {
     parent \<leftarrow> getProcess (ph k) (processManager k) ppid;
     if parent = 0 then Some k else do {
       k \<leftarrow> (if children_sem (pcbs (ph k) parent) = -1 then do {
               let semId = getFreeSemId k;
               if semId \<ge> 0 then do {
                 (r, k) \<leftarrow> semInit ops k semId 0;
                 Some (if r = 0 then upd_pcb parent (\<lambda>p. p\<lparr>children_sem := semId\<rparr>) k else k)
               } else Some k
             } else Some k);
       Some (if children_sem (pcbs (ph k) parent) \<ge> 0
             then upd_pcb parent (\<lambda>p. p\<lparr>children_count := children_count p + 1\<rparr>) k else k)
     }
   }"

definition createProcessOnPCB :: "'m mm_ops \<Rightarrow> addr \<Rightarrow> 'm kernel \<Rightarrow> mem \<Rightarrow> addr \<Rightarrow> nat \<Rightarrow> nat \<Rightarrow> addr \<Rightarrow>
    int \<Rightarrow> int \<Rightarrow> int \<Rightarrow> int \<Rightarrow> (addr \<times> 'm kernel \<times> mem) option" where
  "createProcessOnPCB ops wrapper k m nm fun argc arg prio0 fg sin sout =
     (if nm = 0 \<or> fun = 0 \<or> (argc > 0 \<and> arg = 0) then Some (0, k, m) else do {
       (process, k) \<leftarrow> lift_h (\<lambda>h. kalloc ops h sizeof_PCB) k;
       if process = 0 then Some (0, k, m) else do {
         let prio = (if prio0 > IDLE_PRIORITY then MAX_PRIORITY else prio0);
         let p = nextPid k;
         let ppid = getCurrentPid k;
         let k = upd_pcb process (\<lambda>b. b\<lparr>name := strn NAME_MAX_LENGTH (bytes_at m nm NAME_MAX_LENGTH), pid := p,
                   waitingForPid := -1, retValue := 0, foreground := (if fg \<noteq> 0 then 1 else 0), stdin := -1, stdout := -1,
                   state := READY, priority := prio, parentPid := ppid, children_sem := -1, children_count := 0,
                   entryPoint := fun\<rparr>) (k\<lparr>nextPid := p + 1\<rparr>);
         (bas, sp, h, m) \<leftarrow> setUpStackFrame ops wrapper (qh (ph k)) m fun argc arg;
         let k = upd_pcb process (\<lambda>b. b\<lparr>base := bas, rsp := sp\<rparr>) (k\<lparr>ph := (ph k)\<lparr>qh := h\<rparr>\<rparr>);
         if sp = 0 then do { k \<leftarrow> lift_hv (\<lambda>h. kfree ops h process) k; Some (0, k, m) }
         else if p > 1 \<and> fg = 0 \<and> sin = TTY then do {
           let k = upd_pcb process (\<lambda>b. b\<lparr>stdout := sout, state := BLOCKED\<rparr>) k;
           k \<leftarrow> lift_pv (\<lambda>h. addToBlocked ops h (processManager k) process) k;
           Some (process, k, m)
         }
         else if p = SHELL_PID then do {
           (r, k) \<leftarrow> createPipe ops k;
           let k = upd_pcb process (\<lambda>b. b\<lparr>stdin := r\<rparr>) k;
           if r < 0 then do {
             k \<leftarrow> lift_hv (\<lambda>h. kfree ops h (sub64 bas PROCESS_STACK_SIZE)) k;
             k \<leftarrow> lift_hv (\<lambda>h. kfree ops h process) k;
             Some (0, k, m)
           } else do {
             let k = upd_pcb process (\<lambda>b. b\<lparr>stdout := 1\<rparr>) k;
             k \<leftarrow> (if prio \<noteq> IDLE_PRIORITY then lift_pv (\<lambda>h. addProcess ops h (processManager k) process) k else Some k);
             Some (process, k, m)
           }
         }
         else do {
           k \<leftarrow> (if p > 1 then do {
                   let k = upd_pcb process (\<lambda>b. b\<lparr>stdin := (if sin = TTY then getCurrentStdin k else sin),
                             stdout := (if sout = 1 then getCurrentStdout k else sout)\<rparr>) k;
                   if fg \<noteq> 0 \<and> ppid > 0 then countForegroundChild ops k ppid else Some k
                 } else Some k);
           k \<leftarrow> (if prio \<noteq> IDLE_PRIORITY then lift_pv (\<lambda>h. addProcess ops h (processManager k) process) k else Some k);
           Some (process, k, m)
         }
       }
     })"

definition createProcess :: "'m mm_ops \<Rightarrow> addr \<Rightarrow> 'm kernel \<Rightarrow> mem \<Rightarrow> addr \<Rightarrow> nat \<Rightarrow> nat \<Rightarrow> addr \<Rightarrow>
    int \<Rightarrow> int \<Rightarrow> int \<Rightarrow> int \<Rightarrow> (int \<times> 'm kernel \<times> mem) option" where
  "createProcess ops wrapper k m nm fun argc arg prio fg sin sout = do {
     (process, k, m) \<leftarrow> createProcessOnPCB ops wrapper k m nm fun argc arg prio fg sin sout;
     Some (if process = 0 then -1 else pid (pcbs (ph k) process), k, m)
   }"

definition startScheduler :: "'m mm_ops \<Rightarrow> addr \<Rightarrow> 'm kernel \<Rightarrow> mem \<Rightarrow> addr \<Rightarrow> nat \<Rightarrow> ('m kernel \<times> mem) option" where
  "startScheduler ops wrapper k m idleName idle = do {
     let k = createPipeManager k;
     (list, k) \<leftarrow> lift_p (createProcessManager ops) k;
     (idleProcess, k, m) \<leftarrow> createProcessOnPCB ops wrapper k m idleName idle 0 0 IDLE_PRIORITY 0 (-1) (-1);
     let k = k\<lparr>ph := setIdleProcess (ph k) list idleProcess\<rparr>;
     Some (k\<lparr>processManager := list\<rparr>, m)
   }"

section \<open>Termination and waiting\<close>

definition reapCild :: "'m mm_ops \<Rightarrow> 'm kernel \<Rightarrow> addr \<Rightarrow> (int \<times> int \<times> 'm kernel) option" where
  "reapCild ops k child = (if child = 0 then None else do {
     let ret = s32 (int (retValue (pcbs (ph k) child)));
     let childPid = pid (pcbs (ph k) child);
     let k = upd_pcb child (\<lambda>b. b\<lparr>state := num_state (retValue b)\<rparr>) k;
     k \<leftarrow> lift_pv (\<lambda>h. removeFromZombie ops h (processManager k) childPid) k;
     k \<leftarrow> lift_hv (\<lambda>h. kfree ops h child) k;
     Some (childPid, ret, k)
   })"

definition wakeUpWaitingParent :: "'m mm_ops \<Rightarrow> 'm kernel \<Rightarrow> int \<Rightarrow> int \<Rightarrow> 'm kernel option" where
  "wakeUpWaitingParent ops k ppid childPid = (if ppid = -1 then Some k else do {
     let idle = getIdleProcess (ph k) (processManager k);
     if idle = 0 then None else do {
       k \<leftarrow> (if ppid = pid (pcbs (ph k) idle) then do {
               c \<leftarrow> getProcess (ph k) (processManager k) childPid;
               (_, _, k) \<leftarrow> reapCild ops k c;
               Some k
             } else Some k);
       parent \<leftarrow> getProcess (ph k) (processManager k) ppid;
       if parent = 0 then Some k
       else if state (pcbs (ph k) parent) = BLOCKED \<and> waitingForPid (pcbs (ph k) parent) = childPid
       then map_option snd (unblockProcess ops k ppid)
       else Some k
     }
   })"

definition discountForegroundChild :: "'m mm_ops \<Rightarrow> 'm kernel \<Rightarrow> int \<Rightarrow> 'm kernel option" where
  "discountForegroundChild ops k ppid = do {
     parent \<leftarrow> getProcess (ph k) (processManager k) ppid;
     if parent = 0 \<or> children_sem (pcbs (ph k) parent) < 0 then Some k else do {
       let k = upd_pcb parent (\<lambda>p. p\<lparr>children_count := children_count p - 1\<rparr>) k;
       if children_count (pcbs (ph k) parent) = 0 then do {
         (_, k) \<leftarrow> semPost ops k (children_sem (pcbs (ph k) parent));
         (_, k) \<leftarrow> semClose ops k (children_sem (pcbs (ph k) parent));
         Some (upd_pcb parent (\<lambda>p. p\<lparr>children_sem := -1\<rparr>) k)
       } else Some k
     }
   }"

definition kill :: "'m mm_ops \<Rightarrow> 'm kernel \<Rightarrow> int \<Rightarrow> nat \<Rightarrow> nat \<Rightarrow> (int \<times> 'm kernel) option" where
  "kill ops k p ret sp = (if p \<le> 1 then Some (-1, k) else do {
     (process, k) \<leftarrow> lift_p (\<lambda>h. killProcess ops h (processManager k) p ret ZOMBIE) k;
     if process = 0 then Some (-1, k) else do {
       k \<leftarrow> lift_hv (\<lambda>h. kfree ops h (sub64 (base (pcbs (ph k) process)) PROCESS_STACK_SIZE)) k;
       let ppid = parentPid (pcbs (ph k) process);
       k \<leftarrow> (if ppid > 0 \<and> foreground (pcbs (ph k) process) \<noteq> 0 then discountForegroundChild ops k ppid else Some k);
       k \<leftarrow> wakeUpWaitingParent ops k (parentPid (pcbs (ph k) process)) p;
       let idle = getIdleProcess (ph k) (processManager k);
       if idle = 0 then None else do {
         k \<leftarrow> (if parentPid (pcbs (ph k) process) \<noteq> pid (pcbs (ph k) idle)
               then do { (_, _, k) \<leftarrow> reapCild ops k process; Some k } else Some k);
         k \<leftarrow> (if p = currentPid k then yield ops k sp else Some k);
         Some (0, k)
       }
     }
   })"

text \<open>\<open>Returned r v\<close>: the call returned \<open>r\<close> and stored \<open>v\<close>; \<open>Waiting c\<close>: process \<open>c\<close> is blocked in it.\<close>

datatype wait_status = Returned int "int option" | Waiting addr

definition waitpid :: "'m mm_ops \<Rightarrow> 'm kernel \<Rightarrow> int \<Rightarrow> nat \<Rightarrow> (wait_status \<times> 'm kernel) option" where
  "waitpid ops k p sp = do {
     let cpid = getCurrentPid k;
     target \<leftarrow> getProcess (ph k) (processManager k) p;
     if target = 0 then Some (Returned (-1) None, k) else do {
       cur \<leftarrow> getProcess (ph k) (processManager k) cpid;
       if cur = 0 then Some (Returned (-1) None, k)
       else if parentPid (pcbs (ph k) target) \<noteq> cpid \<and> waitingForPid (pcbs (ph k) cur) \<noteq> p
       then Some (Returned (-1) None, k)
       else if state (pcbs (ph k) target) = ZOMBIE then do {
         let k = upd_pcb cur (\<lambda>b. b\<lparr>waitingForPid := -1\<rparr>) k;
         (r, v, k) \<leftarrow> reapCild ops k target;
         Some (Returned r (Some v), k)
       }
       else if state_num (state (pcbs (ph k) target)) < state_num ZOMBIE then do {
         let k = upd_pcb cur (\<lambda>b. b\<lparr>waitingForPid := p, state := BLOCKED\<rparr>) k;
         (r, k) \<leftarrow> blockProcess ops k cpid sp;
         if r \<noteq> 0 then Some (Returned (-1) None, upd_pcb cur (\<lambda>b. b\<lparr>waitingForPid := -1, state := READY\<rparr>) k)
         else Some (Waiting cur, k)
       }
       else Some (Returned (-1) None, k)
     }
   }"

definition waitpid_resume :: "'m mm_ops \<Rightarrow> 'm kernel \<Rightarrow> addr \<Rightarrow> int \<Rightarrow> (wait_status \<times> 'm kernel) option" where
  "waitpid_resume ops k cur p = do {
     target \<leftarrow> getProcess (ph k) (processManager k) p;
     if target = 0 then Some (Returned (-1) None, k)
     else if state (pcbs (ph k) target) = ZOMBIE then do {
       let k = upd_pcb cur (\<lambda>b. b\<lparr>waitingForPid := -1\<rparr>) k;
       (r, v, k) \<leftarrow> reapCild ops k target;
       Some (Returned r (Some v), k)
     }
     else Some (Returned (-1) None, k)
   }"

section \<open>Priorities and information\<close>

definition changePrio :: "'m kernel \<Rightarrow> int \<Rightarrow> int \<Rightarrow> (int \<times> 'm kernel) option" where
  "changePrio k p newPrio = do {
     process \<leftarrow> getProcess (ph k) (processManager k) p;
     if p \<le> 1 then Some (-1, k)
     else if process = 0 then Some (-1, k)
     else do {
       let newPrio = (if newPrio < MIN_PRIORITY then MIN_PRIORITY
                      else if newPrio > MAX_PRIORITY then MAX_PRIORITY else newPrio);
       Some (newPrio, upd_pcb process (\<lambda>b. b\<lparr>priority := newPrio\<rparr>) k)
     }
   }"

definition copyProcess :: "PCB \<Rightarrow> PCB \<Rightarrow> PCB" where
  "copyProcess dest src = dest\<lparr>pid := pid src, parentPid := parentPid src, waitingForPid := waitingForPid src,
     priority := priority src, state := state src, rsp := rsp src, base := base src, entryPoint := entryPoint src,
     name := (strn NAME_MAX_LENGTH (name src))[NAME_MAX_LENGTH - 1 := NUL], retValue := retValue src,
     foreground := foreground src, stdin := stdin src, stdout := stdout src\<rparr>"

partial_function (option) info_loop :: "'m kernel \<Rightarrow> addr \<Rightarrow> nat \<Rightarrow> nat \<Rightarrow> nat \<Rightarrow> 'm kernel option" where
  [code]: "info_loop k info i j cnt = (if j < cnt then do {
       process \<leftarrow> getProcess (ph k) (processManager k) (s32 (int i));
       if process \<noteq> 0
       then info_loop (upd_pcb (info + j * sizeof_PCB) (\<lambda>d. copyProcess d (pcbs (ph k) process)) k) info (i + 1) (j + 1) cnt
       else info_loop k info (i + 1) j cnt
     } else Some k)"

definition getProcessInfo :: "'m mm_ops \<Rightarrow> 'm kernel \<Rightarrow> (addr \<times> nat \<times> 'm kernel) option" where
  "getProcessInfo ops k = (if processManager k = 0 then Some (0, 0, k) else do {
     let cnt = nat (processCount (ph k) (processManager k));
     (info, k) \<leftarrow> lift_h (\<lambda>h. kalloc ops h (sizeof_PCB * cnt)) k;
     if info = 0 then Some (0, 0, k) else do {
       k \<leftarrow> info_loop k info 0 0 cnt;
       Some (info, cnt, k)
     }
   })"

text \<open>The address of the user module.\<close>

definition SAMPLE_CODE_MODULE_ADDR :: nat where "SAMPLE_CODE_MODULE_ADDR = 0x400000"

section \<open>The laws\<close>

lemma upd_pcb_simps [simp]:
  "pcbs (ph (upd_pcb p f k)) = (pcbs (ph k))(p := f (pcbs (ph k) p))" "pms (ph (upd_pcb p f k)) = pms (ph k)"
  "qh (ph (upd_pcb p f k)) = qh (ph k)" "processManager (upd_pcb p f k) = processManager k"
  "nextPid (upd_pcb p f k) = nextPid k" "currentPid (upd_pcb p f k) = currentPid k"
  "sems (upd_pcb p f k) = sems k" "manager (upd_pcb p f k) = manager k"
  by (simp_all add: upd_pcb_def)

text \<open>A block may change if it is in no queue, or if its pid stays.\<close>

lemma ks_inv_upd:
  assumes "p \<notin> members l \<or> pid (f (pcbs (ph k) p)) = pid (pcbs (ph k) p)"
  shows "ks_inv rep (upd_pcb p f k) A X l = ks_inv rep k A X l"
proof -
  have "pt_ok ((pcbs (ph k))(p := f (pcbs (ph k) p))) l = pt_ok (pcbs (ph k)) l"
    by (rule pt_ok_members_cong) (use assms in auto)
  then show ?thesis by (simp add: ks_inv_def pm_inv_def)
qed

context allocator
begin

lemma getProcess_ks:
  "ks_inv rep k A X l \<Longrightarrow> x \<in> set (l c) \<Longrightarrow> getProcess (ph k) (processManager k) (pid (pcbs (ph k) x)) = Some x"
  by (rule getProcess_law [OF ks_invD(1)])

lemma reap_law:
  assumes "ks_inv rep k A X l" "x \<in> set (l QZombie)" "currentProcess (pm_of k) \<noteq> x"
  obtains k' A' where
    "reapCild ops k x = Some (pid (pcbs (ph k) x), s32 (int (retValue (pcbs (ph k) x))), k')"
    "ks_inv rep k' A' (X(x := None)) (l(QZombie := remove1 x (l QZombie)))"
    "\<And>q. q \<notin> range (qaddr (pm_of k)) \<Longrightarrow> A' q = A q"
    "pcbs (ph k') = (pcbs (ph k))(x := (pcbs (ph k) x)\<lparr>state := num_state (retValue (pcbs (ph k) x))\<rparr>)"
    "pms (ph k') = pms (ph k)" "k' = k\<lparr>ph := ph k'\<rparr>"
proof -
  let ?p = "pid (pcbs (ph k) x)" and ?l = "l(QZombie := remove1 x (l QZombie))"
  note D = ks_invD [OF assms(1)] and N = ks_nonzero [OF assms(1)]
  have x: "x \<in> members l" "x \<noteq> 0" using assms(2) N(5) by blast+
  define k1 where "k1 = upd_pcb x (\<lambda>b. b\<lparr>state := num_state (retValue b)\<rparr>) k"
  have inv1: "ks_inv rep k1 A X l" using assms(1) by (simp add: k1_def ks_inv_upd)
  note D1 = pm_invD [OF ks_invD(1) [OF inv1]]
  have k1: "pid (pcbs (ph k1) y) = pid (pcbs (ph k) y)" "pms (ph k1) = pms (ph k)" "processManager k1 = processManager k" for y
    by (simp_all add: k1_def)
  have f: "find (pid_match (ph k1) ?p) (l QZombie) = Some x"
    using find_member [OF ks_invD(1) [OF inv1] assms(2)] by (simp add: k1)
  let ?q = "qaddr (pm_of k) QZombie"
  have q: "A ?q = Some (l QZombie)" using D1(4) [of QZombie] by (simp add: k1)
  obtain h1 where h1: "remove_q ops (qh (ph k1)) ?q ?p (Some (hasPid (pcbs (ph k1)))) = Some (x, h1)"
    "kq rep h1 (A(?q \<mapsto> remove1 x (l QZombie))) X"
    using remove_law [where c = "hasPid (pcbs (ph k1))" and key = ?p, OF D1(1) q f] remove_first_remove1 [OF f] by auto
  have Xx: "X x = Some sizeof_PCB" using pm_invD(6) [OF D(1) assms(2)] .
  obtain h2 where h2: "kfree ops h1 x = Some h2" "kq rep h2 (A(?q \<mapsto> remove1 x (l QZombie))) (X(x := None))"
    using kfree_law [OF h1(2) Xx] by blast
  define k' where "k' = k1\<lparr>ph := (ph k1)\<lparr>qh := h2\<rparr>\<rparr>"
  have "reapCild ops k x = Some (?p, s32 (int (retValue (pcbs (ph k) x))), k')"
    using x(2) h1(1) h2(1) N(3) unfolding reapCild_def Let_def k1_def [symmetric]
    by (simp add: lift_pv_def lift_hv_eq removeFromZombie_def lift_q_def k1 k'_def)
  moreover have "ks_inv rep k' (A(?q \<mapsto> remove1 x (l QZombie))) (X(x := None)) ?l"
  proof -
    have "x \<notin> set (remove1 x (l QZombie))" using pt_okD(1) [OF D1(5), of QZombie] by simp
    then have nx: "x \<notin> members ?l" using pt_okD(2) [OF D1(5) _ assms(2)] by (auto split: if_splits)
    have sub: "members ?l \<subseteq> members l"
      using set_remove1_subset [of x "l QZombie"] by (fastforce split: if_splits)
    have "(X(x := None)) p = Some sizeof_PCB" if "p \<in> members ?l" for p
      using that nx sub pm_invD(6) [OF D(1)] by (cases "p = x") auto
    moreover have "processManager k \<noteq> x"
      using Xx pm_invD(2) [OF D(1)] by (auto simp: sizeof_PM_def sizeof_PCB_def)
    moreover have "(A(?q \<mapsto> remove1 x (l QZombie))) (qaddr (pm_of k) c) = Some (?l c)" for c
      using D1(3,4) by (auto simp: k1 simp del: qaddr.simps dest: injD)
    ultimately have "pm_inv rep (ph k') (processManager k') (A(?q \<mapsto> remove1 x (l QZombie))) (X(x := None)) ?l"
      using h2(2) D1(2,3) pt_ok_remove [OF D1(5), of QZombie x] unfolding pm_inv_def by (simp add: k'_def k1)
    moreover have "idleProcess (pm_of k) \<noteq> x" "idleProcess (pm_of k) \<notin> members ?l" using D(3) x(1) sub by blast+
    ultimately show ?thesis using D(2,4) assms(3) unfolding ks_inv_def by (simp add: k'_def k1)
  qed
  moreover have "(A(?q \<mapsto> remove1 x (l QZombie))) q = A q" if "q \<notin> range (qaddr (pm_of k))" for q
    using that by (metis fun_upd_other rangeI)
  moreover have "k' = k\<lparr>ph := ph k'\<rparr>" by (simp add: k'_def k1_def upd_pcb_def)
  ultimately show thesis using that by (simp add: k'_def k1_def)
qed

text \<open>Killing a background process that is not running and whose parent does not wait for it.\<close>

lemma kill_law:
  assumes "ks_inv rep k A X l" "x \<in> set (l c)" "c \<noteq> QZombie" "pid (pcbs (ph k) x) = p" "1 < p"
    "foreground (pcbs (ph k) x) = 0" "p \<noteq> getCurrentPid k" "p \<noteq> currentPid k"
    "X (sub64 (base (pcbs (ph k) x)) PROCESS_STACK_SIZE) = Some PROCESS_STACK_SIZE"
    "y \<in> set (l d)" "y \<noteq> x" "parentPid (pcbs (ph k) x) = pid (pcbs (ph k) y)" "pid (pcbs (ph k) y) \<noteq> -1"
    "pid (pcbs (ph k) y) \<noteq> pid (pcbs (ph k) (idleProcess (pm_of k)))"
    "\<not> (state (pcbs (ph k) y) = BLOCKED \<and> waitingForPid (pcbs (ph k) y) = p)"
  shows "\<exists>k' A'. kill ops k p ret sp = Some (0, k') \<and>
     ks_inv rep k' A' (X(sub64 (base (pcbs (ph k) x)) PROCESS_STACK_SIZE := None, x := None)) (l(c := remove1 x (l c))) \<and>
     (\<forall>q. q \<notin> range (qaddr (pm_of k)) \<longrightarrow> A' q = A q) \<and> (\<forall>z. z \<noteq> x \<longrightarrow> pcbs (ph k') z = pcbs (ph k) z) \<and>
     currentProcess (pm_of k') = currentProcess (pm_of k)"
proof -
  let ?s = "sub64 (base (pcbs (ph k) x)) PROCESS_STACK_SIZE" and ?X = "X(sub64 (base (pcbs (ph k) x)) PROCESS_STACK_SIZE := None)"
  note D = ks_invD [OF assms(1)] and N = ks_nonzero [OF assms(1)]
  have f: "find (pid_match (ph k) p) (l c) = Some x" using find_member [OF D(1) assms(2)] assms(4) by simp
  have x0: "x \<noteq> 0" "y \<noteq> 0" using assms(2,10) N(5) by blast+
  have cur: "pid (pcbs (ph k) (currentProcess (pm_of k))) \<noteq> p" "currentProcess (pm_of k) \<noteq> x"
    using assms(4,7) N(1,3) by (auto simp: getCurrentPid_def getCurrentProcess_def)
  define l1 where "l1 = pt_move (ph k) p c QZombie x l"
  obtain h A1 where h: "killProcess ops (ph k) (processManager k) p ret ZOMBIE = Some (x, h)"
    "pm_inv rep h (processManager k) A1 X l1" "\<And>q. q \<notin> range (qaddr (pm_of k)) \<Longrightarrow> A1 q = A q"
    "pcbs h = (pcbs (ph k))(x := (pcbs (ph k) x)\<lparr>retValue := ret, state := ZOMBIE\<rparr>)"
    "idleProcess (pms h (processManager k)) = idleProcess (pm_of k)"
    "currentProcess (pms h (processManager k)) = currentProcess (pm_of k)"
    "qaddr (pms h (processManager k)) = qaddr (pm_of k)"
    using killProcess_some [OF D(1) assms(3) f, of ret ZOMBIE] cur(1) unfolding l1_def by (auto simp: fun_eq_iff)
  note M = pt_ok_move [OF pm_invD(5) [OF D(1)] assms(3) f]
  define k1 where "k1 = k\<lparr>ph := h\<rparr>"
  have inv1: "ks_inv rep k1 A1 X l1"
    using h(2,5,6) D(2-4) M(2) unfolding ks_inv_def k1_def l1_def by simp
  obtain h2 where h2: "kfree ops (qh h) ?s = Some h2" "kq rep h2 A1 ?X"
    using kfree_law [OF pm_invD(1) [OF h(2)] assms(9)] by blast
  define k2 where "k2 = k\<lparr>ph := h\<lparr>qh := h2\<rparr>\<rparr>"
  have "ks_inv rep (k1\<lparr>ph := (ph k1)\<lparr>qh := h2\<rparr>\<rparr>) A1 ?X l1"
    by (rule ks_inv_heap [OF inv1 h2(2)]) (use assms(9) in \<open>auto simp: sizeof_PM_def sizeof_PCB_def PROCESS_STACK_SIZE_def\<close>)
  then have inv2: "ks_inv rep k2 A1 ?X l1" by (simp add: k1_def k2_def)
  have k2: "pcbs (ph k2) = (pcbs (ph k))(x := (pcbs (ph k) x)\<lparr>retValue := ret, state := ZOMBIE\<rparr>)"
    "processManager k2 = processManager k" "idleProcess (pm_of k2) = idleProcess (pm_of k)" "currentPid k2 = currentPid k"
    "currentProcess (pm_of k2) = currentProcess (pm_of k)" "qaddr (pm_of k2) = qaddr (pm_of k)"
    by (simp_all add: k2_def h)
  have "y \<in> members l1" using M(2) assms(10) unfolding l1_def by blast
  then obtain e where "y \<in> set (l1 e)" by blast
  from getProcess_ks [OF inv2 this] have gp: "getProcess (ph k2) (processManager k) (pid (pcbs (ph k) y)) = Some y"
    using assms(11) by (simp add: k2)
  have idle: "getIdleProcess (ph k2) (processManager k) = idleProcess (pm_of k)" "idleProcess (pm_of k) \<noteq> x"
    using N(3) D(3) assms(2) k2(2,3) by (auto simp: getIdleProcess_def)
  have wake: "wakeUpWaitingParent ops k2 (pid (pcbs (ph k) y)) p = Some k2"
    using assms(11,13,14,15) gp idle N(2) x0 by (auto simp: wakeUpWaitingParent_def k2 Let_def)
  have cur2: "currentProcess (pm_of k2) \<noteq> x" using cur(2) unfolding k2(5) .
  have z: "x \<in> set (l1 QZombie)" by (simp add: l1_def pt_move_def)
  obtain k' A' where R: "reapCild ops k2 x = Some (p, s32 (int (retValue (pcbs (ph k2) x))), k')"
    "ks_inv rep k' A' (?X(x := None)) (l1(QZombie := remove1 x (l1 QZombie)))"
    "\<And>q. q \<notin> range (qaddr (pm_of k2)) \<Longrightarrow> A' q = A1 q"
    "pcbs (ph k') = (pcbs (ph k2))(x := (pcbs (ph k2) x)\<lparr>state := num_state (retValue (pcbs (ph k2) x))\<rparr>)"
    "pms (ph k') = pms (ph k2)" "k' = k2\<lparr>ph := ph k'\<rparr>"
    using reap_law [OF inv2 z cur2] assms(4) by (simp add: k2(1)) blast
  have cp: "currentPid k' = currentPid k" "processManager k' = processManager k"
    by (rule trans [OF arg_cong [OF R(6)]], simp add: k2)+
  have notz: "x \<notin> set (l QZombie)" using pt_okD(2) [OF pm_invD(5) [OF D(1)] assms(3,2)] .
  have "l1(QZombie := remove1 x (l1 QZombie)) = l(c := remove1 x (l c))"
    using notz assms(3) remove_first_remove1 [OF f] by (auto simp: l1_def pt_move_def fun_eq_iff remove1_append)
  moreover have "kill ops k p ret sp = Some (0, k')"
    using assms(4-6,8,12,14) h(1) h2(1) x0 wake idle N(2) R(1) assms(11)
    unfolding kill_def by (simp add: lift_p_def lift_hv_eq k2_def [symmetric] k2 cp Let_def h(4))
  moreover have "\<forall>q. q \<notin> range (qaddr (pm_of k)) \<longrightarrow> A' q = A q" using R(3) h(3) k2(6) by simp
  ultimately show ?thesis using R(2,4,5) k2(1,5) cp by (intro exI [of _ k'] exI [of _ A']) (auto simp: k2(2))
qed

lemma ks_inv_free:
  assumes "ks_inv rep k A X l" "x \<notin> members l" "x \<noteq> idleProcess (pm_of k)" "x \<noteq> currentProcess (pm_of k)"
    "X x \<noteq> Some sizeof_PM" "kq rep h A (X(x := None))"
  shows "ks_inv rep (k\<lparr>ph := (ph k)\<lparr>qh := h\<rparr>\<rparr>) A (X(x := None)) l"
proof -
  note D = ks_invD [OF assms(1)]
  have "processManager k \<noteq> x" using pm_invD(2) [OF D(1)] assms(5) by auto
  moreover have "(X(x := None)) p = Some sizeof_PCB" if "p \<in> members l" for p
    using that assms(2) pm_invD(6) [OF D(1)] by (cases "p = x") auto
  ultimately have "pm_inv rep ((ph k)\<lparr>qh := h\<rparr>) (processManager k) A (X(x := None)) l"
    using D(1) assms(6) unfolding pm_inv_def by simp
  then show ?thesis using D(2-4) assms(3,4) unfolding ks_inv_def by simp
qed

lemma setUp_law:
  assumes "kq rep h A X" "\<And>b. copyToStack m b argc arg \<noteq> None"
  obtains (oom) "setUpStackFrame ops wrapper h m entry argc arg = Some (0, 0, h, m)"
  | (fresh) s sp h' m' where "setUpStackFrame ops wrapper h m entry argc arg = Some (u64 (s + PROCESS_STACK_SIZE), sp, h', m')"
      "X s = None" "s \<noteq> 0" "kq rep h' A (X(s \<mapsto> PROCESS_STACK_SIZE))"
proof -
  have sz: "0 < PROCESS_STACK_SIZE" "PROCESS_STACK_SIZE < 2 ^ 32" by (simp_all add: PROCESS_STACK_SIZE_def)
  show thesis using assms(1) sz
  proof (cases rule: kalloc_law)
    case oom
    then show ?thesis using that(1) by (simp add: setUpStackFrame_def)
  next
    case (fresh s h')
    obtain na pb m1 where c: "copyToStack m (u64 (s + PROCESS_STACK_SIZE)) argc arg = Some (na, pb, m1)"
      using assms(2) [of "u64 (s + PROCESS_STACK_SIZE)"] by (metis not_Some_eq prod_cases3)
    obtain sp m2 where "stackFrame wrapper m1 pb entry argc na = (sp, m2)" by force
    then have "setUpStackFrame ops wrapper h m entry argc arg = Some (u64 (s + PROCESS_STACK_SIZE), sp, h', m2)"
      using fresh(1,2) c by (simp add: setUpStackFrame_def Let_def)
    then show ?thesis using that(2) fresh(2,3,8) by blast
  qed
qed

lemma addProcess_law:
  assumes "ks_inv rep k A X l" "X x = Some sizeof_PCB" "x \<notin> members l" "x \<noteq> idleProcess (pm_of k)"
    "\<And>p. p \<in> members l \<Longrightarrow> pid (pcbs (ph k) p) \<noteq> pid (pcbs (ph k) x)"
  shows "\<exists>h A'. addProcess ops (ph k) (processManager k) x = Some h \<and> pcbs h = pcbs (ph k) \<and>
     (ks_inv rep (k\<lparr>ph := h\<rparr>) A' X (l(QReady := l QReady @ [x])) \<or>
      ks_inv rep (k\<lparr>ph := h\<rparr>) A X l \<and> \<not> node_ready ops (qh (ph k)))"
proof -
  let ?P = "pm_of k"
  note D = ks_invD [OF assms(1)] and N = ks_nonzero [OF assms(1)]
  define c where "c = (if currentProcess ?P = 0 \<or> currentProcess ?P = idleProcess ?P then x else currentProcess ?P)"
  define h1 where "h1 = set_pm (ph k) (processManager k) (?P\<lparr>currentProcess := c\<rparr>)"
  have same: "(if currentProcess ?P = 0 \<or> currentProcess ?P = idleProcess ?P
      then set_pm (ph k) (processManager k) (?P\<lparr>currentProcess := x\<rparr>) else ph k) = h1"
    unfolding h1_def c_def by (cases "ph k"; cases ?P) auto
  have inv1: "pm_inv rep h1 (processManager k) A X l" using D(1) unfolding h1_def by (subst pm_inv_pm) simp_all
  have h1: "pcbs h1 = pcbs (ph k)" "qh h1 = qh (ph k)" "pms h1 (processManager k) = ?P\<lparr>currentProcess := c\<rparr>"
    by (simp_all add: h1_def)
  have x0: "x \<noteq> 0" using kq_nonzero(2) [OF pm_invD(1) [OF D(1)] assms(2)] .
  obtain r h2 where e: "enqueue ops (qh h1) (qaddr (pms h1 (processManager k)) QReady) x = Some (r, h2)"
    and alt: "r = -1 \<and> h2 = qh h1 \<and> \<not> node_ready ops (qh h1) \<or>
      (\<exists>A'. r = 0 \<and> pm_inv rep (h1\<lparr>qh := h2\<rparr>) (processManager k) A' X (l(QReady := l QReady @ [x])))"
    using enqueue_pm [OF inv1 assms(2,3), of QReady] assms(5) unfolding h1(1) by blast
  have run: "addProcess ops (ph k) (processManager k) x = Some (h1\<lparr>qh := h2\<rparr>)"
    unfolding addProcess_def Let_def same using N(3) x0 e by (simp add: lift_q_def)
  have Xc: "X c = Some sizeof_PCB" using assms(2) D(4) by (simp add: c_def)
  have m: "members (l(QReady := l QReady @ [x])) = insert x (members l)" by (auto split: if_splits)
  from alt show ?thesis
  proof
    assume a: "r = -1 \<and> h2 = qh h1 \<and> \<not> node_ready ops (qh h1)"
    then have "ks_inv rep (k\<lparr>ph := h1\<lparr>qh := h2\<rparr>\<rparr>) A X l"
      using inv1 D(2,3) Xc unfolding ks_inv_def by (simp add: h1(3))
    then show ?thesis using run h1 a by auto
  next
    assume "\<exists>A'. r = 0 \<and> pm_inv rep (h1\<lparr>qh := h2\<rparr>) (processManager k) A' X (l(QReady := l QReady @ [x]))"
    then obtain A' where "pm_inv rep (h1\<lparr>qh := h2\<rparr>) (processManager k) A' X (l(QReady := l QReady @ [x]))" by blast
    then have "ks_inv rep (k\<lparr>ph := h1\<lparr>qh := h2\<rparr>\<rparr>) A' X (l(QReady := l QReady @ [x]))"
      using D(2,3) Xc assms(4) unfolding ks_inv_def m by (simp add: h1(3))
    then show ?thesis using run h1 by auto
  qed
qed

text \<open>Creating a background process with its own standard input.\<close>

lemma create_law:
  assumes "ks_inv rep k A X l" "nm \<noteq> 0" "fun \<noteq> 0" "argc > 0 \<longrightarrow> arg \<noteq> 0" "\<And>b. copyToStack m b argc arg \<noteq> None"
    "1 < nextPid k" "\<And>p. p \<in> members l \<Longrightarrow> pid (pcbs (ph k) p) < nextPid k" "MIN_PRIORITY \<le> prio" "prio \<le> MAX_PRIORITY"
    "sin \<noteq> TTY"
  obtains (failed) k' m' X' where "createProcess ops wrapper k m nm fun argc arg prio 0 sin sout = Some (-1, k', m')"
      "ks_inv rep k' A X' l"
  | (created) k' m' x s A' where "createProcess ops wrapper k m nm fun argc arg prio 0 sin sout = Some (nextPid k, k', m')"
      "X x = None" "X s = None" "x \<noteq> s" "nextPid k' = nextPid k + 1"
      "ks_inv rep k' A' (X(x \<mapsto> sizeof_PCB, s \<mapsto> PROCESS_STACK_SIZE)) (l(QReady := l QReady @ [x])) \<or>
       ks_inv rep k' A (X(x \<mapsto> sizeof_PCB, s \<mapsto> PROCESS_STACK_SIZE)) l \<and>
         (\<exists>h. kq rep h A (X(x \<mapsto> sizeof_PCB, s \<mapsto> PROCESS_STACK_SIZE)) \<and> \<not> node_ready ops h)"
      "\<forall>q. q \<noteq> x \<longrightarrow> pcbs (ph k') q = pcbs (ph k) q"
      "pid (pcbs (ph k') x) = nextPid k \<and> parentPid (pcbs (ph k') x) = getCurrentPid k \<and> state (pcbs (ph k') x) = READY \<and>
       priority (pcbs (ph k') x) = prio \<and> entryPoint (pcbs (ph k') x) = fun \<and>
       base (pcbs (ph k') x) = u64 (s + PROCESS_STACK_SIZE) \<and> stdin (pcbs (ph k') x) = sin \<and>
       stdout (pcbs (ph k') x) = (if sout = 1 then getCurrentStdout k else sout)"
proof -
  note D = ks_invD [OF assms(1)] and N = ks_nonzero [OF assms(1)]
  have sz: "0 < sizeof_PCB" "sizeof_PCB < 2 ^ 32" by (simp_all add: sizeof_PCB_def)
  have prio: "(if prio > IDLE_PRIORITY then MAX_PRIORITY else prio) = prio" "prio \<noteq> IDLE_PRIORITY"
    using assms(8,9) by (auto simp: IDLE_PRIORITY_def MAX_PRIORITY_def)
  show thesis using pm_invD(1) [OF D(1)] sz
  proof (cases rule: kalloc_law)
    case oom
    then have "createProcess ops wrapper k m nm fun argc arg prio 0 sin sout = Some (-1, k, m)"
      using assms(2-4) by (auto simp: createProcess_def createProcessOnPCB_def lift_h_eq)
    then show thesis using that(1) assms(1) by blast
  next
    case (fresh x h1)
    let ?X = "X(x \<mapsto> sizeof_PCB)"
    have xm: "x \<notin> members l" "x \<noteq> idleProcess (pm_of k)" "currentProcess (pm_of k) \<noteq> x"
      using pm_invD(6) [OF D(1)] D(2,4) fresh(3) by fastforce+
    define g where "g = (\<lambda>b :: PCB. b\<lparr>name := strn NAME_MAX_LENGTH (bytes_at m nm NAME_MAX_LENGTH), pid := nextPid k,
       waitingForPid := -1, retValue := 0, foreground := 0, stdin := -1, stdout := -1,
       state := READY, priority := prio, parentPid := getCurrentPid k, children_sem := -1, children_count := 0,
       entryPoint := fun\<rparr>)"
    define k1 where "k1 = k\<lparr>ph := (ph k)\<lparr>qh := h1\<rparr>\<rparr>"
    define k2 where "k2 = upd_pcb x g (k1\<lparr>nextPid := nextPid k + 1\<rparr>)"
    have gc: "getCurrentPid k1 = getCurrentPid k" "nextPid k1 = nextPid k" "qh (ph k1) = h1"
      by (simp_all add: k1_def getCurrentPid_def getCurrentProcess_def Let_def)
    have "ks_inv rep k1 A ?X l"
      unfolding k1_def by (rule ks_inv_heap [OF assms(1) fresh(8)]) (use fresh(3) in auto)
    then have "ks_inv rep (k1\<lparr>nextPid := nextPid k + 1\<rparr>) A ?X l" by (simp add: ks_inv_def)
    then have inv2: "ks_inv rep k2 A ?X l" unfolding k2_def using xm(1) by (subst ks_inv_upd) auto
    have k2: "processManager k2 = processManager k" "qh (ph k2) = h1" "pms (ph k2) = pms (ph k)"
      "pcbs (ph k2) = (pcbs (ph k))(x := g (pcbs (ph k) x))" "nextPid k2 = nextPid k + 1"
      by (simp_all add: k2_def k1_def)
    have guard: "(nm = 0 \<or> fun = 0 \<or> (argc > 0 \<and> arg = 0)) = False" using assms(2-4) by auto
    have start: "createProcessOnPCB ops wrapper k m nm fun argc arg prio 0 sin sout =
      (do { (bas, sp, h, m) \<leftarrow> setUpStackFrame ops wrapper h1 m fun argc arg;
         let k = upd_pcb x (\<lambda>b. b\<lparr>base := bas, rsp := sp\<rparr>) (k2\<lparr>ph := (ph k2)\<lparr>qh := h\<rparr>\<rparr>);
         if sp = 0 then do { k \<leftarrow> lift_hv (\<lambda>h. kfree ops h x) k; Some (0, k, m) }
         else do {
           let k = upd_pcb x (\<lambda>b. b\<lparr>stdin := sin, stdout := (if sout = 1 then getCurrentStdout k else sout)\<rparr>) k;
           k \<leftarrow> lift_pv (\<lambda>h. addProcess ops h (processManager k) x) k;
           Some (x, k, m)
         } })"
      using assms(6,10) fresh(1,2) prio
      unfolding createProcessOnPCB_def lift_h_eq guard if_False
      by (simp add: k1_def [symmetric] gc g_def [symmetric] k2_def [symmetric] k2 SHELL_PID_def Let_def cong: if_cong)
    show thesis using fresh(8) assms(5)
    proof (cases rule: setUp_law [where wrapper = wrapper and entry = "fun"])
      case oom
      obtain h2 where h2: "kfree ops h1 x = Some h2" "kq rep h2 A (?X(x := None))"
        using kfree_law [OF fresh(8), of x sizeof_PCB] by auto
      have same: "k2\<lparr>ph := (ph k2)\<lparr>qh := h1\<rparr>\<rparr> = k2" using k2(2) by (metis pheap_same kernel_same(1))
      define k3 where "k3 = (upd_pcb x (\<lambda>b. b\<lparr>base := 0, rsp := 0\<rparr>) k2)\<lparr>ph := (ph (upd_pcb x (\<lambda>b. b\<lparr>base := 0, rsp := 0\<rparr>) k2))\<lparr>qh := h2\<rparr>\<rparr>"
      have "createProcess ops wrapper k m nm fun argc arg prio 0 sin sout = Some (-1, k3, m)"
        using oom h2(1) unfolding createProcess_def start by (simp add: lift_hv_eq same k2(2) k3_def Let_def)
      moreover have "ks_inv rep k3 A (?X(x := None)) l"
        unfolding k3_def by (rule ks_inv_free)
          (use inv2 xm h2(2) in \<open>simp_all add: ks_inv_upd k2 sizeof_PM_def sizeof_PCB_def\<close>)
      ultimately show thesis using that(1) by blast
    next
      case S: (fresh s sp h2 m2)
      let ?Y = "?X(s \<mapsto> PROCESS_STACK_SIZE)" and ?bas = "u64 (s + PROCESS_STACK_SIZE)"
      have sx: "s \<noteq> x" "X s = None" using S(2) by (auto split: if_splits)
      define k3 where "k3 = upd_pcb x (\<lambda>b. b\<lparr>base := ?bas, rsp := sp\<rparr>) (k2\<lparr>ph := (ph k2)\<lparr>qh := h2\<rparr>\<rparr>)"
      have "ks_inv rep (k2\<lparr>ph := (ph k2)\<lparr>qh := h2\<rparr>\<rparr>) A ?Y l"
        by (rule ks_inv_heap [OF inv2 S(4)]) (use S(2) in auto)
      then have inv3: "ks_inv rep k3 A ?Y l" unfolding k3_def by (subst ks_inv_upd) simp_all
      have k3: "processManager k3 = processManager k" "qh (ph k3) = h2" "pms (ph k3) = pms (ph k)" "nextPid k3 = nextPid k + 1"
        "pcbs (ph k3) = (pcbs (ph k))(x := (g (pcbs (ph k) x))\<lparr>base := ?bas, rsp := sp\<rparr>)"
        by (simp_all add: k3_def k2)
      show thesis
      proof (cases "sp = 0")
        case True
        obtain h3 where h3: "kfree ops h2 x = Some h3" "kq rep h3 A (?Y(x := None))"
          using kfree_law [OF S(4), of x sizeof_PCB] sx by auto
        have "createProcess ops wrapper k m nm fun argc arg prio 0 sin sout = Some (-1, k3\<lparr>ph := (ph k3)\<lparr>qh := h3\<rparr>\<rparr>, m2)"
          using S(1) True h3(1) unfolding createProcess_def start by (simp add: lift_hv_eq k3_def Let_def)
        moreover have "ks_inv rep (k3\<lparr>ph := (ph k3)\<lparr>qh := h3\<rparr>\<rparr>) A (?Y(x := None)) l"
          by (rule ks_inv_free [OF inv3]) (use xm sx h3(2) in \<open>simp_all add: k3 sizeof_PM_def sizeof_PCB_def\<close>)
        ultimately show thesis using that(1) by blast
      next
        case False
        define so where "so = (if sout = 1 then getCurrentStdout k else sout)"
        have so: "getCurrentStdout k3 = getCurrentStdout k"
          using xm(3) by (simp add: getCurrentStdout_def getCurrentProcess_def k3 Let_def)
        define k4 where "k4 = upd_pcb x (\<lambda>b. b\<lparr>stdin := sin, stdout := so\<rparr>) k3"
        have inv4: "ks_inv rep k4 A ?Y l" using inv3 by (simp add: k4_def ks_inv_upd)
        have k4: "processManager k4 = processManager k" "pms (ph k4) = pms (ph k)" "nextPid k4 = nextPid k + 1" "qh (ph k4) = h2"
          "pcbs (ph k4) = (pcbs (ph k))(x := (g (pcbs (ph k) x))\<lparr>base := ?bas, rsp := sp, stdin := sin, stdout := so\<rparr>)"
          by (simp_all add: k4_def k3)
        have px: "pid (pcbs (ph k4) p) \<noteq> pid (pcbs (ph k4) x)" if "p \<in> members l" for p
          using assms(7) [OF that] xm(1) that by (auto simp: k4(5) g_def)
        have "?Y x = Some sizeof_PCB" using sx by simp
        then obtain h A' where h: "addProcess ops (ph k4) (processManager k4) x = Some h" "pcbs h = pcbs (ph k4)"
          "ks_inv rep (k4\<lparr>ph := h\<rparr>) A' ?Y (l(QReady := l QReady @ [x])) \<or>
           ks_inv rep (k4\<lparr>ph := h\<rparr>) A ?Y l \<and> \<not> node_ready ops (qh (ph k4))"
          using addProcess_law [OF inv4 _ xm(1) _ px] xm(2) by (auto simp: k4(1,2))
        have run: "createProcess ops wrapper k m nm fun argc arg prio 0 sin sout = Some (nextPid k, k4\<lparr>ph := h\<rparr>, m2)"
          using S(1) False h(1) [unfolded k4(1)] fresh(2) unfolding createProcess_def start
          by (simp add: k2(1) k3_def [symmetric] so so_def [symmetric] k4_def [symmetric] lift_pv_def h(2) k4(5) g_def Let_def cong: if_cong)
        have "kq rep h2 A ?Y" by (rule S(4))
        then have "ks_inv rep (k4\<lparr>ph := h\<rparr>) A' ?Y (l(QReady := l QReady @ [x])) \<or>
           ks_inv rep (k4\<lparr>ph := h\<rparr>) A ?Y l \<and> (\<exists>h. kq rep h A ?Y \<and> \<not> node_ready ops h)"
          using h(3) unfolding k4(4) by blast
        then show thesis
          using that(2) [OF run fresh(3) sx(2)] sx(1) by (simp add: k4 h(2) g_def so_def)
      qed
    qed
  qed
qed

end

end
