(* ===== verification/Pipe_Interleaving.thy ===== *)
theory Pipe_Interleaving
  imports Pipe
begin

text \<open>
  Any number of readers and writers of one pipe, interleaved at every semaphore operation and
  every critical section.

  A thread runs the loop of \<^verbatim>\<open>pipeRead\<close> or \<^verbatim>\<open>pipeWrite\<close> (\<^verbatim>\<open>Kernel/pipes/pipe.c\<close>): wait for its
  token, wait for the mutex, the critical section (\<open>pipe_get\<close>, \<open>pipe_put\<close>), post the mutex,
  post the token of the other side.  The semaphores are a value and the queue of the
  waiting threads, as in \<^verbatim>\<open>wait\<close> and \<^verbatim>\<open>post\<close> of \<^verbatim>\<open>semaphore.c\<close>: a post with a waiting thread
  hands the token over.  The invariant counts the tokens, the threads that hold one and the
  bytes in the ring.
\<close>

section \<open>The threads\<close>

datatype role = Rd | Wr

fun other :: "role \<Rightarrow> role" where "other Rd = Wr" | "other Wr = Rd"

datatype pc = PItem | PItemBlocked | PMutex | PMutexBlocked | PCrit | PPostM | PPostI | PStop

type_synonym 't asem = "nat \<times> 't list"

definition swait :: "'t asem \<Rightarrow> 't \<Rightarrow> bool \<times> 't asem" where
  "swait s t = (case s of (v, q) \<Rightarrow> if v > 0 then (True, (v - 1, q)) else (False, (v, q @ [t])))"

definition spost :: "'t asem \<Rightarrow> 't option \<times> 't asem" where
  "spost s = (case s of (v, []) \<Rightarrow> (None, (v + 1, [])) | (v, u # us) \<Rightarrow> (Some u, (v, us)))"

record 't pstate =
  ring :: pipe_t
  isem :: "role \<Rightarrow> 't asem"
  msem :: "'t asem"
  pcs :: "'t \<Rightarrow> pc"
  sent :: string
  recv :: string

text \<open>A woken thread continues behind its \<^verbatim>\<open>semWait\<close>.\<close>

definition wake :: "'t option \<Rightarrow> pc \<Rightarrow> ('t \<Rightarrow> pc) \<Rightarrow> ('t \<Rightarrow> pc)" where
  "wake u x f = (case u of None \<Rightarrow> f | Some u \<Rightarrow> f(u := x))"

text \<open>One step of thread \<open>t\<close>; \<open>c\<close> is the byte a writer writes, \<open>stop\<close> whether its loop ends.\<close>

definition pstep :: "('t \<Rightarrow> role) \<Rightarrow> 't \<Rightarrow> char \<Rightarrow> bool \<Rightarrow> 't pstate \<Rightarrow> 't pstate option" where
  "pstep rl t c stop s = (case pcs s t of
     PItem \<Rightarrow> (let (go, z) = swait (isem s (rl t)) t in
       Some (s\<lparr>isem := (isem s)(rl t := z), pcs := (pcs s)(t := if go then PMutex else PItemBlocked)\<rparr>))
   | PMutex \<Rightarrow> (let (go, z) = swait (msem s) t in
       Some (s\<lparr>msem := z, pcs := (pcs s)(t := if go then PCrit else PMutexBlocked)\<rparr>))
   | PCrit \<Rightarrow> (case rl t of
       Rd \<Rightarrow> (let (b, p) = pipe_get (ring s) in
         Some (s\<lparr>ring := p, recv := recv s @ (case b of None \<Rightarrow> [] | Some b \<Rightarrow> [b]), pcs := (pcs s)(t := PPostM)\<rparr>))
     | Wr \<Rightarrow> (let (ok, p) = pipe_put c (ring s) in
         Some (s\<lparr>ring := p, sent := sent s @ (if ok then [c] else []), pcs := (pcs s)(t := PPostM)\<rparr>)))
   | PPostM \<Rightarrow> (let (u, z) = spost (msem s) in
       Some (s\<lparr>msem := z, pcs := wake u PCrit ((pcs s)(t := PPostI))\<rparr>))
   | PPostI \<Rightarrow> (let (u, z) = spost (isem s (other (rl t))) in
       Some (s\<lparr>isem := (isem s)(other (rl t) := z),
               pcs := wake u PMutex ((pcs s)(t := if stop then PStop else PItem))\<rparr>))
   | _ \<Rightarrow> None)"

definition pinit :: "pipe_t \<Rightarrow> 't pstate" where
  "pinit p = \<lparr>ring = p\<lparr>readIdx := 0, writeIdx := 0, count := 0\<rparr>,
     isem = (\<lambda>r. case r of Rd \<Rightarrow> (0, []) | Wr \<Rightarrow> (PIPE_BUFFER_SIZE, [])), msem = (1, []),
     pcs = (\<lambda>_. PItem), sent = [], recv = []\<rparr>"

inductive preach :: "'t set \<Rightarrow> ('t \<Rightarrow> role) \<Rightarrow> 't pstate \<Rightarrow> bool" for T rl where
  preach_init: "preach T rl (pinit p)"
| preach_step: "preach T rl s \<Longrightarrow> t \<in> T \<Longrightarrow> pstep rl t c stop s = Some s' \<Longrightarrow> preach T rl s'"

section \<open>The invariant\<close>

text \<open>
  The share of a thread in the tokens of side \<open>r\<close>: it holds one (a reader that has its token
  and has not yet taken the byte) or owes one (a writer that has put its byte and has not
  posted).
\<close>

definition share :: "role \<Rightarrow> role \<Rightarrow> pc \<Rightarrow> nat" where
  "share r x c = (if x = r then of_bool (c \<in> {PMutex, PMutexBlocked, PCrit}) else of_bool (c \<in> {PPostM, PPostI}))"

definition inside :: "pc \<Rightarrow> nat" where "inside c = of_bool (c \<in> {PCrit, PPostM})"

definition tokens :: "'t set \<Rightarrow> ('t \<Rightarrow> role) \<Rightarrow> role \<Rightarrow> 't pstate \<Rightarrow> nat" where
  "tokens T rl r s = fst (isem s r) + (\<Sum>t \<in> T. share r (rl t) (pcs s t))"

definition queue_ok :: "'t set \<Rightarrow> 't asem \<Rightarrow> ('t \<Rightarrow> bool) \<Rightarrow> bool" where
  "queue_ok T z waiting \<longleftrightarrow> distinct (snd z) \<and> set (snd z) = {t \<in> T. waiting t} \<and> (fst z > 0 \<longrightarrow> snd z = [])"

definition pinv :: "'t set \<Rightarrow> ('t \<Rightarrow> role) \<Rightarrow> 't pstate \<Rightarrow> bool" where
  "pinv T rl s \<longleftrightarrow> ring_ok (ring s) \<and> sent s = recv s @ content (ring s) \<and>
     tokens T rl Rd s = count (ring s) \<and> tokens T rl Wr s = PIPE_BUFFER_SIZE - count (ring s) \<and>
     fst (msem s) + (\<Sum>t \<in> T. inside (pcs s t)) = 1 \<and>
     (\<forall>r. queue_ok T (isem s r) (\<lambda>t. rl t = r \<and> pcs s t = PItemBlocked)) \<and>
     queue_ok T (msem s) (\<lambda>t. pcs s t = PMutexBlocked)"

lemma sum_upd:
  fixes g :: "'t \<Rightarrow> 'b \<Rightarrow> nat"
  assumes "finite T" "t \<in> T"
  shows "(\<Sum>u \<in> T. g u ((f(t := x)) u)) + g t (f t) = (\<Sum>u \<in> T. g u (f u)) + g t x"
proof -
  have "(\<Sum>u \<in> T. g u ((f(t := x)) u)) = g t x + (\<Sum>u \<in> T - {t}. g u (f u))"
    using assms by (simp add: sum.remove [of T t])
  moreover have "(\<Sum>u \<in> T. g u (f u)) = g t (f t) + (\<Sum>u \<in> T - {t}. g u (f u))"
    using assms by (rule sum.remove)
  ultimately show ?thesis by simp
qed

lemma pinv_init: "pinv T rl (pinit p)"
  by (simp add: pinv_def pinit_def ring_ok_def content_def tokens_def share_def inside_def queue_ok_def
      PIPE_BUFFER_SIZE_def split: role.split)

subsection \<open>The waiting queues\<close>

lemma queue_ok_cong:
  "queue_ok T z W \<Longrightarrow> (\<And>t. t \<in> T \<Longrightarrow> W' t = W t) \<Longrightarrow> queue_ok T z W'"
  by (auto simp: queue_ok_def)

lemma queue_ok_wait:
  "queue_ok T (0, q) W \<Longrightarrow> t \<in> T \<Longrightarrow> \<not> W t \<Longrightarrow> queue_ok T (0, q @ [t]) (\<lambda>u. u = t \<or> W u)"
  by (auto simp: queue_ok_def)

lemma queue_ok_take: "queue_ok T (v, q) W \<Longrightarrow> 0 < v \<Longrightarrow> queue_ok T (v - 1, q) W"
  by (auto simp: queue_ok_def)

lemma queue_ok_put: "queue_ok T (v, []) W \<Longrightarrow> queue_ok T (v + 1, []) W"
  by (auto simp: queue_ok_def)

lemma queue_ok_hand:
  assumes "queue_ok T (v, u # us) W"
  shows "v = 0" "u \<in> T" "W u" "queue_ok T (v, us) (\<lambda>x. x \<noteq> u \<and> W x)"
  using assms by (auto simp: queue_ok_def)

text \<open>The parts of the invariant that only depend on the program counters.\<close>

lemma share_simps [simp]:
  "share r x PItem = 0" "share r x PItemBlocked = 0" "share r x PStop = 0"
  "share r x PMutex = of_bool (x = r)" "share r x PMutexBlocked = of_bool (x = r)" "share r x PCrit = of_bool (x = r)"
  "share r x PPostM = of_bool (x \<noteq> r)" "share r x PPostI = of_bool (x \<noteq> r)"
  by (simp_all add: share_def)

lemma inside_simps [simp]:
  "inside PItem = 0" "inside PItemBlocked = 0" "inside PStop = 0" "inside PMutex = 0" "inside PMutexBlocked = 0"
  "inside PCrit = 1" "inside PPostM = 1" "inside PPostI = 0"
  by (simp_all add: inside_def)

lemma sum_share_upd:
  assumes "finite T" "t \<in> T"
  shows "(\<Sum>u \<in> T. share r (rl u) ((f(t := x)) u)) + share r (rl t) (f t) = (\<Sum>u \<in> T. share r (rl u) (f u)) + share r (rl t) x"
    "(\<Sum>u \<in> T. inside ((f(t := x)) u)) + inside (f t) = (\<Sum>u \<in> T. inside (f u)) + inside x"
  using sum_upd [OF assms, of "\<lambda>u. share r (rl u)" f x] sum_upd [OF assms, of "\<lambda>u. inside" f x] by simp_all

lemma pinvD:
  assumes "pinv T rl s"
  shows "ring_ok (ring s)" "sent s = recv s @ content (ring s)" "tokens T rl Rd s = count (ring s)"
    "tokens T rl Wr s = PIPE_BUFFER_SIZE - count (ring s)" "fst (msem s) + (\<Sum>t \<in> T. inside (pcs s t)) = 1"
    "queue_ok T (isem s r) (\<lambda>t. rl t = r \<and> pcs s t = PItemBlocked)"
    "queue_ok T (msem s) (\<lambda>t. pcs s t = PMutexBlocked)"
  using assms by (auto simp: pinv_def)

text \<open>A step of the semaphores keeps the invariant if it keeps the tokens and the queues.\<close>

lemma pinv_sem:
  assumes "pinv T rl s" "ring s' = ring s" "sent s' = sent s" "recv s' = recv s"
    "\<And>r. tokens T rl r s' = tokens T rl r s"
    "fst (msem s') + (\<Sum>t \<in> T. inside (pcs s' t)) = fst (msem s) + (\<Sum>t \<in> T. inside (pcs s t))"
    "\<And>r. queue_ok T (isem s' r) (\<lambda>t. rl t = r \<and> pcs s' t = PItemBlocked)"
    "queue_ok T (msem s') (\<lambda>t. pcs s' t = PMutexBlocked)"
  shows "pinv T rl s'"
  using assms by (simp add: pinv_def)

subsection \<open>Every step keeps the invariant\<close>

lemma pinv_item:
  assumes "pinv T rl s" "finite T" "t \<in> T" "pcs s t = PItem" "pstep rl t c stop s = Some s'"
  shows "pinv T rl s'"
proof -
  obtain v q where z: "isem s (rl t) = (v, q)" by force
  note Q = pinvD(6) [OF assms(1)] and M = pinvD(7) [OF assms(1)]
  note U = sum_share_upd [OF assms(2,3), where f = "pcs s", unfolded assms(4)]
  show ?thesis
  proof (cases "v > 0")
    case True
    have s': "s' = s\<lparr>isem := (isem s)(rl t := (v - 1, q)), pcs := (pcs s)(t := PMutex)\<rparr>"
      using assms(4,5) z True by (simp add: pstep_def swait_def)
    show ?thesis
    proof (rule pinv_sem [OF assms(1)])
      show "tokens T rl r s' = tokens T rl r s" for r
        using U(1) [of r rl PMutex] z True by (simp add: s' tokens_def)
      show "fst (msem s') + (\<Sum>t \<in> T. inside (pcs s' t)) = fst (msem s) + (\<Sum>t \<in> T. inside (pcs s t))"
        using U(2) [of PMutex] by (simp add: s')
      fix r
      have "queue_ok T (isem s' r) (\<lambda>t. rl t = r \<and> pcs s t = PItemBlocked)"
        using Q [of r] queue_ok_take [OF _ True, of T q] z by (cases "r = rl t") (simp_all add: s')
      then show "queue_ok T (isem s' r) (\<lambda>t. rl t = r \<and> pcs s' t = PItemBlocked)"
        by (rule queue_ok_cong) (use assms(4) in \<open>simp add: s'\<close>)
      have "queue_ok T (msem s') (\<lambda>t. pcs s t = PMutexBlocked)" using M by (simp add: s')
      then show "queue_ok T (msem s') (\<lambda>t. pcs s' t = PMutexBlocked)"
        by (rule queue_ok_cong) (use assms(4) in \<open>simp add: s'\<close>)
    qed (simp_all add: s')
  next
    case False
    then have s': "s' = s\<lparr>isem := (isem s)(rl t := (0, q @ [t])), pcs := (pcs s)(t := PItemBlocked)\<rparr>"
      using assms(4,5) z by (simp add: pstep_def swait_def)
    show ?thesis
    proof (rule pinv_sem [OF assms(1)])
      show "tokens T rl r s' = tokens T rl r s" for r
        using U(1) [of r rl PItemBlocked] z False by (simp add: s' tokens_def)
      show "fst (msem s') + (\<Sum>t \<in> T. inside (pcs s' t)) = fst (msem s) + (\<Sum>t \<in> T. inside (pcs s t))"
        using U(2) [of PItemBlocked] by (simp add: s')
      fix r
      show "queue_ok T (isem s' r) (\<lambda>t. rl t = r \<and> pcs s' t = PItemBlocked)"
      proof (cases "r = rl t")
        case True
        have "queue_ok T (0, q @ [t]) (\<lambda>u. u = t \<or> rl u = r \<and> pcs s u = PItemBlocked)"
          by (rule queue_ok_wait) (use Q [of r] z False True assms(3,4) in simp_all)
        then have "queue_ok T (isem s' r) (\<lambda>u. u = t \<or> rl u = r \<and> pcs s u = PItemBlocked)" using True by (simp add: s')
        then show ?thesis by (rule queue_ok_cong) (use True in \<open>auto simp: s'\<close>)
      next
        case r: False
        have "queue_ok T (isem s' r) (\<lambda>t. rl t = r \<and> pcs s t = PItemBlocked)" using Q [of r] r by (simp add: s')
        then show ?thesis by (rule queue_ok_cong) (use r assms(4) in \<open>auto simp: s'\<close>)
      qed
      have "queue_ok T (msem s') (\<lambda>t. pcs s t = PMutexBlocked)" using M by (simp add: s')
      then show "queue_ok T (msem s') (\<lambda>t. pcs s' t = PMutexBlocked)"
        by (rule queue_ok_cong) (use assms(4) in \<open>simp add: s'\<close>)
    qed (simp_all add: s')
  qed
qed

lemma pinv_mutex:
  assumes "pinv T rl s" "finite T" "t \<in> T" "pcs s t = PMutex" "pstep rl t c stop s = Some s'"
  shows "pinv T rl s'"
proof -
  obtain v q where z: "msem s = (v, q)" by force
  note Q = pinvD(6) [OF assms(1)] and M = pinvD(7) [OF assms(1), unfolded z]
  define x where "x = (if v > 0 then PCrit else PMutexBlocked)"
  define w where "w = (if v > 0 then (v - 1, q) else (0, q @ [t]))"
  have s': "s' = s\<lparr>msem := w, pcs := (pcs s)(t := x)\<rparr>"
    using assms(4,5) z by (cases "v > 0") (simp_all add: pstep_def swait_def x_def w_def)
  note U = sum_share_upd [OF assms(2,3), where f = "pcs s" and x = x, unfolded assms(4)]
  show ?thesis
  proof (rule pinv_sem [OF assms(1)])
    show "tokens T rl r s' = tokens T rl r s" for r
      using U(1) [of r rl] by (cases "v > 0") (simp_all add: s' tokens_def x_def)
    show "fst (msem s') + (\<Sum>t \<in> T. inside (pcs s' t)) = fst (msem s) + (\<Sum>t \<in> T. inside (pcs s t))"
      using U(2) z by (cases "v > 0") (simp_all add: s' x_def w_def)
    fix r
    show "queue_ok T (isem s' r) (\<lambda>t. rl t = r \<and> pcs s' t = PItemBlocked)"
      by (rule queue_ok_cong [where W = "\<lambda>t. rl t = r \<and> pcs s t = PItemBlocked"])
        (use Q [of r] assms(4) in \<open>auto simp: s' x_def\<close>)
    show "queue_ok T (msem s') (\<lambda>t. pcs s' t = PMutexBlocked)"
    proof (cases "v > 0")
      case True
      then have "queue_ok T (msem s') (\<lambda>t. pcs s t = PMutexBlocked)" using queue_ok_take [OF M True] by (simp add: s' w_def)
      then show ?thesis by (rule queue_ok_cong) (use True assms(4) in \<open>auto simp: s' x_def\<close>)
    next
      case False
      then have "queue_ok T (0, q @ [t]) (\<lambda>u. u = t \<or> pcs s u = PMutexBlocked)"
        using M assms(3,4) by (intro queue_ok_wait) simp_all
      then have "queue_ok T (msem s') (\<lambda>u. u = t \<or> pcs s u = PMutexBlocked)" using False by (simp add: s' w_def)
      then show ?thesis by (rule queue_ok_cong) (use False in \<open>auto simp: s' x_def\<close>)
    qed
  qed (simp_all add: s')
qed

text \<open>A thread in the critical section always finds a byte, respectively a free place.\<close>

lemma pinv_crit_guard:
  assumes "pinv T rl s" "finite T" "t \<in> T" "pcs s t = PCrit"
  shows "rl t = Rd \<Longrightarrow> 0 < count (ring s)" "rl t = Wr \<Longrightarrow> count (ring s) < PIPE_BUFFER_SIZE"
proof -
  have le: "share (rl t) (rl t) (pcs s t) \<le> (\<Sum>u \<in> T. share (rl t) (rl u) (pcs s u))"
    using assms(2,3) by (intro member_le_sum) simp_all
  note D = pinvD(3,4) [OF assms(1)]
  show "rl t = Rd \<Longrightarrow> 0 < count (ring s)" using le D(1) assms(4) by (simp add: tokens_def)
  show "rl t = Wr \<Longrightarrow> count (ring s) < PIPE_BUFFER_SIZE" using le D(2) assms(4) by (simp add: tokens_def)
qed

lemma pinv_crit:
  assumes "pinv T rl s" "finite T" "t \<in> T" "pcs s t = PCrit" "pstep rl t c stop s = Some s'"
  shows "pinv T rl s'"
proof -
  note D = pinvD [OF assms(1)] and G = pinv_crit_guard [OF assms(1-4)]
  note U = sum_share_upd [OF assms(2,3), where f = "pcs s" and x = PPostM, unfolded assms(4)]
  have q: "queue_ok T (isem s r) (\<lambda>u. rl u = r \<and> ((pcs s)(t := PPostM)) u = PItemBlocked)"
    "queue_ok T (msem s) (\<lambda>u. ((pcs s)(t := PPostM)) u = PMutexBlocked)" for r
    by (rule queue_ok_cong, rule D, use assms(4) in simp)+
  show ?thesis
  proof (cases "rl t")
    case Rd
    then obtain b bs where c: "content (ring s) = b # bs" using G(1) length_content [of "ring s"] by (cases "content (ring s)") auto
    then obtain p where p: "pipe_get (ring s) = (Some b, p)" "ring_ok p" "content p = bs"
      using pipe_get_spec [OF D(1) c] by blast
    have n: "count (ring s) = Suc (count p)" "count (ring s) \<le> PIPE_BUFFER_SIZE"
      using c p(3) length_content [of p] length_content [of "ring s"] D(1) by (auto simp: ring_ok_def)
    have s': "s' = s\<lparr>ring := p, recv := recv s @ [b], pcs := (pcs s)(t := PPostM)\<rparr>"
      using assms(4,5) Rd p(1) by (simp add: pstep_def)
    have "tokens T rl Rd s' = count p" using U(1) [of Rd rl] D(3) n Rd by (simp add: s' tokens_def)
    moreover have "tokens T rl Wr s' = PIPE_BUFFER_SIZE - count p" using U(1) [of Wr rl] D(4) n Rd by (simp add: s' tokens_def)
    ultimately show ?thesis using p(2,3) c D(2,5) U(2) q unfolding pinv_def by (simp add: s' del: fun_upd_apply)
  next
    case Wr
    then obtain p where p: "pipe_put c (ring s) = (True, p)" "ring_ok p" "content p = content (ring s) @ [c]"
      using pipe_put_spec [OF D(1)] G(2) by fastforce
    have n: "count p = Suc (count (ring s))" using p(3) length_content [of p] by simp
    have s': "s' = s\<lparr>ring := p, sent := sent s @ [c], pcs := (pcs s)(t := PPostM)\<rparr>"
      using assms(4,5) Wr p(1) by (simp add: pstep_def)
    have "tokens T rl Rd s' = count p" using U(1) [of Rd rl] D(3) n Wr by (simp add: s' tokens_def)
    moreover have "tokens T rl Wr s' = PIPE_BUFFER_SIZE - count p" using U(1) [of Wr rl] D(4) n Wr by (simp add: s' tokens_def)
    ultimately show ?thesis using p(2,3) D(2,5) U(2) q unfolding pinv_def by (simp add: s' del: fun_upd_apply)
  qed
qed

lemma pinv_postM:
  assumes "pinv T rl s" "finite T" "t \<in> T" "pcs s t = PPostM" "pstep rl t c stop s = Some s'"
  shows "pinv T rl s'"
proof -
  note D = pinvD [OF assms(1)]
  note U = sum_share_upd [OF assms(2,3), where f = "pcs s" and x = PPostI, unfolded assms(4)]
  let ?f = "(pcs s)(t := PPostI)"
  have Q: "queue_ok T (isem s r) (\<lambda>u. rl u = r \<and> ?f u = PItemBlocked)"
    "queue_ok T (msem s) (\<lambda>u. ?f u = PMutexBlocked)" for r
    by (rule queue_ok_cong, rule D, use assms(4) in simp)+
  obtain v q where z: "msem s = (v, q)" by force
  show ?thesis
  proof (cases q)
    case Nil
    then have s': "s' = s\<lparr>msem := (v + 1, []), pcs := ?f\<rparr>"
      using assms(4,5) z by (simp add: pstep_def spost_def wake_def)
    show ?thesis
      by (rule pinv_sem [OF assms(1)])
        (use U Q queue_ok_put [of T v] z Nil in \<open>simp_all add: s' tokens_def del: fun_upd_apply\<close>)
  next
    case (Cons u us)
    note H = queue_ok_hand [OF Q(2) [unfolded z Cons]]
    have u: "u \<noteq> t" "pcs s u = PMutexBlocked" using H(3) by (auto split: if_splits)
    note V = sum_share_upd [OF assms(2) H(2), where f = ?f and x = PCrit]
    have s': "s' = s\<lparr>msem := (v, us), pcs := ?f(u := PCrit)\<rparr>"
      using assms(4,5) z Cons by (simp add: pstep_def spost_def wake_def)
    have uf: "?f u = PMutexBlocked" using u by simp
    show ?thesis
    proof (rule pinv_sem [OF assms(1)])
      show "tokens T rl r s' = tokens T rl r s" for r
        using U(1) [of r rl] V(1) [of r rl] uf by (simp add: s' tokens_def del: fun_upd_apply)
      show "fst (msem s') + (\<Sum>t \<in> T. inside (pcs s' t)) = fst (msem s) + (\<Sum>t \<in> T. inside (pcs s t))"
        using U(2) V(2) uf z by (simp add: s' del: fun_upd_apply)
      show "queue_ok T (isem s' r) (\<lambda>t. rl t = r \<and> pcs s' t = PItemBlocked)" for r
        by (rule queue_ok_cong [where W = "\<lambda>u. rl u = r \<and> ?f u = PItemBlocked"])
          (use Q(1) [of r] u(2) in \<open>auto simp: s'\<close>)
      show "queue_ok T (msem s') (\<lambda>t. pcs s' t = PMutexBlocked)"
        by (rule queue_ok_cong [where W = "\<lambda>x. x \<noteq> u \<and> ?f x = PMutexBlocked"])
          (use H(4) in \<open>simp_all add: s'\<close>)
    qed (simp_all add: s')
  qed
qed

lemma pinv_postI:
  assumes "pinv T rl s" "finite T" "t \<in> T" "pcs s t = PPostI" "pstep rl t c stop s = Some s'"
  shows "pinv T rl s'"
proof -
  note D = pinvD [OF assms(1)]
  define x where "x = (if stop then PStop else PItem)"
  have x: "share r y x = 0" "inside x = 0" "x \<noteq> PItemBlocked" "x \<noteq> PMutexBlocked" for r y by (simp_all add: x_def)
  note U = sum_share_upd [OF assms(2,3), where f = "pcs s" and x = x, unfolded assms(4) x]
  let ?f = "(pcs s)(t := x)" and ?o = "other (rl t)"
  have o: "rl t = r \<longleftrightarrow> ?o \<noteq> r" for r by (cases "rl t"; cases r) simp_all
  have Q: "queue_ok T (isem s r) (\<lambda>u. rl u = r \<and> ?f u = PItemBlocked)"
    "queue_ok T (msem s) (\<lambda>u. ?f u = PMutexBlocked)" for r
    by (rule queue_ok_cong, rule D, use assms(4) x in simp)+
  obtain v q where z: "isem s ?o = (v, q)" by force
  show ?thesis
  proof (cases q)
    case Nil
    then have s': "s' = s\<lparr>isem := (isem s)(?o := (v + 1, [])), pcs := ?f\<rparr>"
      using assms(4,5) z by (simp add: pstep_def spost_def wake_def x_def)
    show ?thesis
    proof (rule pinv_sem [OF assms(1)])
      show "tokens T rl r s' = tokens T rl r s" for r
        using U(1) [of r rl] z o [of r] by (cases "?o = r") (simp_all add: s' tokens_def)
      show "queue_ok T (isem s' r) (\<lambda>t. rl t = r \<and> pcs s' t = PItemBlocked)" for r
        using Q(1) [of r] queue_ok_put [of T v] z Nil by (cases "?o = r") (simp_all add: s')
    qed (use U(2) Q(2) in \<open>simp_all add: s' del: fun_upd_apply\<close>)
  next
    case (Cons u us)
    note H = queue_ok_hand [OF Q(1) [of ?o, unfolded z Cons]]
    have u: "u \<noteq> t" "?f u = PItemBlocked" "rl u = ?o" using H(3) x by (auto split: if_splits)
    note V = sum_share_upd [OF assms(2) H(2), where f = ?f and x = PMutex, unfolded u(2)]
    have s': "s' = s\<lparr>isem := (isem s)(?o := (v, us)), pcs := ?f(u := PMutex)\<rparr>"
      using assms(4,5) z Cons by (simp add: pstep_def spost_def wake_def x_def)
    show ?thesis
    proof (rule pinv_sem [OF assms(1)])
      show "tokens T rl r s' = tokens T rl r s" for r
        using U(1) [of r rl] V(1) [of r rl] u(3) o [of r] z
        by (cases "?o = r") (simp_all add: s' tokens_def del: fun_upd_apply add: fun_upd_same fun_upd_other)
      show "queue_ok T (isem s' r) (\<lambda>t. rl t = r \<and> pcs s' t = PItemBlocked)" for r
      proof (cases "?o = r")
        case True
        show ?thesis
          by (rule queue_ok_cong [where W = "\<lambda>x. x \<noteq> u \<and> rl x = ?o \<and> ?f x = PItemBlocked"])
            (use H(4) True in \<open>simp_all add: s'\<close>)
      next
        case False
        then have ne: "rl u \<noteq> r" using u(3) by simp
        have "queue_ok T (isem s' r) (\<lambda>u. rl u = r \<and> ?f u = PItemBlocked)" using Q(1) [of r] False by (simp add: s')
        then show ?thesis by (rule queue_ok_cong) (use ne in \<open>auto simp: s'\<close>)
      qed
      show "queue_ok T (msem s') (\<lambda>t. pcs s' t = PMutexBlocked)"
        by (rule queue_ok_cong [where W = "\<lambda>u. ?f u = PMutexBlocked"])
          (use Q(2) in \<open>simp add: s'\<close>, use u(2) in \<open>force simp: s'\<close>)
    qed (use U(2) V(2) in \<open>simp_all add: s' del: fun_upd_apply\<close>)
  qed
qed

lemmas pinv_cases = pinv_item pinv_mutex pinv_crit pinv_postM pinv_postI

lemma pinv_step:
  assumes "pinv T rl s" "finite T" "t \<in> T" "pstep rl t c stop s = Some s'"
  shows "pinv T rl s'"
proof (cases "pcs s t")
  case PItemBlocked then show ?thesis using assms(4) by (simp add: pstep_def)
next
  case PMutexBlocked then show ?thesis using assms(4) by (simp add: pstep_def)
next
  case PStop then show ?thesis using assms(4) by (simp add: pstep_def)
qed (use pinv_cases [OF assms(1-3) _ assms(4)] in simp_all)

lemma preach_pinv: "preach T rl s \<Longrightarrow> finite T \<Longrightarrow> pinv T rl s"
  by (induction rule: preach.induct) (auto intro: pinv_init pinv_step)

section \<open>Properties\<close>

lemma pstep_None: "pstep rl t c stop s = None \<longleftrightarrow> pcs s t \<in> {PItemBlocked, PMutexBlocked, PStop}"
  by (cases "pcs s t"; cases "rl t") (simp_all add: pstep_def split: prod.splits)



text \<open>A run of a list of steps, to build reachable states.\<close>

fun prun :: "('t \<Rightarrow> role) \<Rightarrow> ('t \<times> char \<times> bool) list \<Rightarrow> 't pstate \<Rightarrow> 't pstate option" where
  "prun rl [] s = Some s"
| "prun rl ((t, c, stop) # es) s = (case pstep rl t c stop s of None \<Rightarrow> None | Some s' \<Rightarrow> prun rl es s')"

lemma prun_preach: "prun rl es s = Some s' \<Longrightarrow> preach T rl s \<Longrightarrow> set (map fst es) \<subseteq> T \<Longrightarrow> preach T rl s'"
proof (induction es arbitrary: s)
  case (Cons e es)
  obtain t c stop where e: "e = (t, c, stop)" by (cases e)
  then obtain s1 where "pstep rl t c stop s = Some s1" "prun rl es s1 = Some s'"
    using Cons.prems(1) by (auto split: option.splits)
  then show ?case using Cons.IH [of s1] Cons.prems(2,3) preach_step e by fastforce
qed simp

text \<open>The reader (thread 0) waits before the writer (thread 1) sends one byte; the reader takes it.\<close>

definition ex_role :: "nat \<Rightarrow> role" where "ex_role t = (if t = 0 then Rd else Wr)"

definition ex_ring :: pipe_t where
  "ex_ring = \<lparr>buffer = (\<lambda>_. CHR 0x00), readIdx = 0, writeIdx = 0, count = 0, semReaders = 3, semWriters = 4,
     mutex = 5, readers = 0, writers = 0, isOpen = True\<rparr>"

definition ex_steps :: "(nat \<times> char \<times> bool) list" where
  "ex_steps = [(0, CHR ''a'', False), (1, CHR ''a'', False), (1, CHR ''a'', False), (1, CHR ''a'', False),
     (1, CHR ''a'', False), (1, CHR ''a'', True), (0, CHR ''a'', False)]"

definition ex_crit :: "nat pstate" where "ex_crit = the (prun ex_role ex_steps (pinit ex_ring))"

definition ex_steps_end :: "(nat \<times> char \<times> bool) list" where
  "ex_steps_end = [(0, CHR ''a'', False), (0, CHR ''a'', False), (0, CHR ''a'', False), (0, CHR ''a'', False)]"

definition ex_end :: "nat pstate" where "ex_end = the (prun ex_role ex_steps_end ex_crit)"

lemmas ex_run_defs = ex_steps_def ex_role_def ex_ring_def pinit_def pstep_def swait_def spost_def wake_def
  pipe_put_def pipe_get_def PIPE_BUFFER_SIZE_def

lemma ex_crit_run: "prun ex_role ex_steps (pinit ex_ring) = Some ex_crit" "pcs ex_crit 0 = PCrit"
  by (simp_all add: ex_crit_def ex_run_defs)


lemma ex_end_run: "prun ex_role ex_steps_end ex_crit = Some ex_end"
  "pcs ex_end 0 = PItemBlocked" "pcs ex_end 1 = PStop" "recv ex_end = ''a''"
  by (simp_all add: ex_end_def ex_steps_end_def ex_crit_def ex_run_defs)


end
