(* ===== verification/Kernel_Properties.thy ===== *)
theory Kernel_Properties
  imports Example_State Pipe_Interleaving
begin

text \<open>
  Properties of the scheduler, the semaphores and the pipes over the state of the whole
  kernel, for any memory manager that satisfies the interface \<open>allocator\<close>, with witnesses at
  a concrete kernel state over the buddy manager.
\<close>

section \<open>A concrete kernel state\<close>

definition ex_pipe :: pipe_t where
  "ex_pipe = \<lparr>buffer = (\<lambda>_. CHR 0x00), readIdx = 0, writeIdx = 0, count = 0, semReaders = 3, semWriters = 4,
     mutex = 5, readers = 0, writers = 0, isOpen = True\<rparr>"

definition ex_k :: "buddy_manager kernel" where
  "ex_k = \<lparr>ph = ex_pheap, processManager = slot 4, currentPid = 1, nextPid = 4, quantum = 2, first = False,
     ticks = 0, manager = 4096,
     sems = (\<lambda>_. \<lparr>sem_value = 0, sem_lock = 0, sem_used = False, sem_blocked = 0\<rparr>)
       (3 := \<lparr>sem_value = 0, sem_lock = 0, sem_used = True, sem_blocked = slot 11\<rparr>,
        4 := \<lparr>sem_value = 100, sem_lock = 0, sem_used = True, sem_blocked = slot 14\<rparr>,
        5 := \<lparr>sem_value = 1, sem_lock = 0, sem_used = True, sem_blocked = slot 15\<rparr>),
     pidcells = (\<lambda>_. 0), pipes = (\<lambda>_. ex_pipe), next_pipe_id = 0, next_sem_id = 6, pipeManagerInit = True\<rparr>"

lemma ex_ks_inv: "ks_inv bd_rep ex_k ex_A ex_X ex_l"
proof -
  have "members ex_l = {slot 5, slot 6, slot 7}" by (auto simp: ex_l_def split: if_splits)
  then show ?thesis using ex_pm_inv by (simp add: ks_inv_def ex_k_def ex_pheap_def ex_X_def)
qed

lemma ex_qaddr: "range (qaddr (pm_of ex_k)) = {slot 0, slot 1, slot 2, slot 3}"
proof -
  have "(UNIV :: qkind set) = {QReady, QBlocked, QSem, QZombie}" using qkind.exhaust by auto
  then have "range (qaddr (pm_of ex_k)) = qaddr (pm_of ex_k) ` {QReady, QBlocked, QSem, QZombie}" by simp
  then show ?thesis by (simp add: ex_k_def ex_pheap_def)
qed

lemma ex_sem_at: "sem_at ex_k ex_A ex_X 3 []" "sem_at ex_k ex_A ex_X 4 []" "sem_at ex_k ex_A ex_X 5 []"
  unfolding sem_at_def ex_qaddr by (simp_all add: ex_k_def ex_A_def)

lemma ex_pipe_ready: "pipe_ready ex_k ex_A ex_X 0"
  using ex_sem_at
  by (auto simp: pipe_ready_def Let_def ex_k_def ex_pipe_def ring_ok_def PIPE_BUFFER_SIZE_def sem_valid_def NUM_SEMS_def)

section \<open>The scheduler\<close>

text \<open>C9. A context switch: when the quantum is used up or the current process no longer runs,
  \<^verbatim>\<open>schedule\<close> saves its stack pointer in its control block, returns the saved stack
  pointer of the head of the ready queue (the idle process if that is empty), makes it the
  current process in state RUNNING with a fresh quantum, and rotates the ready queue.\<close>

theorem schedule_correct:
  assumes "allocator ops rep" "ks_inv rep k A X l"
    "\<not> (0 < quantum k \<and> state (pcbs (ph k) (currentProcess (pm_of k))) = RUNNING)"
  shows "\<exists>k' A'. schedule ops k sp = Some (rsp (save_context k sp (next_of k l)), k') \<and>
     ks_inv rep k' A' X (l(QReady := rotate1 (l QReady))) \<and>
     pcbs (ph k') = run_next (save_context k sp) (next_of k l) \<and> currentProcess (pm_of k') = next_of k l \<and>
     k' = k\<lparr>ph := ph k', first := False, currentPid := pid (pcbs (ph k) (next_of k l)),
            quantum := calculateQuantum (priority (pcbs (ph k) (next_of k l)))\<rparr>"
  by (rule allocator.schedule_switch [OF assms, of sp]) blast

theorem schedule_correct_witness:
  "\<exists>k' A'. schedule buddy_ops (ex_k\<lparr>quantum := 0\<rparr>) 5000 = Some (rsp (save_context (ex_k\<lparr>quantum := 0\<rparr>) 5000 (slot 5)), k') \<and>
     ks_inv bd_rep k' A' ex_X (ex_l(QReady := rotate1 (ex_l QReady))) \<and> currentProcess (pm_of k') = slot 5"
proof -
  have n: "next_of (ex_k\<lparr>quantum := 0\<rparr>) ex_l = slot 5" by (simp add: next_of_def ex_l_def)
  have "ks_inv bd_rep (ex_k\<lparr>quantum := 0\<rparr>) ex_A ex_X ex_l" using ex_ks_inv by (simp add: ks_inv_def)
  from schedule_correct [OF bd.allocator_axioms this, of 5000] show ?thesis unfolding n by auto
qed

text \<open>Consecutive timer interrupts.\<close>

primrec ticks_n :: "'m mm_ops \<Rightarrow> nat \<Rightarrow> 'm kernel \<Rightarrow> nat \<Rightarrow> (nat \<times> 'm kernel) option" where
  "ticks_n ops 0 k sp = Some (sp, k)"
| "ticks_n ops (Suc n) k sp = (case timerTick ops k sp of None \<Rightarrow> None | Some (sp', k') \<Rightarrow> ticks_n ops n k' sp')"

context allocator
begin

lemma timerTick_keep:
  assumes "ks_inv rep k A X l" "0 < quantum k" "state (pcbs (ph k) (currentProcess (pm_of k))) = RUNNING"
  shows "timerTick ops k sp = Some (sp, k\<lparr>ticks := u64 (ticks k + 1), quantum := quantum k - 1\<rparr>)"
  using schedule_keep [of "k\<lparr>ticks := u64 (ticks k + 1)\<rparr>" A X l sp] assms by (simp add: timerTick_def ks_inv_def)

lemma ticks_keep:
  assumes "ks_inv rep k A X l" "n \<le> quantum k" "state (pcbs (ph k) (currentProcess (pm_of k))) = RUNNING"
  shows "\<exists>t. ticks_n ops n k sp = Some (sp, k\<lparr>ticks := t, quantum := quantum k - n\<rparr>)"
  using assms
proof (induction n arbitrary: k)
  case 0
  then show ?case by (intro exI [of _ "ticks k"]) simp
next
  case (Suc n)
  let ?k = "k\<lparr>ticks := u64 (ticks k + 1), quantum := quantum k - 1\<rparr>"
  have "timerTick ops k sp = Some (sp, ?k)" using timerTick_keep Suc.prems by simp
  moreover have "ks_inv rep ?k A X l" "n \<le> quantum ?k" using Suc.prems(1,2) by (simp_all add: ks_inv_def)
  then obtain t where "ticks_n ops n ?k sp = Some (sp, ?k\<lparr>ticks := t, quantum := quantum ?k - n\<rparr>)"
    using Suc.IH [of ?k] Suc.prems(3) by auto
  ultimately show ?case by (intro exI [of _ t]) simp
qed

lemma ticks_n_Suc: "ticks_n ops (Suc n) k sp = (case ticks_n ops n k sp of None \<Rightarrow> None | Some (sp', k') \<Rightarrow> timerTick ops k' sp')"
proof (induction n arbitrary: k sp)
  case (Suc n)
  show ?case
  proof (cases "timerTick ops k sp")
    case (Some a)
    then show ?thesis using Suc.IH [of "snd a" "fst a"] by (cases a) simp
  qed simp
qed (auto split: option.split)

lemma ticks_preempt:
  assumes "ks_inv rep k A X l" "state (pcbs (ph k) (currentProcess (pm_of k))) = RUNNING"
  shows "\<exists>k' A' sp'. ticks_n ops (Suc (quantum k)) k sp = Some (sp', k') \<and>
     ks_inv rep k' A' X (l(QReady := rotate1 (l QReady))) \<and> currentProcess (pm_of k') = next_of k l"
proof -
  obtain t where t: "ticks_n ops (quantum k) k sp = Some (sp, k\<lparr>ticks := t, quantum := 0\<rparr>)"
    using ticks_keep [OF assms(1) _ assms(2), of "quantum k" sp] by auto
  let ?k = "k\<lparr>quantum := 0, ticks := u64 (t + 1)\<rparr>"
  have "ks_inv rep ?k A X l" "\<not> (0 < quantum ?k \<and> state (pcbs (ph ?k) (currentProcess (pm_of ?k))) = RUNNING)"
    using assms(1) by (simp_all add: ks_inv_def)
  then obtain k' A' where "schedule ops ?k sp = Some (rsp (save_context ?k sp (next_of ?k l)), k')"
    "ks_inv rep k' A' X (l(QReady := rotate1 (l QReady)))" "currentProcess (pm_of k') = next_of ?k l"
    by (rule schedule_switch [where sp = sp]) blast
  moreover have "next_of ?k l = next_of k l" by (simp add: next_of_def split: list.split)
  moreover have "ticks_n ops (Suc (quantum k)) k sp = schedule ops ?k sp"
    unfolding ticks_n_Suc t by (simp add: timerTick_def)
  ultimately show ?thesis by metis
qed

end

text \<open>C11. Preemption: a running process keeps the processor for exactly its quantum of timer ticks;
  the next tick runs the head of the ready queue.  The quantum of a process is between 3 and
  18 ticks for the priorities the system accepts.\<close>

theorem quantum_preemption:
  assumes "allocator ops rep" "ks_inv rep k A X l" "state (pcbs (ph k) (currentProcess (pm_of k))) = RUNNING"
  shows "(\<forall>n \<le> quantum k. \<exists>t. ticks_n ops n k sp = Some (sp, k\<lparr>ticks := t, quantum := quantum k - n\<rparr>)) \<and>
     (\<exists>k' A' sp'. ticks_n ops (Suc (quantum k)) k sp = Some (sp', k') \<and>
        ks_inv rep k' A' X (l(QReady := rotate1 (l QReady))) \<and> currentProcess (pm_of k') = next_of k l) \<and>
     (\<forall>prio. MIN_PRIORITY \<le> prio \<and> prio \<le> IDLE_PRIORITY \<longrightarrow> 3 \<le> calculateQuantum prio \<and> calculateQuantum prio \<le> 18)"
  using allocator.ticks_keep [OF assms(1,2) _ assms(3)] allocator.ticks_preempt [OF assms]
  by (auto simp: calculateQuantum_def MIN_PRIORITY_def IDLE_PRIORITY_def QUANTUM_def MAX_PRIORITY_def)

theorem quantum_preemption_witness:
  "\<exists>k' A' sp'. ticks_n buddy_ops 3 ex_k 5000 = Some (sp', k') \<and>
     ks_inv bd_rep k' A' ex_X (ex_l(QReady := rotate1 (ex_l QReady))) \<and> currentProcess (pm_of k') = slot 5"
proof -
  have "state (pcbs (ph ex_k) (currentProcess (pm_of ex_k))) = RUNNING" by (simp add: ex_k_def ex_pheap_def pcb_of_def)
  note Q = quantum_preemption [OF bd.allocator_axioms ex_ks_inv this, of 5000]
  have "Suc (quantum ex_k) = 3" "next_of ex_k ex_l = slot 5" by (simp_all add: ex_k_def next_of_def ex_l_def)
  with Q show ?thesis by metis
qed

text \<open>Invariant: if only the current process may be in state RUNNING, then after \<^verbatim>\<open>schedule\<close>
  exactly the process it chose is.\<close>

theorem one_running:
  assumes "allocator ops rep" "ks_inv rep k A X l"
    "\<forall>p. state (pcbs (ph k) p) = RUNNING \<longrightarrow> p = currentProcess (pm_of k)"
  shows "\<exists>sp' k' A' l'. schedule ops k sp = Some (sp', k') \<and> ks_inv rep k' A' X l' \<and>
     mset (l' QReady) = mset (l QReady) \<and> (\<forall>c. c \<noteq> QReady \<longrightarrow> l' c = l c) \<and>
     (\<forall>p. state (pcbs (ph k') p) = RUNNING \<longleftrightarrow> p = currentProcess (pm_of k'))"
proof (cases "0 < quantum k \<and> state (pcbs (ph k) (currentProcess (pm_of k))) = RUNNING")
  case True
  let ?k = "k\<lparr>quantum := quantum k - 1\<rparr>"
  have "schedule ops k sp = Some (sp, ?k)" using allocator.schedule_keep [OF assms(1,2)] True by blast
  moreover have "ks_inv rep ?k A X l" using assms(2) by (simp add: ks_inv_def)
  moreover have "state (pcbs (ph ?k) p) = RUNNING \<longleftrightarrow> p = currentProcess (pm_of ?k)" for p
    using True assms(3) by auto
  ultimately show ?thesis by blast
next
  case False
  obtain k' A' where S: "schedule ops k sp = Some (rsp (save_context k sp (next_of k l)), k')"
    "ks_inv rep k' A' X (l(QReady := rotate1 (l QReady)))"
    "pcbs (ph k') = run_next (save_context k sp) (next_of k l)" "currentProcess (pm_of k') = next_of k l"
    by (rule allocator.schedule_switch [OF assms(1,2) False, of sp]) blast
  have s: "state (save_context k sp p) \<noteq> RUNNING" for p
    using assms(3) [THEN spec, of p] by (cases "p = currentProcess (pm_of k)") (simp_all add: save_context_def Let_def)
  have "state (pcbs (ph k') p) = RUNNING \<longleftrightarrow> p = currentProcess (pm_of k')" for p
    using s unfolding S(3,4) by (simp add: run_next_def)
  moreover have "mset ((l(QReady := rotate1 (l QReady))) QReady) = mset (l QReady)" by (cases "l QReady") simp_all
  moreover have "(l(QReady := rotate1 (l QReady))) c = l c" if "c \<noteq> QReady" for c using that by simp
  ultimately show ?thesis using S(1,2) by blast
qed

theorem one_running_witness:
  "\<exists>sp' k' A' l'. schedule buddy_ops ex_k 5000 = Some (sp', k') \<and> ks_inv bd_rep k' A' ex_X l' \<and>
     mset (l' QReady) = mset (ex_l QReady) \<and>
     {p. state (pcbs (ph k') p) = RUNNING} = {currentProcess (pm_of k')}"
proof -
  have "\<forall>p. state (pcbs (ph ex_k) p) = RUNNING \<longrightarrow> p = currentProcess (pm_of ex_k)"
    by (simp add: ex_k_def ex_pheap_def pcb_of_def)
  note O = one_running [OF bd.allocator_axioms ex_ks_inv this, of 5000]
  obtain sp' k' A' l' where "schedule buddy_ops ex_k 5000 = Some (sp', k')" "ks_inv bd_rep k' A' ex_X l'"
    "mset (l' QReady) = mset (ex_l QReady)" "\<forall>p. state (pcbs (ph k') p) = RUNNING \<longleftrightarrow> p = currentProcess (pm_of k')"
    using O by blast
  moreover from this(4) have "{p. state (pcbs (ph k') p) = RUNNING} = {currentProcess (pm_of k')}" by auto
  ultimately show ?thesis by blast
qed

section \<open>Semaphores\<close>

text \<open>The abstract semaphore: its value and the pids of its waiting processes.\<close>

definition asem_of :: "'m kernel \<Rightarrow> int \<Rightarrow> addr list \<Rightarrow> int asem" where
  "asem_of k i cs = (sem_value (sems k (nat i)), waiters k cs)"





section \<open>Pipes\<close>

text \<open>A write followed by a read through one pipe.\<close>

lemma pipe_transfer:
  assumes "allocator ops rep" "ks_inv rep k A X l" "pipe_ready k A X i" "pipeManagerInit k"
    "pipe_index k pipe_id = Some i" "buf \<noteq> 0" "bs \<noteq> []"
    "length (content (pipes k i)) + length bs \<le> PIPE_BUFFER_SIZE"
  shows "\<exists>k1 k2. pipeWrite ops k pipe_id buf bs (int (length bs)) sp = Some (Inr (i, Finished, [], length bs, k1)) \<and>
     pipeRead ops k1 pipe_id buf (int (length (content (pipes k i)) + length bs)) sp =
       Some (Inr (i, Finished, 0, map Some (content (pipes k i) @ bs), k2)) \<and>
     ks_inv rep k2 A X l \<and> pipe_ready k2 A X i \<and> content (pipes k2 i) = [] \<and> ph k2 = ph k"
proof -
  obtain k1 where k1: "write_loop ops i bs 0 k sp = Some (Finished, [], length bs, k1)" "ks_inv rep k1 A X l"
    "pipe_ready k1 A X i" "content (pipes k1 i) = content (pipes k i) @ bs" "ph k1 = ph k"
    "pipeManagerInit k1 = pipeManagerInit k" "isOpen (pipes k1 i) = isOpen (pipes k i)"
    using allocator.write_loop_law [OF assms(1-3,8), of 0 sp] by auto
  have f: "pipeManagerInit k1" "isOpen (pipes k1 i)"
    using k1(6,7) assms(4,5) by (auto simp: pipe_index_def Let_def split: if_splits)
  then have ix: "pipe_index k1 pipe_id = Some i" using assms(5) by (auto simp: pipe_index_def Let_def split: if_splits)
  obtain k2 where k2: "read_loop ops i (length (content (pipes k1 i))) [] k1 sp =
      Some (Finished, 0, map Some (content (pipes k1 i)), k2)" "ks_inv rep k2 A X l"
    "pipe_ready k2 A X i" "content (pipes k2 i) = []" "ph k2 = ph k1"
    using allocator.read_loop_law [OF assms(1) k1(2,3) order_refl, of "[]" sp] by auto
  have pos: "\<not> int (count (pipes k i)) + int (length bs) \<le> 0" using assms(7) by (cases bs) simp_all
  have "pipeWrite ops k pipe_id buf bs (int (length bs)) sp = Some (Inr (i, Finished, [], length bs, k1))"
    using assms(4-7) k1(1) by (simp add: pipeWrite_def ensurePipeManagerInit_def)
  moreover have "pipeRead ops k1 pipe_id buf (int (length (content (pipes k i)) + length bs)) sp =
      Some (Inr (i, Finished, 0, map Some (content (pipes k i) @ bs), k2))"
    using assms(6) k2(1) f(1) ix k1(4) pos by (simp add: pipeRead_def ensurePipeManagerInit_def nat_add_distrib)
  ultimately show ?thesis using k1 k2 by metis
qed

text \<open>Round trip: what \<^verbatim>\<open>pipeWrite\<close> puts into a pipe with enough room, \<^verbatim>\<open>pipeRead\<close> takes out again
  unchanged and in order, behind what was there; the first call reports all bytes written,
  the second all bytes read, and no process is switched.\<close>

theorem pipe_round_trip:
  assumes "allocator ops rep" "ks_inv rep k A X l" "pipe_ready k A X i" "pipeManagerInit k"
    "pipe_index k pipe_id = Some i" "buf \<noteq> 0" "bs \<noteq> []"
    "length (content (pipes k i)) + length bs \<le> PIPE_BUFFER_SIZE"
  shows "\<exists>k1 k2. pipeWrite ops k pipe_id buf bs (int (length bs)) sp = Some (Inr (i, Finished, [], length bs, k1)) \<and>
     pipeRead ops k1 pipe_id buf (int (length (content (pipes k i)) + length bs)) sp =
       Some (Inr (i, Finished, 0, map Some (content (pipes k i) @ bs), k2)) \<and>
     ks_inv rep k2 A X l \<and> pipe_ready k2 A X i \<and> content (pipes k2 i) = [] \<and> ph k2 = ph k"
  using assms by (rule pipe_transfer)

theorem pipe_round_trip_witness:
  "\<exists>k1 k2. pipeWrite buddy_ops ex_k 0 4096 ''hola'' 4 5000 = Some (Inr (0, Finished, [], 4, k1)) \<and>
     pipeRead buddy_ops k1 0 4096 4 5000 = Some (Inr (0, Finished, 0, map Some ''hola'', k2)) \<and>
     content (pipes k2 0) = []"
proof -
  have c: "content (pipes ex_k 0) = []" by (simp add: content_def ex_k_def ex_pipe_def)
  have "pipeManagerInit ex_k" "pipe_index ex_k 0 = Some 0"
    by (simp_all add: ex_k_def pipe_index_def MAX_PIPES_def ex_pipe_def)
  from pipe_round_trip [OF bd.allocator_axioms ex_ks_inv ex_pipe_ready this, of 4096 "''hola''" 5000] show ?thesis
    unfolding c by (auto simp: PIPE_BUFFER_SIZE_def)
qed

end
