(* ===== verification/Lifecycle_Properties.thy ===== *)
theory Lifecycle_Properties
  imports Process_Lifecycle Kernel_Properties
begin

text \<open>
  Properties of the life of a process, over the laws of \<open>Process_Lifecycle\<close>, with witnesses at
  the concrete kernel state of \<open>Kernel_Properties\<close>.
\<close>


lemma ex_members: "members ex_l = {slot 5, slot 6, slot 7}"
  by (auto simp: ex_l_def split: if_splits)




text \<open>\<^verbatim>\<open>changePrio\<close> clamps the new priority into 0..5, stores it in the block of exactly the given
  process and returns it; the quantum that follows is between 3 and 18 ticks and larger for
  smaller numbers.  The idle process and the shell keep their priority.\<close>

theorem changePrio_correct:
  assumes "allocator ops rep" "ks_inv rep k A X l" "x \<in> set (l c)"
  shows "if pid (pcbs (ph k) x) \<le> 1 then changePrio k (pid (pcbs (ph k) x)) n = Some (-1, k)
     else \<exists>r k'. changePrio k (pid (pcbs (ph k) x)) n = Some (r, k') \<and> r = min (max n 0) 5 \<and> ks_inv rep k' A X l \<and>
       pcbs (ph k') = (pcbs (ph k))(x := (pcbs (ph k) x)\<lparr>priority := r\<rparr>) \<and>
       int (calculateQuantum r) = 18 - 3 * r"
proof -
  have x: "x \<noteq> 0" using allocator.ks_nonzero(5) [OF assms(1,2)] assms(3) by blast
  have g: "getProcess (ph k) (processManager k) (pid (pcbs (ph k) x)) = Some x"
    by (rule allocator.getProcess_ks [OF assms])
  let ?r = "min (max n 0) 5"
  have r: "(if n < MIN_PRIORITY then MIN_PRIORITY else if n > MAX_PRIORITY then MAX_PRIORITY else n) = ?r"
    by (auto simp: MIN_PRIORITY_def MAX_PRIORITY_def)
  have q: "int (calculateQuantum ?r) = 18 - 3 * ?r"
    by (auto simp: calculateQuantum_def IDLE_PRIORITY_def QUANTUM_def MAX_PRIORITY_def)
  have "ks_inv rep (upd_pcb x (\<lambda>b. b\<lparr>priority := ?r\<rparr>) k) A X l" using assms(2) by (simp add: ks_inv_upd)
  then show ?thesis using g x q unfolding changePrio_def by (simp add: r Let_def)
qed

theorem changePrio_correct_witness:
  "\<exists>r k'. changePrio ex_k 2 100 = Some (r, k') \<and> r = 5 \<and> ks_inv bd_rep k' ex_A ex_X ex_l"
proof -
  have "slot 6 \<in> set (ex_l QReady)" "pid (pcbs (ph ex_k) (slot 6)) = 2" by (simp_all add: ex_l_def ex_k_def ex_pheap_def pcb_of_def)
  with changePrio_correct [OF bd.allocator_axioms ex_ks_inv this(1), of 100] show ?thesis by auto
qed

end
