(* ===== verification/Module_Image.thy ===== *)
theory Module_Image
  imports Kernel_Lib
begin

text \<open>
  The packed image: the tool \<^verbatim>\<open>Toolchain/ModulePacker/main.c\<close> that appends the user modules to
  the kernel, and the loader \<^verbatim>\<open>Kernel/moduleLoader.c\<close> that copies them to their addresses at
  boot.

  A file system maps names to the contents of readable files.  The library \<^verbatim>\<open>argp\<close> calls the
  parser \<^verbatim>\<open>parse_opt\<close> of the tool once for every option and argument of the command line and
  once at its end; the sequence of these calls is an argument of the model.  The main property
  is the round trip: what the tool packs, the loader unpacks.
\<close>

section \<open>The packer\<close>

type_synonym fs = "string \<Rightarrow> string option"

definition BUFFER_SIZE :: nat where "BUFFER_SIZE = 128"

text \<open>
  The copy loop of \<^verbatim>\<open>write_file\<close>: \<^verbatim>\<open>fread\<close> returns at most a buffer, and \<^verbatim>\<open>feof\<close> holds once a
  read came up short.
\<close>

function write_loop :: "string \<Rightarrow> string \<Rightarrow> bool \<Rightarrow> string" where
  "write_loop target source eof = (if eof then target
     else write_loop (target @ take BUFFER_SIZE source) (drop BUFFER_SIZE source) (length source < BUFFER_SIZE))"
  by pat_completeness auto
termination
  by (relation "measure (\<lambda>(target, source, eof). if eof then 0 else length source + 1)") (auto simp: BUFFER_SIZE_def)

definition write_file :: "string \<Rightarrow> string \<Rightarrow> string" where
  "write_file target source = write_loop target source False"

fun le_bytes :: "nat \<Rightarrow> nat \<Rightarrow> string" where
  "le_bytes 0 v = []"
| "le_bytes (Suc n) v = char_of v # le_bytes n (v div 256)"

definition write_size :: "string \<Rightarrow> string \<Rightarrow> string" where
  "write_size target contents = target @ le_bytes 4 (u32 (length contents))"

definition checkFiles :: "fs \<Rightarrow> string list \<Rightarrow> bool" where
  "checkFiles F files = list_all (\<lambda>f. F f \<noteq> None) files"

text \<open>The loop of \<^verbatim>\<open>buildImage\<close> over the modules; \<open>None\<close> where a file cannot be opened.\<close>

fun append_modules :: "fs \<Rightarrow> string \<Rightarrow> string list \<Rightarrow> string option" where
  "append_modules F target [] = Some target"
| "append_modules F target (f # files) = (case F f of None \<Rightarrow> None
     | Some src \<Rightarrow> append_modules F (write_file (write_size target src) src) files)"

text \<open>\<open>None\<close> also when the output file is one of the files to pack: opening it for writing empties
  it, and the tool then reads what it is writing.\<close>

definition buildImage :: "fs \<Rightarrow> bool \<Rightarrow> string list \<Rightarrow> string \<Rightarrow> (bool \<times> fs) option" where
  "buildImage F writable files output_file = (if \<not> writable then Some (False, F) else
     if output_file \<in> set files then None else
     case files of [] \<Rightarrow> None
     | kernel_file # mods \<Rightarrow> do {
         src \<leftarrow> F kernel_file;
         let target = write_file [] src;
         let target = target @ le_bytes 4 (u32 (length files - 1));
         target \<leftarrow> append_modules F target mods;
         Some (True, F(output_file \<mapsto> target))
       })"

text \<open>The command line: a call of the parser has a key, the text and the number of arguments so far.\<close>

definition MAX_FILES :: nat where "MAX_FILES = 128"
definition OUTPUT_FILE :: string where "OUTPUT_FILE = ''packedKernel.bin''"
definition ARGP_ERR_UNKNOWN :: int where "ARGP_ERR_UNKNOWN = 7"
definition EX_USAGE :: int where "EX_USAGE = 64"

datatype arg_key = KEY_o | ARGP_KEY_ARG | ARGP_KEY_END | OTHER_KEY

record packer_arguments =
  args :: "string option list"
  output_file :: string
  arg_count :: nat

text \<open>A parser call returns its error code, or leaves the program through \<^verbatim>\<open>argp_usage\<close> (\<open>Inl\<close> with the
  exit code); \<open>None\<close> is a write behind the array of file names.\<close>

definition parse_opt :: "arg_key \<Rightarrow> string \<Rightarrow> nat \<Rightarrow> packer_arguments \<Rightarrow> (int + int \<times> packer_arguments) option" where
  "parse_opt key arg arg_num a = (case key of
     KEY_o \<Rightarrow> Some (Inr (0, a\<lparr>output_file := arg\<rparr>))
   | ARGP_KEY_ARG \<Rightarrow> if arg_num < length (args a) then Some (Inr (0, a\<lparr>args := (args a)[arg_num := Some arg]\<rparr>)) else None
   | ARGP_KEY_END \<Rightarrow> if arg_num < 1 then Some (Inl EX_USAGE) else Some (Inr (0, a\<lparr>arg_count := arg_num\<rparr>))
   | OTHER_KEY \<Rightarrow> Some (Inr (ARGP_ERR_UNKNOWN, a)))"

text \<open>The calls that \<^verbatim>\<open>argp_parse\<close> makes, in order; an unknown key is not an error for \<^verbatim>\<open>argp\<close>'s own keys.\<close>

fun parse_calls :: "(arg_key \<times> string \<times> nat) list \<Rightarrow> packer_arguments \<Rightarrow> (int + packer_arguments) option" where
  "parse_calls [] a = Some (Inr a)"
| "parse_calls ((key, arg, n) # cs) a = (case parse_opt key arg n a of None \<Rightarrow> None
     | Some (Inl r) \<Rightarrow> Some (Inl r) | Some (Inr (e, a)) \<Rightarrow> parse_calls cs a)"

definition packer_main :: "fs \<Rightarrow> bool \<Rightarrow> (arg_key \<times> string \<times> nat) list \<Rightarrow> (int \<times> fs) option" where
  "packer_main F writable calls =
     (case parse_calls calls \<lparr>args = replicate MAX_FILES None, output_file = OUTPUT_FILE, arg_count = 0\<rparr> of None \<Rightarrow> None
      | Some (Inl r) \<Rightarrow> Some (r, F)
      | Some (Inr a) \<Rightarrow> (let files = take (arg_count a) (args a) in
          if length files < arg_count a \<or> None \<in> set files then None
          else if \<not> checkFiles F (map the files) then Some (1, F)
          else do { (ok, F) \<leftarrow> buildImage F writable (map the files) (output_file a); Some (if ok then 0 else 1, F) }))"

section \<open>The loader\<close>

definition readUint32 :: "mem \<Rightarrow> addr \<Rightarrow> nat \<times> addr" where
  "readUint32 m address = (load_le m address 4, address + 4)"

definition loadModule :: "mem \<Rightarrow> addr \<Rightarrow> addr \<Rightarrow> addr \<times> mem" where
  "loadModule m module target =
     (let (moduleSize, module) = readUint32 m module;
          m = snd (memcpy m target module moduleSize)
      in (module + moduleSize, m))"

text \<open>The loop over the modules; an index behind the array of targets is a fault.\<close>

fun load_loop :: "mem \<Rightarrow> addr \<Rightarrow> nat \<Rightarrow> addr list \<Rightarrow> mem option" where
  "load_loop m cur 0 targets = Some m"
| "load_loop m cur (Suc n) [] = None"
| "load_loop m cur (Suc n) (t # targets) = (let (cur, m) = loadModule m cur t in load_loop m cur n targets)"

definition loadModules :: "mem \<Rightarrow> addr \<Rightarrow> addr list \<Rightarrow> mem option" where
  "loadModules m payloadStart targets =
     (let (moduleCount, cur) = readUint32 m payloadStart in load_loop m cur moduleCount targets)"

section \<open>Lemmas\<close>

declare write_loop.simps [simp del]

lemma write_file_append: "write_file target source = target @ source"
proof -
  have "write_loop target source eof = (if eof then target else target @ source)" for eof
    by (induction target source eof rule: write_loop.induct) (subst write_loop.simps, auto simp: BUFFER_SIZE_def)
  then show ?thesis by (simp add: write_file_def)
qed

definition enc_module :: "string \<Rightarrow> string" where
  "enc_module c = le_bytes 4 (length c) @ c"

lemma append_modules_enc:
  assumes "map F files = map Some mods" "\<forall>c \<in> set mods. length c < 2 ^ 32"
  shows "append_modules F target files = Some (target @ concat (map enc_module mods))"
  using assms
proof (induction files arbitrary: mods target)
  case (Cons f files)
  obtain c cs where "mods = c # cs" "F f = Some c" "map F files = map Some cs"
    using Cons.prems(1) by (cases mods) auto
  then show ?case
    using Cons.IH [of cs "target @ enc_module c"] Cons.prems(2)
    by (simp add: write_file_append write_size_def enc_module_def u32_small)
qed simp

lemma length_le_bytes [simp]: "length (le_bytes n v) = n"
  by (induction n arbitrary: v) simp_all

lemma load_le_bytes: "bytes_at m a n = le_bytes n v \<Longrightarrow> load_le m a n = v mod 256 ^ n"
proof (induction n arbitrary: a v)
  case (Suc n)
  have "m a = char_of v" "bytes_at m (a + 1) n = le_bytes n (v div 256)"
    using Suc.prems by (simp_all add: bytes_at_Suc)
  then show ?case using Suc.IH by (simp add: mod_mult2_eq)
qed simp

lemma bytes_at_append: "bytes_at m a (n + k) = bytes_at m a n @ bytes_at m (a + n) k"
  by (induction n arbitrary: a) (simp_all add: bytes_at_Suc, simp add: bytes_at_def)

lemma bytes_at_split:
  "bytes_at m a (length (xs @ ys)) = xs @ ys \<longleftrightarrow>
   bytes_at m a (length xs) = xs \<and> bytes_at m (a + length xs) (length ys) = ys"
  by (simp add: bytes_at_append)

text \<open>Areas that do not overlap.\<close>

definition apart :: "nat \<Rightarrow> nat \<Rightarrow> nat \<Rightarrow> nat \<Rightarrow> bool" where
  "apart a n b k \<longleftrightarrow> a + n \<le> b \<or> b + k \<le> a"

lemma bytes_at_put_apart: "apart a n b (length cs) \<Longrightarrow> bytes_at (put m b cs) a n = bytes_at m a n"
  by (rule bytes_at_put_disjoint) (auto simp: apart_def)

text \<open>The targets are apart from each other and from the payload.\<close>

fun targets_ok :: "nat \<Rightarrow> nat \<Rightarrow> string list \<Rightarrow> addr list \<Rightarrow> bool" where
  "targets_ok p n [] ts = True"
| "targets_ok p n (c # cs) [] = False"
| "targets_ok p n (c # cs) (t # ts) \<longleftrightarrow> apart p n t (length c) \<and>
     (\<forall>i < length cs. i < length ts \<longrightarrow> apart t (length c) (ts ! i) (length (cs ! i))) \<and> targets_ok p n cs ts"

lemma targets_ok_length: "targets_ok p n cs ts \<Longrightarrow> length cs \<le> length ts"
  by (induction p n cs ts rule: targets_ok.induct) auto

lemma apart_sub: "apart a n b k \<Longrightarrow> a \<le> a' \<Longrightarrow> a' + n' \<le> a + n \<Longrightarrow> apart a' n' b k"
  by (auto simp: apart_def)

lemma targets_ok_sub: "targets_ok p n cs ts \<Longrightarrow> p \<le> q \<Longrightarrow> q + k \<le> p + n \<Longrightarrow> targets_ok q k cs ts"
  by (induction p n cs ts rule: targets_ok.induct) (auto intro: apart_sub)

lemma load_module_enc:
  assumes "bytes_at m p (length (enc_module c)) = enc_module c" "length c < 2 ^ 32" "apart p (length (enc_module c)) t (length c)"
  shows "loadModule m p t = (p + length (enc_module c), put m t c)"
proof -
  have b: "bytes_at m p 4 = le_bytes 4 (length c)" "bytes_at m (p + 4) (length c) = c"
    using assms(1) bytes_at_split [of m p "le_bytes 4 (length c)" c] by (simp_all add: enc_module_def)
  have "load_le m p 4 = length c" using load_le_bytes [OF b(1)] assms(2) by simp
  moreover have "t \<le> p + 4 \<or> p + 4 + length c \<le> t" using assms(3) by (auto simp: apart_def enc_module_def)
  then have "memcpy m t (p + 4) (length c) = (t, put m t (bytes_at m (p + 4) (length c)))"
    by (intro memcpy_put)
  ultimately show ?thesis by (simp add: loadModule_def readUint32_def b(2) enc_module_def)
qed

lemma load_loop_enc:
  assumes "bytes_at m p (length (concat (map enc_module cs))) = concat (map enc_module cs)"
    "\<forall>c \<in> set cs. length c < 2 ^ 32" "targets_ok p (length (concat (map enc_module cs))) cs ts"
  shows "\<exists>m'. load_loop m p (length cs) ts = Some m' \<and>
     (\<forall>i < length cs. bytes_at m' (ts ! i) (length (cs ! i)) = cs ! i) \<and>
     (\<forall>a n. (\<forall>i < length cs. apart a n (ts ! i) (length (cs ! i))) \<longrightarrow> bytes_at m' a n = bytes_at m a n)"
  using assms
proof (induction cs arbitrary: m p ts)
  case (Cons c cs)
  let ?e = "enc_module c" and ?r = "concat (map enc_module cs)"
  obtain t us where ts: "ts = t # us" using Cons.prems(3) by (cases ts) auto
  have T: "apart p (length (?e @ ?r)) t (length c)" "targets_ok p (length (?e @ ?r)) cs us"
    "\<And>i. i < length cs \<Longrightarrow> i < length us \<Longrightarrow> apart t (length c) (us ! i) (length (cs ! i))"
    using Cons.prems(3) ts by simp_all
  have len: "length cs \<le> length us" using targets_ok_length [OF T(2)] .
  have b: "bytes_at m p (length ?e) = ?e" "bytes_at m (p + length ?e) (length ?r) = ?r"
    using Cons.prems(1) bytes_at_split [of m p ?e ?r] by simp_all
  have L: "loadModule m p t = (p + length ?e, put m t c)"
    by (rule load_module_enc [OF b(1)]) (use Cons.prems(2) T(1) in \<open>auto intro: apart_sub\<close>)
  have "bytes_at (put m t c) (p + length ?e) (length ?r) = ?r"
    using b(2) bytes_at_put_apart [OF apart_sub [OF T(1)], of "p + length ?e" "length ?r" m] by simp
  moreover have "targets_ok (p + length ?e) (length ?r) cs us" by (rule targets_ok_sub [OF T(2)]) simp_all
  ultimately obtain m' where m': "load_loop (put m t c) (p + length ?e) (length cs) us = Some m'"
    "\<And>i. i < length cs \<Longrightarrow> bytes_at m' (us ! i) (length (cs ! i)) = cs ! i"
    "\<And>a n. (\<And>i. i < length cs \<Longrightarrow> apart a n (us ! i) (length (cs ! i))) \<Longrightarrow> bytes_at m' a n = bytes_at (put m t c) a n"
    using Cons.IH [of "put m t c" "p + length ?e" us] Cons.prems(2) by auto
  have "bytes_at m' t (length c) = c" using m'(3) [of t "length c"] T(3) len by simp
  then have "bytes_at m' (ts ! i) (length ((c # cs) ! i)) = (c # cs) ! i" if "i < length (c # cs)" for i
    using that m'(2) ts by (cases i) auto
  moreover have "bytes_at m' a n = bytes_at m a n" if "\<forall>i < length (c # cs). apart a n (ts ! i) (length ((c # cs) ! i))" for a n
    using that [rule_format, of 0] that [rule_format, of "Suc _"] m'(3) [of a n] bytes_at_put_apart [of a n t c m] ts by simp
  ultimately show ?case using m'(1) L ts by (intro exI [of _ m']) simp
qed simp

lemma loadModules_enc:
  assumes "bytes_at m p (length (le_bytes 4 (length cs) @ concat (map enc_module cs))) = le_bytes 4 (length cs) @ concat (map enc_module cs)"
    "\<forall>c \<in> set cs. length c < 2 ^ 32" "length cs < 2 ^ 32" "targets_ok p (4 + length (concat (map enc_module cs))) cs ts"
  shows "\<exists>m'. loadModules m p ts = Some m' \<and>
     (\<forall>i < length cs. bytes_at m' (ts ! i) (length (cs ! i)) = cs ! i) \<and>
     (\<forall>a n. (\<forall>i < length cs. apart a n (ts ! i) (length (cs ! i))) \<longrightarrow> bytes_at m' a n = bytes_at m a n)"
proof -
  let ?e = "concat (map enc_module cs)"
  have b: "bytes_at m p 4 = le_bytes 4 (length cs)" "bytes_at m (p + 4) (length ?e) = ?e"
    using assms(1) bytes_at_split [of m p "le_bytes 4 (length cs)" ?e] by simp_all
  have r: "load_le m p 4 = length cs" using load_le_bytes [OF b(1)] assms(3) by simp
  have "targets_ok (p + 4) (length ?e) cs ts"
    by (rule targets_ok_sub [OF assms(4)]) simp_all
  from load_loop_enc [OF b(2) assms(2) this] show ?thesis by (simp add: loadModules_def readUint32_def r)
qed

text \<open>The calls for the command line \<^verbatim>\<open>-o out f1 f2 ...\<close>.\<close>

definition argp_calls :: "string \<Rightarrow> string list \<Rightarrow> (arg_key \<times> string \<times> nat) list" where
  "argp_calls out fs = (KEY_o, out, 0) # map (\<lambda>i. (ARGP_KEY_ARG, fs ! i, i)) [0..<length fs] @ [(ARGP_KEY_END, [], length fs), (OTHER_KEY, [], 0)]"

lemma parse_calls_append:
  "parse_calls (xs @ ys) a = (case parse_calls xs a of Some (Inr a') \<Rightarrow> parse_calls ys a' | r \<Rightarrow> r)"
  by (induction xs a rule: parse_calls.induct) (auto split: option.split sum.split)

lemma parse_args:
  assumes "n \<le> length fs"
  shows "parse_calls (map (\<lambda>i. (ARGP_KEY_ARG, fs ! i, i)) [0..<n]) a
     = (if n \<le> length (args a) then Some (Inr (a\<lparr>args := map Some (take n fs) @ drop n (args a)\<rparr>)) else None)"
  using assms
proof (induction n)
  case (Suc n)
  have "(map Some (take n fs) @ drop n (args a))[n := Some (fs ! n)] = map Some (take (Suc n) fs) @ drop (Suc n) (args a)"
    if "Suc n \<le> length (args a)"
    using that Suc.prems by (simp add: list_update_append take_Suc_conv_app_nth Cons_nth_drop_Suc [symmetric])
  then show ?case using Suc by (auto simp: parse_calls_append parse_opt_def)
qed simp

lemma parse_argp:
  assumes "fs \<noteq> []"
  shows "parse_calls (argp_calls out fs) \<lparr>args = replicate MAX_FILES None, output_file = o0, arg_count = 0\<rparr>
     = (if length fs \<le> MAX_FILES then Some (Inr \<lparr>args = map Some fs @ replicate (MAX_FILES - length fs) None, output_file = out, arg_count = length fs\<rparr>) else None)"
  using assms by (cases "length fs \<le> MAX_FILES") (simp_all add: argp_calls_def parse_calls_append parse_args parse_opt_def Suc_le_eq)

section \<open>Properties\<close>

text \<open>C27. Round trip: the image the packer writes, placed anywhere in memory, is unpacked by the loader
  that starts behind the kernel: every module's bytes arrive unchanged at its target address,
  provided the targets overlap neither the image nor each other.  The command line names an
  output file, the kernel and at most 127 modules; for one file more the parser writes behind its
  array.\<close>

theorem image_round_trip:
  assumes "F kf = Some kern" "map F mfs = map Some mods" "\<forall>c \<in> set mods. length c < 2 ^ 32" "length mods < 2 ^ 32"
    "img = kern @ le_bytes 4 (length mods) @ concat (map enc_module mods)"
    "bytes_at m a (length img) = img" "targets_ok a (length img) mods ts" "out \<notin> set (kf # mfs)"
  shows "(if length mfs < 128 then packer_main F True (argp_calls out (kf # mfs)) = Some (0, F(out \<mapsto> img))
       else packer_main F True (argp_calls out (kf # mfs)) = None) \<and>
     (\<exists>m'. loadModules m (a + length kern) ts = Some m' \<and>
        (\<forall>i < length mods. bytes_at m' (ts ! i) (length (mods ! i)) = mods ! i))"
proof
  have len: "length mfs = length mods" using assms(2) by (metis length_map)
  have F: "F f \<noteq> None" if "f \<in> set mfs" for f
  proof -
    have "F f \<in> set (map F mfs)" using that by simp
    then show ?thesis unfolding assms(2) by auto
  qed
  then have "checkFiles F (kf # mfs)" using assms(1) by (simp add: checkFiles_def list_all_iff)
  moreover have "buildImage F True (kf # mfs) out = Some (True, F(out \<mapsto> img))"
    using assms(1,4,8) append_modules_enc [OF assms(2,3)] len by (simp add: buildImage_def write_file_append assms(5) u32_small)
  ultimately show "if length mfs < 128 then packer_main F True (argp_calls out (kf # mfs)) = Some (0, F(out \<mapsto> img))
       else packer_main F True (argp_calls out (kf # mfs)) = None"
    using parse_argp [of "kf # mfs" out] by (simp add: packer_main_def MAX_FILES_def)
  let ?p = "a + length kern" and ?e = "concat (map enc_module mods)"
  have "bytes_at m ?p (length (le_bytes 4 (length mods) @ ?e)) = le_bytes 4 (length mods) @ ?e"
    using assms(5,6) bytes_at_split [of m a kern "le_bytes 4 (length mods) @ ?e"] by simp
  moreover have "targets_ok ?p (4 + length ?e) mods ts"
    by (rule targets_ok_sub [OF assms(7)]) (simp_all add: assms(5))
  ultimately show "\<exists>m'. loadModules m ?p ts = Some m' \<and> (\<forall>i < length mods. bytes_at m' (ts ! i) (length (mods ! i)) = mods ! i)"
    using loadModules_enc assms(3,4) by blast
qed

theorem image_round_trip_witness:
  "packer_main [''k'' \<mapsto> ''KERN'', ''m'' \<mapsto> ''code''] True (argp_calls ''out'' [''k'', ''m'']) =
     Some (0, [''k'' \<mapsto> ''KERN'', ''m'' \<mapsto> ''code'', ''out'' \<mapsto> ''KERN'' @ le_bytes 4 1 @ concat (map enc_module [''code''])]) \<and>
   (\<exists>m'. loadModules (put (\<lambda>_. NUL) 100 (''KERN'' @ le_bytes 4 1 @ concat (map enc_module [''code'']))) 104 [500] = Some m' \<and>
      bytes_at m' 500 4 = ''code'')"
proof -
  let ?img = "''KERN'' @ le_bytes 4 1 @ concat (map enc_module [''code''])"
  let ?m = "put (\<lambda>_. NUL) 100 ?img"
  have l: "length ?img = 16" by (simp add: enc_module_def)
  have "bytes_at ?m 100 (length ?img) = ?img" by (rule bytes_at_put)
  then have b: "bytes_at ?m 100 (length ?img) = ?img" .
  have t: "targets_ok 100 (length ?img) [''code''] [500]" unfolding l by (simp add: apart_def)
  have i: "?img = ''KERN'' @ le_bytes 4 (length [''code'']) @ concat (map enc_module [''code''])" by simp
  have F: "[''k'' \<mapsto> ''KERN'', ''m'' \<mapsto> ''code''] ''k'' = Some ''KERN''"
    "map [''k'' \<mapsto> ''KERN'', ''m'' \<mapsto> ''code''] [''m''] = map Some [''code'']"
    "\<forall>c \<in> set [''code'']. length c < 2 ^ 32" "length [''code''] < 2 ^ 32" by simp_all
  have n: "100 + length ''KERN'' = (104 :: nat)" "length [''code''] = 1" "length ''code'' = 4" by simp_all
  have o: "''out'' \<notin> set (''k'' # [''m''])" "length [''m''] < 128" by simp_all
  from image_round_trip [OF F i b t o(1)] show ?thesis
    unfolding n if_P [OF o(2)] by (metis less_one nth_Cons_0 n(3))
qed

end
