(* ===== verification/Clock.thy ===== *)
theory Clock
  imports Kernel_Prelude
begin

text \<open>
  The real-time clock, \<^verbatim>\<open>Kernel/drivers/clock.c\<close>, and the timer, \<^verbatim>\<open>Kernel/drivers/time.c\<close>.

  The registers of the clock chip are an argument \<open>rtc\<close> (register number to byte); the ticks a
  waiting process reads after each \<^verbatim>\<open>yield\<close> are a sequence \<open>obs\<close>.  Dates are checked against an
  independent count of days (\<open>day_number\<close>): the time zone correction of \<^verbatim>\<open>getTime\<close> is the
  addition of hours.  \<^verbatim>\<open>getTimeParam\<close> does the same in \<^verbatim>\<open>uint8_t\<close> and fails for early hours.
\<close>

section \<open>The clock\<close>

definition Y2K :: int where "Y2K = 2000"
definition GMT_ARG :: int where "GMT_ARG = -3"
definition SECONDS :: nat where "SECONDS = 0x00"
definition MINUTES :: nat where "MINUTES = 0x02"
definition HOURS :: nat where "HOURS = 0x04"
definition DAY_OF_MONTH :: nat where "DAY_OF_MONTH = 0x07"
definition MONTH :: nat where "MONTH = 0x08"
definition YEAR :: nat where "YEAR = 0x09"

lemmas rtc_regs = SECONDS_def MINUTES_def HOURS_def DAY_OF_MONTH_def MONTH_def YEAR_def

record time_t =
  sec :: int
  min :: int
  hour :: int
  day :: int
  month :: int
  year :: int

definition BCDToDecimal :: "nat \<Rightarrow> nat" where
  "BCDToDecimal time = u8 (drop_bit 4 (time AND 0xF0) * 10 + (time AND 0x0F))"

definition reg :: "(nat \<Rightarrow> nat) \<Rightarrow> nat \<Rightarrow> int" where
  "reg rtc r = int (BCDToDecimal (u8 (rtc r)))"

definition isLeapYear :: "int \<Rightarrow> bool" where
  "isLeapYear y \<longleftrightarrow> (y mod 4 = 0 \<and> y mod 100 \<noteq> 0) \<or> y mod 400 = 0"

definition daytab :: "int list list" where
  "daytab = [[0, 31, 28, 31, 30, 31, 30, 31, 31, 30, 31, 30, 31], [0, 31, 29, 31, 30, 31, 30, 31, 31, 30, 31, 30, 31]]"

text \<open>A month outside 0..12 reads behind the table.\<close>

definition getDaysInMonth :: "int \<Rightarrow> int \<Rightarrow> int option" where
  "getDaysInMonth mo y = (if 0 \<le> mo \<and> mo \<le> 12 then Some (daytab ! of_bool (isLeapYear y) ! nat mo) else None)"

definition checkDay :: "int \<Rightarrow> int \<Rightarrow> int \<Rightarrow> (int \<times> int \<times> int) option" where
  "checkDay d mo y = do {
     n \<leftarrow> getDaysInMonth mo y;
     if d > n then (let mo = mo + 1 in if mo > 12 then Some (1, 1, y + 1) else Some (1, mo, y))
     else if d \<le> 0 then do {
       let (mo, y) = (let mo = mo - 1 in if mo \<le> 0 then (12, y - 1) else (mo, y));
       n \<leftarrow> getDaysInMonth mo y;
       Some (n, mo, y)
     } else Some (d, mo, y)
   }"

definition getTime :: "(nat \<Rightarrow> nat) \<Rightarrow> int \<Rightarrow> time_t option" where
  "getTime rtc timeZone = do {
     let h = reg rtc HOURS + timeZone;
     let d = reg rtc DAY_OF_MONTH;
     let (h, d) = (if h \<ge> 24 then (h - 24, d + 1) else if h < 0 then (h + 24, d - 1) else (h, d));
     (d, mo, y) \<leftarrow> checkDay d (reg rtc MONTH) (reg rtc YEAR + Y2K);
     Some \<lparr>sec = reg rtc SECONDS, min = reg rtc MINUTES, hour = h, day = d, month = mo, year = y\<rparr>
   }"

text \<open>\<^verbatim>\<open>uint8_t\<close> and \<^verbatim>\<open>uint16_t\<close> variables.\<close>

definition getTimeParam :: "(nat \<Rightarrow> nat) \<Rightarrow> nat \<Rightarrow> int option" where
  "getTimeParam rtc param = do {
     let h = (reg rtc HOURS + GMT_ARG) mod 256;
     let d = reg rtc DAY_OF_MONTH;
     let mo = reg rtc MONTH;
     let y = reg rtc YEAR + Y2K;
     let (h, d) = (if h \<ge> 24 then ((h - 24) mod 256, (d + 1) mod 256) else (h, d));
     n \<leftarrow> getDaysInMonth mo y;
     (d, mo, y) \<leftarrow> (if d > n then (let mo = (mo + 1) mod 256 in if mo > 12 then Some (1, 1, (y + 1) mod 65536) else Some (1, mo, y))
        else if d \<le> 0 then do {
          let mo = (mo - 1) mod 256;
          let (mo, y) = (if mo \<le> 0 then (12, (y - 1) mod 65536) else (mo, y));
          n \<leftarrow> getDaysInMonth mo y;
          Some (n, mo, y)
        } else Some (d, mo, y));
     Some (if param > 5 then 0 else [reg rtc SECONDS, reg rtc MINUTES, h, d, mo, y] ! param)
   }"

text \<open>The arithmetic of \<^verbatim>\<open>diffTimeMillis\<close> is in \<^verbatim>\<open>int\<close>; its overflow is modelled as wrap-around.\<close>

definition millis :: "time_t \<Rightarrow> int" where
  "millis t = s32 (sec t * 1000 + min t * 60 * 1000 + hour t * 3600 * 1000 + day t * 24 * 3600 * 1000 +
     month t * 30 * 24 * 3600 * 1000 + (year t - Y2K) * 365 * 24 * 3600 * 1000)"

definition diffTimeMillis :: "time_t \<Rightarrow> time_t \<Rightarrow> int" where
  "diffTimeMillis start end_t = millis end_t - millis start"

section \<open>Numbers as text\<close>

text \<open>The loop of \<^verbatim>\<open>intToString\<close> fills the buffer from its end.\<close>

function digits :: "nat \<Rightarrow> string \<Rightarrow> string" where
  "digits num buf = (let buf = char_of (num mod 10 + 48) # buf; num = num div 10
     in if num > 0 then digits num buf else buf)"
  by pat_completeness auto
termination
  by (relation "measure fst") auto

definition intToString :: "int \<Rightarrow> string" where
  "intToString num = (let isNegative = num < 0; buf = digits (nat \<bar>num\<bar>) []
     in if isNegative then CHR ''-'' # buf else buf)"

section \<open>The timer\<close>

definition ticks_elapsed :: "nat \<Rightarrow> int" where
  "ticks_elapsed t = s32 (int t)"

definition seconds_elapsed :: "nat \<Rightarrow> nat \<Rightarrow> int option" where
  "seconds_elapsed t frequency = (if frequency = 0 then None else Some (s32 (int (t div frequency))))"

text \<open>\<open>obs n\<close> is the counter at the \<open>n\<close>-th reading; a process that never sees its target waits forever.\<close>

partial_function (option) wait_loop :: "(nat \<Rightarrow> nat) \<Rightarrow> nat \<Rightarrow> nat \<Rightarrow> nat option" where
  [code]: "wait_loop obs target n = (if obs n < target then wait_loop obs target (n + 1) else Some n)"

definition wait_ticks :: "(nat \<Rightarrow> nat) \<Rightarrow> nat \<Rightarrow> nat option" where
  "wait_ticks obs ticksToWait = wait_loop obs (u64 (obs 0 + ticksToWait)) 0"

definition wait_seconds :: "(nat \<Rightarrow> nat) \<Rightarrow> nat \<Rightarrow> nat \<Rightarrow> nat option" where
  "wait_seconds obs frequency secondsToWait = wait_ticks obs (u64 (secondsToWait * frequency))"

text \<open>The bytes sent to the ports of the timer chip, and the new frequency.\<close>

definition setup_timer :: "nat \<Rightarrow> ((nat \<times> nat) list \<times> nat) option" where
  "setup_timer freq = (if freq = 0 then None else
     let divisor = (1193180 div freq) mod 65536
     in Some ([(0x43, 0x36), (0x40, divisor AND 0xFF), (0x40, drop_bit 8 divisor AND 0xFF)], freq))"

section \<open>The calendar\<close>

definition days_before :: "int \<Rightarrow> int \<Rightarrow> int" where
  "days_before y mo = [0, 0, 31, 59, 90, 120, 151, 181, 212, 243, 273, 304, 334] ! nat mo +
     of_bool (2 < mo \<and> isLeapYear y)"

text \<open>The number of days since the start of year 0, month by month.\<close>

definition day_number :: "int \<Rightarrow> int \<Rightarrow> int \<Rightarrow> int" where
  "day_number y mo d = 365 * y + ((y - 1) div 4 - (y - 1) div 100 + (y - 1) div 400) + days_before y mo + d"

definition valid_date :: "int \<Rightarrow> int \<Rightarrow> int \<Rightarrow> bool" where
  "valid_date d mo y \<longleftrightarrow> 1 \<le> mo \<and> mo \<le> 12 \<and> 1 \<le> d \<and> d \<le> the (getDaysInMonth mo y)"

lemma month_cases:
  "1 \<le> mo \<Longrightarrow> mo \<le> 12 \<Longrightarrow> mo = 1 \<or> mo = 2 \<or> mo = 3 \<or> mo = 4 \<or> mo = 5 \<or> mo = 6 \<or> mo = 7 \<or> mo = 8 \<or>
     mo = 9 \<or> mo = 10 \<or> mo = 11 \<or> mo = (12 :: int)"
  by presburger

lemma div_pred:
  fixes y n :: int
  assumes "1 < n"
  shows "y div n = (y - 1) div n + of_bool (y mod n = 0)"
proof (cases "y mod n = 0")
  case True
  have "y = n * (y div n)" using True by (metis add.right_neutral mult_div_mod_eq)
  then have "y - 1 = n * (y div n - 1) + (n - 1)" by (simp add: right_diff_distrib)
  then have "(y - 1) div n = y div n - 1" by (rule int_div_pos_eq) (use assms in auto)
  then show ?thesis using True by simp
next
  case False
  have r: "0 \<le> y mod n" "y mod n < n" using assms by simp_all
  have "y - 1 = n * (y div n) + (y mod n - 1)" by simp
  then have "(y - 1) div n = y div n" by (rule int_div_pos_eq) (use r False in auto)
  then show ?thesis using False by simp
qed

lemma leap_count:
  "(r \<Longrightarrow> q) \<Longrightarrow> (q \<Longrightarrow> p) \<Longrightarrow> (of_bool p - of_bool q + of_bool r :: int) = of_bool ((p \<and> \<not> q) \<or> r)"
  by (cases p; cases q; cases r) simp_all

lemma leap_step:
  "y div 4 - y div 100 + y div 400 = (y - 1) div 4 - (y - 1) div 100 + (y - 1) div 400 + of_bool (isLeapYear y)"
  for y :: int
proof -
  have d: "(100 :: int) dvd 400" "(4 :: int) dvd 100" by simp_all
  have "y mod 100 = 0" if "y mod 400 = 0"
    using dvd_trans [OF d(1), of y] that by (simp only: mod_eq_0_iff_dvd)
  moreover have "y mod 4 = 0" if "y mod 100 = 0"
    using dvd_trans [OF d(2), of y] that by (simp only: mod_eq_0_iff_dvd)
  ultimately have "of_bool (isLeapYear y) = (of_bool (y mod 4 = 0) - of_bool (y mod 100 = 0) + of_bool (y mod 400 = 0) :: int)"
    unfolding isLeapYear_def by (rule leap_count [symmetric])
  moreover have "y div 4 = (y - 1) div 4 + of_bool (y mod 4 = 0)" "y div 100 = (y - 1) div 100 + of_bool (y mod 100 = 0)"
    "y div 400 = (y - 1) div 400 + of_bool (y mod 400 = 0)" by (rule div_pred, simp)+
  ultimately show ?thesis by (simp only:)
qed

lemma day_number_next_year: "day_number (y + 1) 1 1 = day_number y 12 31 + 1"
proof -
  have "days_before y 12 = 334 + of_bool (isLeapYear y)" "days_before (y + 1) 1 = 0"
    by (simp_all add: days_before_def)
  then show ?thesis using leap_step [of y] by (simp add: day_number_def)
qed

definition month_length :: "int \<Rightarrow> int \<Rightarrow> int" where
  "month_length y mo = daytab ! of_bool (isLeapYear y) ! nat mo"

lemma month_length_simps:
  "month_length y 1 = 31" "month_length y 2 = 28 + of_bool (isLeapYear y)" "month_length y 3 = 31" "month_length y 4 = 30"
  "month_length y 5 = 31" "month_length y 6 = 30" "month_length y 7 = 31" "month_length y 8 = 31" "month_length y 9 = 30"
  "month_length y 10 = 31" "month_length y 11 = 30" "month_length y 12 = 31"
  by (simp_all add: month_length_def daytab_def)

lemma month_length_eq: "0 \<le> mo \<Longrightarrow> mo \<le> 12 \<Longrightarrow> getDaysInMonth mo y = Some (month_length y mo)"
  by (simp add: getDaysInMonth_def month_length_def)

lemma month_length_pos: "1 \<le> mo \<Longrightarrow> mo \<le> 12 \<Longrightarrow> 28 \<le> month_length y mo"
  by (drule (1) month_cases) (auto simp: month_length_simps)

lemma days_before_step:
  assumes "1 \<le> mo" "mo \<le> 11"
  shows "days_before y (mo + 1) = days_before y mo + month_length y mo"
proof -
  have "mo \<le> 12" using assms by simp
  from month_cases [OF assms(1) this] assms(2) show ?thesis
    by (elim disjE) (simp_all add: days_before_def month_length_simps)
qed

lemma day_number_next_month:
  "1 \<le> mo \<Longrightarrow> mo \<le> 11 \<Longrightarrow> day_number y (mo + 1) 1 = day_number y mo (month_length y mo) + 1"
  using days_before_step [of mo y] by (simp add: day_number_def)

text \<open>\<^verbatim>\<open>checkDay\<close> brings a date that is at most one day off back to the calendar.\<close>

lemma checkDay_ok:
  assumes "1 \<le> mo" "mo \<le> 12" "0 \<le> d" "d \<le> month_length y mo + 1"
  shows "\<exists>d' mo' y'. checkDay d mo y = Some (d', mo', y') \<and> valid_date d' mo' y' \<and> day_number y' mo' d' = day_number y mo d"
proof -
  have n: "getDaysInMonth mo y = Some (month_length y mo)" using assms(1,2) by (simp add: month_length_eq)
  have dn: "day_number y mo (d + i) = day_number y mo d + i" for y mo d i by (simp add: day_number_def)
  consider (over) "d = month_length y mo + 1" | (under) "d = 0" | (fine) "1 \<le> d" "d \<le> month_length y mo"
    using assms(3,4) by linarith
  then show ?thesis
  proof cases
    case over
    show ?thesis
    proof (cases "mo = 12")
      case True
      then show ?thesis
        using over n day_number_next_year [of y] dn [of y 12 31 1]
        by (simp add: checkDay_def valid_date_def month_length_eq month_length_simps)
    next
      case False
      then have "mo \<le> 11" "mo + 1 \<le> 12" using assms(2) by simp_all
      then show ?thesis
        using over n assms(1) day_number_next_month [OF assms(1), of y] dn [of y mo "month_length y mo" 1] month_length_pos [of "mo + 1" y]
        by (simp add: checkDay_def valid_date_def month_length_eq)
    qed
  next
    case under
    have lo: "\<not> 0 > month_length y mo" using month_length_pos [OF assms(1,2), of y] by simp
    show ?thesis
    proof (cases "mo = 1")
      case True
      then show ?thesis
        using under n lo day_number_next_year [of "y - 1"] dn [of y 1 0 1]
        by (simp add: checkDay_def valid_date_def month_length_eq month_length_simps)
    next
      case False
      then have m: "1 \<le> mo - 1" "mo - 1 \<le> 11" "mo - 1 \<le> 12" using assms(1,2) by simp_all
      then show ?thesis
        using under n lo day_number_next_month [OF m(1,2), of y] dn [of y mo 0 1] month_length_pos [OF m(1,3), of y]
        by (simp add: checkDay_def valid_date_def month_length_eq)
    qed
  next
    case fine
    then show ?thesis using n assms(1,2) by (simp add: checkDay_def valid_date_def)
  qed
qed

section \<open>Properties\<close>

text \<open>C36. For a clock chip that holds a valid date and hour and a time zone of less than a day,
  \<^verbatim>\<open>getTime\<close> returns a valid date and an hour of 0..23, and the time it names is exactly the
  chip's time plus the time zone, also across days, months, leap days and years.\<close>

theorem getTime_correct:
  assumes "valid_date (reg rtc DAY_OF_MONTH) (reg rtc MONTH) (reg rtc YEAR + Y2K)" "reg rtc HOURS < 24" "\<bar>tz\<bar> < 24"
  shows "\<exists>t. getTime rtc tz = Some t \<and> valid_date (day t) (month t) (year t) \<and> 0 \<le> hour t \<and> hour t < 24 \<and>
     24 * day_number (year t) (month t) (day t) + hour t =
     24 * day_number (reg rtc YEAR + Y2K) (reg rtc MONTH) (reg rtc DAY_OF_MONTH) + reg rtc HOURS + tz \<and>
     sec t = reg rtc SECONDS \<and> min t = reg rtc MINUTES"
proof -
  let ?d = "reg rtc DAY_OF_MONTH" and ?m = "reg rtc MONTH" and ?y = "reg rtc YEAR + Y2K" and ?h = "reg rtc HOURS + tz"
  define d where "d = (if ?h \<ge> 24 then ?d + 1 else if ?h < 0 then ?d - 1 else ?d)"
  define h where "h = (if ?h \<ge> 24 then ?h - 24 else if ?h < 0 then ?h + 24 else ?h)"
  have m: "1 \<le> ?m" "?m \<le> 12" "1 \<le> ?d" "?d \<le> month_length ?y ?m"
    using assms(1) by (auto simp: valid_date_def month_length_eq)
  have "0 \<le> d" "d \<le> month_length ?y ?m + 1" using m by (auto simp: d_def)
  from checkDay_ok [OF m(1,2) this] obtain d' mo' y' where
    c: "checkDay d ?m ?y = Some (d', mo', y')" "valid_date d' mo' y'" "day_number y' mo' d' = day_number ?y ?m d" by blast
  have "getTime rtc tz = Some \<lparr>sec = reg rtc SECONDS, min = reg rtc MINUTES, hour = h, day = d', month = mo', year = y'\<rparr>"
    using c(1) by (simp add: getTime_def d_def h_def split: if_splits)
  moreover have "0 \<le> h" "h < 24" using assms(2,3) by (auto simp: h_def reg_def)
  moreover have "24 * day_number ?y ?m d + h = 24 * day_number ?y ?m ?d + ?h" by (simp add: d_def h_def day_number_def)
  ultimately show ?thesis using c(2,3) by simp
qed

text \<open>A chip at 23:59:58 of 29 February 2024, in BCD.\<close>

definition ex_rtc :: "nat \<Rightarrow> nat" where
  "ex_rtc = (\<lambda>_. 0)(SECONDS := 0x58, MINUTES := 0x59, HOURS := 0x23, DAY_OF_MONTH := 0x29, MONTH := 0x02, YEAR := 0x24)"

lemma ex_rtc_regs:
  "reg ex_rtc SECONDS = 58" "reg ex_rtc MINUTES = 59" "reg ex_rtc HOURS = 23" "reg ex_rtc DAY_OF_MONTH = 29"
  "reg ex_rtc MONTH = 2" "reg ex_rtc YEAR = 24"
  by (simp_all add: reg_def ex_rtc_def rtc_regs BCDToDecimal_def u8_def)

theorem getTime_correct_witness:
  "\<exists>t. getTime ex_rtc 3 = Some t \<and> valid_date (day t) (month t) (year t) \<and> 0 \<le> hour t \<and> hour t < 24 \<and>
     24 * day_number (year t) (month t) (day t) + hour t = 24 * day_number 2024 2 29 + 26"
proof -
  have "valid_date (reg ex_rtc DAY_OF_MONTH) (reg ex_rtc MONTH) (reg ex_rtc YEAR + Y2K)" "reg ex_rtc HOURS < 24" "\<bar>3 :: int\<bar> < 24"
    by (simp_all add: ex_rtc_regs Y2K_def valid_date_def getDaysInMonth_def daytab_def isLeapYear_def)
  from getTime_correct [OF this] show ?thesis by (auto simp: ex_rtc_regs Y2K_def)
qed

definition ex_early :: "nat \<Rightarrow> nat" where
  "ex_early = (\<lambda>_. 0)(HOURS := 0x01, DAY_OF_MONTH := 0x15, MONTH := 0x06, YEAR := 0x24)"

text \<open>\<^verbatim>\<open>getTimeParam\<close> computes the local hour in a \<^verbatim>\<open>uint8_t\<close>: at hour 1 it wraps to 254, the hour
  returned is 230 and the day goes forward instead of back, while \<^verbatim>\<open>getTime\<close> gives hour 22 of
  the day before.\<close>

theorem getTimeParam_wraps:
  "getTimeParam ex_early 2 = Some 230 \<and> getTimeParam ex_early 3 = Some 16 \<and>
   map_option hour (getTime ex_early GMT_ARG) = Some 22 \<and> map_option day (getTime ex_early GMT_ARG) = Some 14"
proof -
  have r: "reg ex_early HOURS = 1" "reg ex_early DAY_OF_MONTH = 15" "reg ex_early MONTH = 6" "reg ex_early YEAR = 24"
    by (simp_all add: reg_def ex_early_def rtc_regs BCDToDecimal_def u8_def)
  show ?thesis
    by (simp add: getTimeParam_def getTime_def r GMT_ARG_def Y2K_def getDaysInMonth_def daytab_def isLeapYear_def
        checkDay_def)
qed

end
