(* ===== verification/Keyboard.thy ===== *)
theory Keyboard
  imports Process_Lifecycle Kernel_Properties
begin

text \<open>
  The keyboard driver, \<^verbatim>\<open>Kernel/drivers/keyboardDriver.c\<close>: scan codes become characters, with
  shift, caps lock and control, and go into pipe 0, the standard input of the shell.

  The scan code that \<^verbatim>\<open>kb_getKey\<close> reads from the controller is an argument; what the driver
  prints is returned as a list of strings.
\<close>

section \<open>State and tables\<close>

definition F12_PRESS :: int where "F12_PRESS = 0x58"
definition LSHIFT_PRESS :: int where "LSHIFT_PRESS = 0x2A"
definition LSHIFT_RELEASE :: int where "LSHIFT_RELEASE = 0xAA"
definition RSHIFT_PRESS :: int where "RSHIFT_PRESS = 0x36"
definition RSHIFT_RELEASE :: int where "RSHIFT_RELEASE = 0xB6"
definition CAPS_PRESS :: int where "CAPS_PRESS = 0x3A"
definition ESC_PRESS :: int where "ESC_PRESS = 0x01"
definition ALT_PRESS :: int where "ALT_PRESS = 0x3B"
definition CTRL_PRESS :: int where "CTRL_PRESS = 0x1D"
definition CTRL_RELEASE :: int where "CTRL_RELEASE = 0x9D"

lemmas key_codes = F12_PRESS_def LSHIFT_PRESS_def LSHIFT_RELEASE_def RSHIFT_PRESS_def RSHIFT_RELEASE_def CAPS_PRESS_def
  ESC_PRESS_def ALT_PRESS_def CTRL_PRESS_def CTRL_RELEASE_def

text \<open>\<^verbatim>\<open>ScanCode press_keys[]\<close>: the plain and the shifted character of a key.\<close>

definition press_keys :: "(char \<times> char) list" where
  "press_keys =
    [(CHR 0x00, CHR 0x00), (CHR 0x1B, CHR 0x1B), (CHR ''1'', CHR ''!''), (CHR ''2'', CHR 0x22),
     (CHR ''3'', CHR ''#''), (CHR ''4'', CHR ''$''), (CHR ''5'', CHR ''%''), (CHR ''6'', CHR ''&''),
     (CHR ''7'', CHR ''(''), (CHR ''8'', CHR '')''), (CHR ''9'', CHR '')''), (CHR ''0'', CHR ''=''),
     (CHR ''-'', CHR ''_''), (CHR ''='', CHR ''+''), (CHR 0x08, CHR 0x08), (CHR 0x09, CHR 0x09),
     (CHR ''q'', CHR ''Q''), (CHR ''w'', CHR ''W''), (CHR ''e'', CHR ''E''), (CHR ''r'', CHR ''R''),
     (CHR ''t'', CHR ''T''), (CHR ''y'', CHR ''Y''), (CHR ''u'', CHR ''U''), (CHR ''i'', CHR ''I''),
     (CHR ''o'', CHR ''O''), (CHR ''p'', CHR ''P''), (CHR ''['', CHR ''{''), (CHR '']'', CHR ''}''),
     (CHR 0x0A, CHR 0x0A), (CHR 0x00, CHR 0x00), (CHR ''a'', CHR ''A''), (CHR ''s'', CHR ''S''),
     (CHR ''d'', CHR ''D''), (CHR ''f'', CHR ''F''), (CHR ''g'', CHR ''G''), (CHR ''h'', CHR ''H''),
     (CHR ''j'', CHR ''J''), (CHR ''k'', CHR ''K''), (CHR ''l'', CHR ''L''), (CHR '';'', CHR '':''),
     (CHR 0x27, CHR 0x22), (CHR 0x60, CHR ''~''), (CHR 0x00, CHR 0x00), (CHR 0x5C, CHR ''|''),
     (CHR ''z'', CHR ''Z''), (CHR ''x'', CHR ''X''), (CHR ''c'', CHR ''C''), (CHR ''v'', CHR ''V''),
     (CHR ''b'', CHR ''B''), (CHR ''n'', CHR ''N''), (CHR ''m'', CHR ''M''), (CHR '','', CHR '';''),
     (CHR ''.'', CHR '':''), (CHR ''-'', CHR ''_''), (CHR 0x00, CHR 0x00), (CHR ''*'', CHR ''*''),
     (CHR 0x00, CHR 0x00), (CHR '' '', CHR '' ''), (CHR 0x00, CHR 0x00), (CHR 0x00, CHR 0x00),
     (CHR 0x00, CHR 0x00), (CHR 0x00, CHR 0x00), (CHR 0x00, CHR 0x00), (CHR 0x00, CHR 0x00),
     (CHR 0x00, CHR 0x00), (CHR 0x00, CHR 0x00), (CHR 0x00, CHR 0x00), (CHR 0x00, CHR 0x00),
     (CHR 0x00, CHR 0x00), (CHR 0x00, CHR 0x00), (CHR ''7'', CHR ''7''), (CHR ''8'', CHR ''8''),
     (CHR ''9'', CHR ''9''), (CHR ''-'', CHR ''_''), (CHR ''4'', CHR ''4''), (CHR ''5'', CHR ''5''),
     (CHR ''6'', CHR ''6''), (CHR ''+'', CHR ''+''), (CHR ''1'', CHR ''1''), (CHR ''2'', CHR ''2''),
     (CHR ''3'', CHR ''3''), (CHR ''0'', CHR ''0''), (CHR ''.'', CHR ''>''), (CHR 0x00, CHR 0x00),
     (CHR 0x00, CHR 0x00), (CHR 0x00, CHR 0x00), (CHR 0x00, CHR 0x00), (CHR 0x00, CHR 0x00)]"

definition specialKeys :: "int list" where
  "specialKeys = [LSHIFT_PRESS, LSHIFT_RELEASE, RSHIFT_RELEASE, RSHIFT_PRESS, CAPS_PRESS, ALT_PRESS, CTRL_PRESS, CTRL_RELEASE, ESC_PRESS]"

record kbd =
  shift :: bool
  caps :: bool
  mayus :: bool
  specialKey :: bool
  ctrlPressed :: bool

section \<open>Operations\<close>

definition ascii :: "int \<Rightarrow> char" where "ascii key = fst (press_keys ! nat key)"
definition shift_ascii :: "int \<Rightarrow> char" where "shift_ascii key = snd (press_keys ! nat key)"

definition isAlpha :: "int \<Rightarrow> bool" where
  "isAlpha key \<longleftrightarrow> of_char CHR ''a'' \<le> (of_char (ascii key) :: nat) \<and> of_char (ascii key) \<le> (of_char CHR ''z'' :: nat)"

definition handleSpecialKeys :: "int \<Rightarrow> kbd \<Rightarrow> kbd" where
  "handleSpecialKeys key kb =
     (if key = LSHIFT_PRESS \<or> key = RSHIFT_PRESS then kb\<lparr>shift := True\<rparr>
      else if key = LSHIFT_RELEASE \<or> key = RSHIFT_RELEASE then kb\<lparr>shift := False\<rparr>
      else if key = CAPS_PRESS then kb\<lparr>caps := \<not> caps kb\<rparr>
      else if key = CTRL_PRESS then kb\<lparr>ctrlPressed := True\<rparr>
      else if key = CTRL_RELEASE then kb\<lparr>ctrlPressed := False\<rparr>
      else kb)"

fun check_loop :: "int list \<Rightarrow> int \<Rightarrow> kbd \<Rightarrow> kbd" where
  "check_loop [] key kb = kb"
| "check_loop (s # ss) key kb = (if specialKey kb then kb
     else check_loop ss key (if key = s then (handleSpecialKeys key kb)\<lparr>specialKey := True\<rparr> else kb))"

definition checkSpecialKeys :: "int \<Rightarrow> kbd \<Rightarrow> kbd" where
  "checkSpecialKeys key kb = check_loop specialKeys key kb"

text \<open>The kernel state after a transfer; a transfer that has to wait suspends the interrupted process.\<close>

definition after_write :: "int \<times> 'm kernel + nat \<times> rw_status \<times> string \<times> nat \<times> 'm kernel \<Rightarrow> 'm kernel" where
  "after_write r = (case r of Inl (_, k) \<Rightarrow> k | Inr (_, _, _, _, k) \<Rightarrow> k)"

definition addToBuffer :: "'m mm_ops \<Rightarrow> 'm kernel \<Rightarrow> addr \<Rightarrow> char \<Rightarrow> nat \<Rightarrow> 'm kernel option" where
  "addToBuffer ops k c_addr c sp = map_option after_write (pipeWrite ops k 0 c_addr [c] 1 sp)"

definition EOF_CHAR :: char where "EOF_CHAR = CHR 0xFF"

text \<open>\<open>c_addr\<close> is the address of the local variable; \<open>c\<close> the scan code.\<close>

definition bufferWrite :: "'m mm_ops \<Rightarrow> kbd \<Rightarrow> 'm kernel \<Rightarrow> int \<Rightarrow> addr \<Rightarrow> nat \<Rightarrow> (int \<times> kbd \<times> string list \<times> 'm kernel) option" where
  "bufferWrite ops kb k c c_addr sp = (let kb = checkSpecialKeys c (kb\<lparr>specialKey := False\<rparr>) in
     if \<not> specialKey kb \<and> c < F12_PRESS then
       if ctrlPressed kb \<and> ascii c = CHR ''c'' then do {
         (_, k) \<leftarrow> kill ops k (getForegroundPid k) 1 sp;
         Some (0, kb, [''^C'', [CHR 0x0A]], k)
       }
       else if ctrlPressed kb \<and> ascii c = CHR ''d'' then do {
         k \<leftarrow> addToBuffer ops k c_addr EOF_CHAR sp;
         Some (0, kb, [''^D'', [CHR 0x0A]], k)
       }
       else do {
         let kb = kb\<lparr>mayus := (caps kb \<noteq> shift kb)\<rparr>;
         k \<leftarrow> addToBuffer ops k c_addr (if (isAlpha c \<and> mayus kb) \<or> (\<not> isAlpha c \<and> shift kb) then shift_ascii c else ascii c) sp;
         Some (1, kb, [], k)
       }
     else Some (0, kb, [], k))"

definition getChar :: "'m mm_ops \<Rightarrow> 'm kernel \<Rightarrow> addr \<Rightarrow> nat \<Rightarrow>
    (char \<times> 'm kernel + int \<times> 'm kernel + nat \<times> rw_status \<times> nat \<times> char option list \<times> 'm kernel) option" where
  "getChar ops k c_addr sp = (let fd = getCurrentStdin k in
     if fd = -1 then Some (Inl (NUL, k)) else map_option Inr (pipeRead ops k fd c_addr 1 sp))"

definition clear_buffer :: "'m mm_ops \<Rightarrow> 'm kernel \<Rightarrow> nat \<Rightarrow> 'm kernel option" where
  "clear_buffer ops k sp = (let fd = getCurrentStdin k in
     if fd \<noteq> -1 then map_option snd (pipeClear ops k fd sp) else Some k)"

section \<open>Lemmas\<close>

lemma length_press_keys: "length press_keys = 88"
  by (simp add: press_keys_def)

lemma check_loop_special: "specialKey kb \<Longrightarrow> check_loop ss key kb = kb"
  by (cases ss) simp_all

lemma check_loop_eq:
  "\<not> specialKey kb \<Longrightarrow> check_loop ss key kb =
     (if key \<in> set ss then (handleSpecialKeys key kb)\<lparr>specialKey := True\<rparr> else kb)"
  by (induction ss) (auto simp: check_loop_special)

lemma checkSpecialKeys_eq:
  "checkSpecialKeys key (kb\<lparr>specialKey := False\<rparr>) =
     (if key \<in> set specialKeys then (handleSpecialKeys key kb)\<lparr>specialKey := True\<rparr> else kb\<lparr>specialKey := False\<rparr>)"
  unfolding checkSpecialKeys_def by (subst check_loop_eq) (auto simp: handleSpecialKeys_def)

text \<open>The character a key gives in a state of the modifiers.\<close>

definition key_char :: "kbd \<Rightarrow> int \<Rightarrow> char" where
  "key_char kb c = (let (plain, shifted) = press_keys ! nat c in
     if (if plain \<in> set ''abcdefghijklmnopqrstuvwxyz'' then caps kb \<noteq> shift kb else shift kb) then shifted else plain)"

lemma isAlpha_eq: "0 \<le> c \<Longrightarrow> c < F12_PRESS \<Longrightarrow> isAlpha c \<longleftrightarrow> ascii c \<in> set ''abcdefghijklmnopqrstuvwxyz''"
proof -
  assume c: "0 \<le> c" "c < F12_PRESS"
  have "\<forall>p \<in> set press_keys. (of_char CHR ''a'' \<le> (of_char (fst p) :: nat) \<and> of_char (fst p) \<le> (of_char CHR ''z'' :: nat)) \<longleftrightarrow>
      fst p \<in> set ''abcdefghijklmnopqrstuvwxyz''"
    by (simp add: press_keys_def)
  moreover have "press_keys ! nat c \<in> set press_keys" using c by (intro nth_mem) (simp add: length_press_keys F12_PRESS_def)
  ultimately show ?thesis unfolding isAlpha_def ascii_def by blast
qed

section \<open>Properties\<close>



end
