(* ===== verification/User_Stdlib.thy ===== *)
theory User_Stdlib
  imports Kernel_Lib "HOL-Library.Sublist"
begin

text \<open>
  The C library of the user programs, \<^verbatim>\<open>Userland/SampleCodeModule/stdlib.c\<close>: number
  conversion, string utilities, \<^verbatim>\<open>printf\<close>, the random numbers and the guards of \<^verbatim>\<open>malloc\<close>.

  A C string that is only read is the list of its bytes before the NUL; routines that write
  through a pointer work on the byte memory of \<open>Kernel_Lib\<close>, or return the bytes they put into
  a local buffer, with \<open>None\<close> where they leave the buffer.  Loops that may run forever (a base
  below 2) are \<open>partial_function\<close>s and are shown to return for the bases the code uses.
\<close>

section \<open>Number conversion\<close>

definition MAX_LENGTH :: nat where "MAX_LENGTH = 512"
definition MAX_INT_LENGTH :: nat where "MAX_INT_LENGTH = 21"

definition digit_char :: "nat \<Rightarrow> char" where
  "digit_char r = char_of (if r < 10 then r + 48 else r + 65 - 10)"

text \<open>The loop that puts the digits, the lowest first.\<close>

partial_function (option) digit_loop :: "nat \<Rightarrow> nat \<Rightarrow> string option" where
  [code]: "digit_loop value bas = (if bas = 0 then None else
     let c = digit_char (value mod bas) in
     if value div bas = 0 then Some [c]
     else Option.bind (digit_loop (value div bas) bas) (\<lambda>cs. Some (c # cs)))"

text \<open>The loop that reverses the buffer between two indices.\<close>

function reverse_loop :: "string \<Rightarrow> nat \<Rightarrow> nat \<Rightarrow> string" where
  "reverse_loop buf p1 p2 = (if p1 < p2
     then reverse_loop (buf[p1 := buf ! p2, p2 := buf ! p1]) (p1 + 1) (p2 - 1) else buf)"
  by pat_completeness auto
termination
  by (relation "measure (\<lambda>(buf, p1, p2). p2 - p1)") auto

definition uintToBase :: "nat \<Rightarrow> nat \<Rightarrow> (nat \<times> string) option" where
  "uintToBase value bas = do {
     buf \<leftarrow> digit_loop value bas;
     Some (length buf, reverse_loop buf 0 (length buf - 1))
   }"

definition intToStr :: "int \<Rightarrow> string option" where
  "intToStr n = map_option snd (uintToBase (to_u64 n) 10)"

definition signedIntToStr :: "int \<Rightarrow> string option" where
  "signedIntToStr n = (if n < 0 then map_option (\<lambda>r. CHR ''-'' # snd r) (uintToBase (to_u64 (s32 (- n))) 10)
     else map_option snd (uintToBase (to_u64 n) 10))"

definition uint64ToStr :: "nat \<Rightarrow> string option" where
  "uint64ToStr n = map_option snd (uintToBase n 10)"

definition intToHex :: "int \<Rightarrow> string option" where
  "intToHex n = map_option snd (uintToBase (to_u64 n) 16)"

definition uint64ToHex :: "nat \<Rightarrow> string option" where
  "uint64ToHex n = map_option snd (uintToBase n 16)"

text \<open>\<^verbatim>\<open>u64_to_str\<close>: digits into a temporary buffer of 32 bytes, then copied backwards.\<close>

function u64_digits :: "nat \<Rightarrow> string \<Rightarrow> string" where
  "u64_digits value temp = (if value > 0 then u64_digits (value div 10) (temp @ [char_of (48 + value mod 10)]) else temp)"
  by pat_completeness auto
termination
  by (relation "measure fst") auto

fun u64_copy :: "string \<Rightarrow> nat \<Rightarrow> string \<Rightarrow> string" where
  "u64_copy temp 0 buffer = buffer"
| "u64_copy temp (Suc i) buffer = u64_copy temp i (buffer @ [temp ! i])"

definition u64_to_str :: "nat \<Rightarrow> string" where
  "u64_to_str value = (if value = 0 then ''0'' else let temp = u64_digits value [] in u64_copy temp (length temp) [])"

definition is_digit :: "char \<Rightarrow> bool" where
  "is_digit c \<longleftrightarrow> 48 \<le> (of_char c :: nat) \<and> (of_char c :: nat) \<le> 57"

definition checkNumber :: "string option \<Rightarrow> bool" where
  "checkNumber str = (case str of None \<Rightarrow> False | Some [] \<Rightarrow> False
     | Some (c # cs) \<Rightarrow> (let s = (if c = CHR ''-'' \<or> c = CHR ''+'' then cs else c # cs) in s \<noteq> [] \<and> list_all is_digit s))"

definition s64 :: "int \<Rightarrow> int" where
  "s64 n = (let v = n mod 2 ^ 64 in if v < 2 ^ 63 then v else v - 2 ^ 64)"

fun satoi_loop :: "string \<Rightarrow> int \<Rightarrow> int option" where
  "satoi_loop [] res = Some res"
| "satoi_loop (c # cs) res = (if \<not> is_digit c then None else satoi_loop cs (s64 (res * 10 + of_char c - 48)))"

definition satoi :: "string option \<Rightarrow> int" where
  "satoi str = (case str of None \<Rightarrow> 0 | Some cs \<Rightarrow>
     (let (neg, ds) = (case cs of [] \<Rightarrow> (False, []) | c # r \<Rightarrow> if c = CHR ''-'' then (True, r) else (False, cs))
      in case satoi_loop ds 0 of None \<Rightarrow> 0 | Some res \<Rightarrow> if neg then s64 (- res) else res))"

definition atoi :: "string option \<Rightarrow> int" where
  "atoi str = s32 (satoi str)"

section \<open>Strings\<close>

partial_function (option) strlen_loop :: "mem \<Rightarrow> addr \<Rightarrow> nat \<Rightarrow> nat option" where
  [code]: "strlen_loop m s len = (if m (s + len) \<noteq> NUL then strlen_loop m s (len + 1) else Some len)"

definition user_strlen :: "mem \<Rightarrow> addr \<Rightarrow> nat option" where
  "user_strlen m s = strlen_loop m s 0"

text \<open>A byte as a signed \<^verbatim>\<open>char\<close>.\<close>

definition sc :: "char \<Rightarrow> int" where
  "sc c = (let n = of_char c in if n < 128 then n else n - 256)"

fun strcmp :: "string \<Rightarrow> string \<Rightarrow> int" where
  "strcmp [] [] = 0"
| "strcmp [] (b # bs) = - sc b"
| "strcmp (a # as) [] = sc a"
| "strcmp (a # as) (b # bs) = (if a = b then strcmp as bs else sc a - sc b)"

partial_function (option) strcpy_loop :: "mem \<Rightarrow> addr \<Rightarrow> addr \<Rightarrow> nat \<Rightarrow> mem option" where
  [code]: "strcpy_loop m dest src i = (if m (src + i) \<noteq> NUL
     then strcpy_loop (m(dest + i := m (src + i))) dest src (i + 1) else Some (m(dest + i := NUL)))"

definition strcpy :: "mem \<Rightarrow> addr \<Rightarrow> addr \<Rightarrow> mem option" where
  "strcpy m dest src = strcpy_loop m dest src 0"

definition user_strncpy :: "mem \<Rightarrow> addr \<Rightarrow> addr \<Rightarrow> nat \<Rightarrow> mem" where
  "user_strncpy m dest src len = (memcpy_bytes m dest src 0 len)(dest + len := NUL)"

text \<open>The inner loop of \<^verbatim>\<open>strstr\<close>: what is left of the needle.\<close>

fun needle_rest :: "string \<Rightarrow> string \<Rightarrow> string" where
  "needle_rest [] ns = ns"
| "needle_rest (h # hs) [] = []"
| "needle_rest (h # hs) (n # ns) = (if h = n then needle_rest hs ns else n # ns)"

fun strstr_loop :: "string \<Rightarrow> string \<Rightarrow> nat \<Rightarrow> nat option" where
  "strstr_loop [] needle i = None"
| "strstr_loop (h # hs) needle i = (if needle_rest (h # hs) needle = [] then Some i else strstr_loop hs needle (i + 1))"

definition strstr :: "string \<Rightarrow> string \<Rightarrow> nat option" where
  "strstr haystack needle = (if needle = [] then Some 0 else strstr_loop haystack needle 0)"

section \<open>printf\<close>

datatype vararg = AInt int | AU64 nat | AStr string

text \<open>A string with its NUL in a buffer of \<open>n\<close> bytes.\<close>

definition in_buffer :: "nat \<Rightarrow> string option \<Rightarrow> string option" where
  "in_buffer n r = (case r of None \<Rightarrow> None | Some s \<Rightarrow> if length s < n then Some s else None)"

fun safe_string_copy :: "string \<Rightarrow> string \<Rightarrow> nat \<Rightarrow> string" where
  "safe_string_copy output [] max_length = output"
| "safe_string_copy output (c # cs) max_length = (if length output < max_length - 1
     then safe_string_copy (output @ [c]) cs max_length else output)"

text \<open>One conversion: the character behind the percent sign; a missing or other argument is a fault.\<close>

definition format_spec :: "char \<Rightarrow> vararg list \<Rightarrow> string \<Rightarrow> (vararg list \<times> string) option" where
  "format_spec c args out =
     (if c = CHR ''d'' then (case args of AInt n # as \<Rightarrow> do {
          s \<leftarrow> in_buffer MAX_INT_LENGTH (signedIntToStr n); Some (as, safe_string_copy out s MAX_LENGTH) } | _ \<Rightarrow> None)
      else if c = CHR ''l'' then (case args of AU64 n # as \<Rightarrow> do {
          s \<leftarrow> in_buffer MAX_INT_LENGTH (uint64ToStr n); Some (as, safe_string_copy out s MAX_LENGTH) } | _ \<Rightarrow> None)
      else if c = CHR ''s'' then (case args of AStr s # as \<Rightarrow> Some (as, safe_string_copy out s MAX_LENGTH) | _ \<Rightarrow> None)
      else if c = CHR ''c'' then (case args of AInt n # as \<Rightarrow> Some (as, out @ [char_of n]) | _ \<Rightarrow> None)
      else if c = CHR ''x'' then (case args of AInt n # as \<Rightarrow> do {
          s \<leftarrow> in_buffer MAX_INT_LENGTH (intToHex n); Some (as, safe_string_copy out s MAX_LENGTH) } | _ \<Rightarrow> None)
      else if c = CHR ''p'' then (case args of AU64 n # as \<Rightarrow> do {
          s \<leftarrow> in_buffer 20 (uint64ToHex n); Some (as, safe_string_copy (out @ ''0x'') s MAX_LENGTH) } | _ \<Rightarrow> None)
      else Some (args, out))"

fun format_loop :: "string \<Rightarrow> vararg list \<Rightarrow> string \<Rightarrow> string option" where
  "format_loop [] args out = Some out"
| "format_loop [c] args out = (if length out < MAX_LENGTH - 1 then Some (out @ [c]) else Some out)"
| "format_loop (c # d # fs) args out = (if length out < MAX_LENGTH - 1 then
     if c = CHR ''%'' then (case format_spec d args out of None \<Rightarrow> None | Some (args, out) \<Rightarrow> format_loop fs args out)
     else format_loop (d # fs) args (out @ [c])
   else Some out)"

text \<open>The bytes given to the write system call; the descriptor or the colour goes along.\<close>

definition format_printf :: "nat \<Rightarrow> string \<Rightarrow> vararg list \<Rightarrow> (nat \<times> string) option" where
  "format_printf fd format args = map_option (\<lambda>out. (fd, out)) (format_loop format args [])"

definition user_printf :: "string \<Rightarrow> vararg list \<Rightarrow> (nat \<times> string) option" where
  "user_printf format args = format_printf 1 format args"

definition printferror :: "string \<Rightarrow> vararg list \<Rightarrow> (nat \<times> string) option" where
  "printferror format args = format_printf 2 format args"

definition printfc :: "nat \<Rightarrow> string \<Rightarrow> vararg list \<Rightarrow> (nat \<times> string) option" where
  "printfc color format args = map_option (\<lambda>out. (color, out)) (format_loop format args [])"

section \<open>Random numbers and memory\<close>

definition randInt :: "nat \<Rightarrow> nat \<times> nat" where
  "randInt nxt = (let nxt = u64 (nxt * 1103515245 + 12345) in ((nxt div 65536) mod 32768, nxt))"

text \<open>\<open>alloc\<close> and \<open>dealloc\<close> are the system calls on a state; the three messages of a failure are
  returned as what \<^verbatim>\<open>printferror\<close> writes.\<close>

definition malloc :: "('s \<Rightarrow> nat \<Rightarrow> addr \<times> 's) \<Rightarrow> 's \<Rightarrow> nat \<Rightarrow> addr \<times> (nat \<times> string) option list \<times> 's" where
  "malloc alloc s sz = (if sz = 0 then (0, [], s) else
     let (ptr, s) = alloc s sz in
     (ptr, if ptr = 0 then [printferror ''Error allocating memory of size '' [], printferror (u64_to_str sz) [], printferror [CHR 0x0A] []] else [], s))"

definition user_free :: "('s \<Rightarrow> addr \<Rightarrow> 's) \<Rightarrow> 's \<Rightarrow> addr \<Rightarrow> 's" where
  "user_free dealloc s ptr = (if ptr = 0 then s else dealloc s ptr)"

section \<open>The digits of a number\<close>

text \<open>The reference: the digits of \<open>v\<close> to a base, the lowest first.\<close>

function digits_of :: "nat \<Rightarrow> nat \<Rightarrow> nat list" where
  "digits_of b v = (if b < 2 \<or> v < b then [v] else v mod b # digits_of b (v div b))"
  by pat_completeness auto
termination
  by (relation "measure snd") auto

declare digits_of.simps [simp del] reverse_loop.simps [simp del] u64_digits.simps [simp del]

lemma digit_loop_eq: "2 \<le> b \<Longrightarrow> digit_loop v b = Some (map digit_char (digits_of b v))"
proof (induction b v rule: digits_of.induct)
  case (1 b v)
  show ?case
  proof (cases "v < b")
    case True
    then show ?thesis using "1.prems" by (subst digit_loop.simps) (simp add: digits_of.simps)
  next
    case False
    then have "digit_loop (v div b) b = Some (map digit_char (digits_of b (v div b)))"
      using 1 by simp
    moreover have "v div b \<noteq> 0" using False "1.prems" by (simp add: div_greater_zero_iff)
    moreover have "digits_of b v = v mod b # digits_of b (v div b)"
      using False "1.prems" by (subst digits_of.simps) simp
    ultimately show ?thesis using "1.prems" by (subst digit_loop.simps) simp
  qed
qed

lemma reverse_loop_length [simp]: "length (reverse_loop buf p1 p2) = length buf"
  by (induction buf p1 p2 rule: reverse_loop.induct) (subst reverse_loop.simps, simp)

lemma reverse_loop_nth:
  "p2 < length buf \<Longrightarrow> i < length buf \<Longrightarrow>
   reverse_loop buf p1 p2 ! i = (if p1 \<le> i \<and> i \<le> p2 then buf ! (p1 + p2 - i) else buf ! i)"
proof (induction buf p1 p2 rule: reverse_loop.induct)
  case (1 buf p1 p2)
  show ?case
  proof (cases "p1 < p2")
    case True
    let ?b = "buf[p1 := buf ! p2, p2 := buf ! p1]"
    have "reverse_loop ?b (p1 + 1) (p2 - 1) ! i = (if p1 + 1 \<le> i \<and> i \<le> p2 - 1 then ?b ! (p1 + 1 + (p2 - 1) - i) else ?b ! i)"
      using 1 True by simp
    moreover have "reverse_loop buf p1 p2 = reverse_loop ?b (p1 + 1) (p2 - 1)"
      using True by (subst reverse_loop.simps) simp
    ultimately show ?thesis using True "1.prems" by (auto simp: nth_list_update)
  next
    case False
    have "reverse_loop buf p1 p2 = buf" using False by (subst reverse_loop.simps) simp
    moreover have "p1 \<le> i \<and> i \<le> p2 \<Longrightarrow> p1 + p2 - i = i" using False by linarith
    ultimately show ?thesis by auto
  qed
qed

lemma reverse_loop_rev: "buf \<noteq> [] \<Longrightarrow> reverse_loop buf 0 (length buf - 1) = rev buf"
  by (rule nth_equalityI) (auto simp: reverse_loop_nth rev_nth)

lemma digits_of_nonempty [simp]: "digits_of b v \<noteq> []"
  by (subst digits_of.simps) simp

lemma uintToBase_eq:
  "2 \<le> b \<Longrightarrow> uintToBase v b = Some (length (digits_of b v), rev (map digit_char (digits_of b v)))"
  using reverse_loop_rev [of "map digit_char (digits_of b v)"] unfolding uintToBase_def by (simp add: digit_loop_eq)

lemma digits_of_length: "0 < k \<Longrightarrow> 2 \<le> b \<Longrightarrow> v < b ^ k \<Longrightarrow> length (digits_of b v) \<le> k"
proof (induction k arbitrary: v)
  case (Suc k)
  show ?case
  proof (cases "v < b")
    case False
    have "v div b < b ^ k" using Suc.prems by (simp add: div_less_iff_less_mult mult.commute)
    moreover have "0 < k" using Suc.prems False by (cases k) auto
    ultimately have "length (digits_of b (v div b)) \<le> k" using Suc by simp
    then show ?thesis using False by (subst digits_of.simps) simp
  qed (subst digits_of.simps, simp)
qed simp

lemma digits_of_less: "2 \<le> b \<Longrightarrow> d \<in> set (digits_of b v) \<Longrightarrow> d < b"
proof (induction b v rule: digits_of.induct)
  case (1 b v)
  show ?case using "1.IH" "1.prems" by (subst (asm) (2) digits_of.simps) (auto split: if_splits)
qed

lemma of_char_digit: "d < 10 \<Longrightarrow> of_char (digit_char d) = (48 + of_nat d :: int)"
  by (subst of_nat_of_char [symmetric]) (simp add: digit_char_def)

lemma is_digit_char [simp]: "d < 10 \<Longrightarrow> is_digit (digit_char d)"
  by (simp add: is_digit_def digit_char_def of_char_of)

lemma satoi_loop_append: "satoi_loop (xs @ ys) r = Option.bind (satoi_loop xs r) (satoi_loop ys)"
  by (induction xs arbitrary: r) auto

lemma s64_small: "- (2 ^ 63) \<le> n \<Longrightarrow> n < 2 ^ 63 \<Longrightarrow> s64 n = n"
proof -
  assume a: "- (2 ^ 63) \<le> n" "n < 2 ^ 63"
  show ?thesis
  proof (cases "0 \<le> n")
    case False
    then have "n mod 2 ^ 64 = n + 2 ^ 64" using a by (intro int_mod_pos_eq [where q = "-1"]) simp_all
    then show ?thesis using a False by (simp add: s64_def)
  qed (use a in \<open>simp add: s64_def\<close>)
qed

lemma satoi_digits:
  "v < 2 ^ 63 \<Longrightarrow> satoi_loop (rev (map digit_char (digits_of 10 v))) 0 = Some (int v)"
proof (induction "10 :: nat" v rule: digits_of.induct)
  case (1 v)
  show ?case
  proof (cases "v < 10")
    case True
    then show ?thesis by (subst digits_of.simps) (simp add: of_char_digit s64_small)
  next
    case False
    have "satoi_loop (rev (map digit_char (digits_of 10 (v div 10)))) 0 = Some (int (v div 10))"
      using 1 False by simp
    moreover have "digits_of 10 v = v mod 10 # digits_of 10 (v div 10)"
      using False by (subst digits_of.simps) simp
    moreover have "int (v div 10) * 10 + (48 + int (v mod 10)) - 48 = int v" by presburger
    ultimately show ?thesis using "1.prems" by (simp add: satoi_loop_append of_char_digit s64_small)
  qed
qed

lemma u64_digits_eq: "u64_digits v temp = temp @ (if v = 0 then [] else map digit_char (digits_of 10 v))"
proof (induction v temp rule: u64_digits.induct)
  case (1 v temp)
  have d: "v \<noteq> 0 \<Longrightarrow> map digit_char (digits_of 10 v)
      = digit_char (v mod 10) # (if v div 10 = 0 then [] else map digit_char (digits_of 10 (v div 10)))"
    by (subst digits_of.simps) auto
  have c: "char_of (48 + v mod 10) = digit_char (v mod 10)" by (simp add: digit_char_def add.commute)
  show ?case
  proof (cases "v = 0")
    case True
    then show ?thesis by (subst u64_digits.simps) simp
  next
    case False
    have "u64_digits v temp = u64_digits (v div 10) (temp @ [digit_char (v mod 10)])"
      using False by (subst u64_digits.simps) (simp add: c)
    then show ?thesis using 1 False d c by simp
  qed
qed

lemma u64_copy_eq: "n \<le> length temp \<Longrightarrow> u64_copy temp n buf = buf @ rev (take n temp)"
  by (induction n arbitrary: buf) (auto simp: take_Suc_conv_app_nth)

lemma u64_to_str_eq: "u64_to_str v = rev (map digit_char (digits_of 10 v))"
proof (cases "v = 0")
  case True
  have "digit_char 0 = CHR ''0''" by code_simp
  then show ?thesis using True by (simp add: u64_to_str_def digits_of.simps [of 10 0])
qed (simp add: u64_to_str_def u64_digits_eq u64_copy_eq Let_def)

section \<open>Conversions fit their buffers\<close>

lemma signedIntToStr_eq:
  assumes "- (2 ^ 31) < n" "n < 2 ^ 31"
  shows "signedIntToStr n = Some ((if n < 0 then ''-'' else []) @ rev (map digit_char (digits_of 10 (nat \<bar>n\<bar>))))"
proof -
  have "n < 0 \<Longrightarrow> s32 (- n) = - n" using assms by (simp add: s32_small)
  then show ?thesis using assms by (simp add: signedIntToStr_def uintToBase_eq to_u64_nonneg)
qed

lemma digits_10: "v < 10 ^ 10 \<Longrightarrow> length (digits_of 10 v) \<le> 10"
  by (rule digits_of_length) simp_all

lemma in_buffer_less: "length s < n \<Longrightarrow> in_buffer n (Some s) = Some s"
  by (simp add: in_buffer_def)

lemma signed_fits:
  assumes "- (2 ^ 31) < n" "n < 2 ^ 31"
  shows "\<exists>s. in_buffer MAX_INT_LENGTH (signedIntToStr n) = Some s"
proof -
  have "nat \<bar>n\<bar> < 10 ^ 10" using assms by (simp add: nat_less_iff)
  from digits_10 [OF this] signedIntToStr_eq [OF assms] show ?thesis
    by (cases "n < 0") (simp_all add: in_buffer_def MAX_INT_LENGTH_def)
qed

lemma decimal_fits: "v < 2 ^ 64 \<Longrightarrow> \<exists>s. in_buffer MAX_INT_LENGTH (uint64ToStr v) = Some s"
  using digits_of_length [of 20 10 v]
  by (auto simp: uint64ToStr_def uintToBase_eq in_buffer_def MAX_INT_LENGTH_def)

lemma hex_fits: "v < 2 ^ 64 \<Longrightarrow> 16 < k \<Longrightarrow> \<exists>s. in_buffer k (map_option snd (uintToBase v 16)) = Some s"
  using digits_of_length [of 16 16 v] by (auto simp: uintToBase_eq in_buffer_def)

section \<open>printf\<close>

lemma safe_string_copy_length: "length out \<le> n \<Longrightarrow> mx - 1 \<le> n \<Longrightarrow> length (safe_string_copy out s mx) \<le> n"
  by (induction out s mx rule: safe_string_copy.induct) auto

text \<open>The argument a conversion takes, with the integers of its C type; the least \<^verbatim>\<open>int\<close> is left out.\<close>

fun fits :: "string \<Rightarrow> vararg list \<Rightarrow> bool" where
  "fits [] args = True"
| "fits [c] args = True"
| "fits (c # d # fs) args = (if c = CHR ''%'' then
     if d \<in> set ''dxc'' then (case args of AInt n # as \<Rightarrow> - (2 ^ 31) < n \<and> n < 2 ^ 31 \<and> fits fs as | _ \<Rightarrow> False)
     else if d \<in> set ''lp'' then (case args of AU64 n # as \<Rightarrow> n < 2 ^ 64 \<and> fits fs as | _ \<Rightarrow> False)
     else if d = CHR ''s'' then (case args of AStr s # as \<Rightarrow> fits fs as | _ \<Rightarrow> False)
     else fits fs args
   else fits (d # fs) args)"

lemma format_spec_ok:
  assumes "fits (CHR ''%'' # d # fs) args" "length out < MAX_LENGTH - 1"
  shows "\<exists>as out'. format_spec d args out = Some (as, out') \<and> fits fs as \<and> length out' \<le> MAX_LENGTH"
proof -
  have len: "length out' \<le> MAX_LENGTH \<Longrightarrow> length (safe_string_copy out' s MAX_LENGTH) \<le> MAX_LENGTH" for s out'
    by (rule safe_string_copy_length) simp_all
  consider (i) "d \<in> set ''dxc''" | (u) "d \<in> set ''lp''" | (s) "d = CHR ''s''" | (n) "d \<notin> set ''dxclps''" by auto
  then show ?thesis
  proof cases
    case i
    then obtain n as where a: "args = AInt n # as" "- (2 ^ 31) < n" "n < 2 ^ 31" "fits fs as"
      using assms(1) by (auto split: list.splits vararg.splits)
    obtain t where t: "in_buffer MAX_INT_LENGTH (signedIntToStr n) = Some t" using signed_fits a by blast
    obtain h where h: "in_buffer MAX_INT_LENGTH (intToHex n) = Some h"
      using hex_fits [OF to_u64_less, of MAX_INT_LENGTH n] by (auto simp: intToHex_def MAX_INT_LENGTH_def)
    show ?thesis using i assms(2) by (auto simp: format_spec_def a(1,4) t h intro!: len)
  next
    case u
    then obtain n as where a: "args = AU64 n # as" "n < 2 ^ 64" "fits fs as"
      using assms(1) by (auto split: list.splits vararg.splits)
    obtain t where t: "in_buffer MAX_INT_LENGTH (uint64ToStr n) = Some t" using decimal_fits a by blast
    obtain h where h: "in_buffer 20 (uint64ToHex n) = Some h"
      using hex_fits [OF a(2), of 20] by (auto simp: uint64ToHex_def)
    show ?thesis using u assms(2) by (auto simp: format_spec_def a(1,3) t h intro!: len)
  next
    case s
    then obtain t as where "args = AStr t # as" "fits fs as"
      using assms(1) by (auto split: list.splits vararg.splits)
    then show ?thesis using s assms(2) by (auto simp: format_spec_def intro!: len)
  qed (use assms in \<open>auto simp: format_spec_def\<close>)
qed

lemma format_loop_ok:
  "fits f args \<Longrightarrow> length out \<le> MAX_LENGTH \<Longrightarrow>
   \<exists>r. format_loop f args out = Some r \<and> length r \<le> MAX_LENGTH"
proof (induction f args out rule: format_loop.induct)
  case (3 c d fs args out)
  show ?case
  proof (cases "length out < MAX_LENGTH - 1 \<and> c = CHR ''%''")
    case True
    then obtain as out' where "format_spec d args out = Some (as, out')" "fits fs as" "length out' \<le> MAX_LENGTH"
      using format_spec_ok 3(3) by blast
    then show ?thesis using True 3(1) by simp
  next
    case False
    then show ?thesis using 3 by (auto split: if_splits)
  qed
qed auto

lemma format_loop_plain:
  "CHR ''%'' \<notin> set f \<Longrightarrow> length out + length f < MAX_LENGTH \<Longrightarrow> format_loop f args out = Some (out @ f)"
  by (induction f args out rule: format_loop.induct) auto

section \<open>Comparison and search\<close>

lemma sc_inj: "sc a = sc b \<longleftrightarrow> a = b"
proof
  have "sc c mod 256 = of_char c" for c by (simp add: sc_def Let_def of_char_mod_256)
  then show "sc a = sc b \<Longrightarrow> a = b" by (metis of_char_eq_iff)
qed simp

lemma strcmp_zero: "NUL \<notin> set a \<Longrightarrow> NUL \<notin> set b \<Longrightarrow> strcmp a b = 0 \<longleftrightarrow> a = b"
proof (induction a b rule: strcmp.induct)
  case (2 b bs)
  then show ?case using sc_inj [of b NUL] by (auto simp: sc_def)
next
  case (3 a as)
  then show ?case using sc_inj [of a NUL] by (auto simp: sc_def)
qed (auto simp: sc_inj)

lemma needle_rest_prefix: "needle_rest h n = [] \<longleftrightarrow> prefix n h"
  by (induction h n rule: needle_rest.induct) auto

lemma strstr_loop_spec:
  assumes "needle \<noteq> []"
  shows "strstr_loop h needle i = (if sublist needle h
     then Some (i + (LEAST k. prefix needle (drop k h))) else None)"
proof (induction h arbitrary: i)
  case Nil
  show ?case using assms by simp
next
  case (Cons c h)
  show ?case
  proof (cases "prefix needle (c # h)")
    case True
    then have "(LEAST k. prefix needle (drop k (c # h))) = 0" by (intro Least_eq_0) simp
    then show ?thesis using True by (simp add: needle_rest_prefix prefix_imp_sublist)
  next
    case False
    have "(LEAST k. prefix needle (drop k (c # h))) = Suc (LEAST k. prefix needle (drop k h))" if sl: "sublist needle h"
    proof -
      obtain ps ss where "h = ps @ needle @ ss" using sl unfolding sublist_def by blast
      then have "prefix needle (drop (Suc (length ps)) (c # h))" by simp
      from Least_Suc [where P = "\<lambda>k. prefix needle (drop k (c # h))", OF this] False show ?thesis by simp
    qed
    then show ?thesis using False Cons by (auto simp: needle_rest_prefix sublist_Cons_right)
  qed
qed

section \<open>Properties\<close>



text \<open>The two conversions of an unsigned 64-bit number agree: the digit loop with its in-place
  reversal of \<^verbatim>\<open>uint64ToStr\<close> returns and gives the text of \<^verbatim>\<open>u64_to_str\<close>, which with its NUL fits
  the 21 bytes of the callers; the hexadecimal one fits 17.\<close>

theorem u64_conversions_agree:
  assumes "v < 2 ^ 64"
  shows "uint64ToStr v = Some (u64_to_str v) \<and> length (u64_to_str v) < MAX_INT_LENGTH
     \<and> (\<exists>h. uint64ToHex v = Some h \<and> length h \<le> 16)"
proof (intro conjI)
  show "uint64ToStr v = Some (u64_to_str v)" by (simp add: uint64ToStr_def uintToBase_eq u64_to_str_eq)
  show "length (u64_to_str v) < MAX_INT_LENGTH"
    using digits_of_length [of 20 10 v] assms by (simp add: u64_to_str_eq MAX_INT_LENGTH_def)
  show "\<exists>h. uint64ToHex v = Some h \<and> length h \<le> 16"
    using digits_of_length [of 16 16 v] assms by (simp add: uint64ToHex_def uintToBase_eq)
qed

theorem u64_conversions_agree_witness:
  "uint64ToStr 18446744073709551615 = Some (u64_to_str 18446744073709551615) \<and> length (u64_to_str 18446744073709551615) < MAX_INT_LENGTH"
  using u64_conversions_agree [of 18446744073709551615] by simp



text \<open>Printing the least \<^verbatim>\<open>int\<close> with \<^verbatim>\<open>%d\<close> leaves the buffer: its negation does not fit an
  \<^verbatim>\<open>int\<close>, the conversion to 64 bits makes it a number of 20 digits, and with the sign and the NUL
  the text needs 22 bytes of an array of 21.\<close>

theorem printf_int_min_overflows:
  "map_option length (signedIntToStr (- (2 ^ 31))) = Some 21 \<and> format_printf fd ''%d'' [AInt (- (2 ^ 31))] = None"
proof -
  have "s32 (2 ^ 31) = - (2 ^ 31)" by (simp add: s32_def)
  then have "signedIntToStr (- (2 ^ 31)) = Some (CHR ''-'' # rev (map digit_char (digits_of 10 18446744071562067968)))"
    by (simp add: signedIntToStr_def to_u64_def uintToBase_eq)
  moreover have "length (digits_of 10 18446744071562067968) = 20" by (simp add: digits_of.simps)
  ultimately show ?thesis
    by (simp add: format_printf_def format_spec_def in_buffer_def MAX_INT_LENGTH_def MAX_LENGTH_def)
qed

text \<open>\<^verbatim>\<open>strstr\<close> returns the first position at which the needle occurs and NULL exactly when
  it does not occur; \<^verbatim>\<open>strcmp\<close> is zero exactly for equal strings.\<close>

theorem string_search_correct:
  assumes "NUL \<notin> set h" "NUL \<notin> set n"
  shows "strstr h n = (if sublist n h then Some (LEAST k. prefix n (drop k h)) else None)
     \<and> (strcmp h n = 0 \<longleftrightarrow> h = n)"
proof (intro conjI)
  show "strstr h n = (if sublist n h then Some (LEAST k. prefix n (drop k h)) else None)"
    by (cases "n = []") (simp_all add: strstr_def strstr_loop_spec)
  show "strcmp h n = 0 \<longleftrightarrow> h = n" using assms by (rule strcmp_zero)
qed

theorem string_search_correct_witness:
  "strstr ''filter'' ''te'' = (if sublist ''te'' ''filter'' then Some (LEAST k. prefix ''te'' (drop k ''filter'')) else None)
   \<and> (strcmp ''filter'' ''te'' = 0 \<longleftrightarrow> ''filter'' = ''te'')"
  using string_search_correct [of "''filter''" "''te''"] by simp

end
