(* ===== verification/Double_Linked_List.thy ===== *)
theory Double_Linked_List
  imports Memory_Interface
begin

text \<open>
  The doubly linked list, \<^verbatim>\<open>Kernel/dataStructures/double_linked_list.c\<close>.

  As for the queues the heap is a typed store with the state of the memory manager.  A list
  is well formed when the \<^verbatim>\<open>next\<close> fields chain its cells and the \<^verbatim>\<open>prev\<close> fields chain them
  backwards.  The lemmas show, for every allocator, that the operations are those of lists at
  both ends.
\<close>

section \<open>State\<close>

record DNode =
  dl_data :: addr
  dl_next :: addr
  dl_prev :: addr

record DoubleLinkedListCDT =
  first :: addr
  dl_last :: addr
  dl_size :: int

record 'm dheap =
  dmm :: 'm
  dnodes :: "addr \<Rightarrow> DNode"
  dlists :: "addr \<Rightarrow> DoubleLinkedListCDT"

definition sizeof_DNode :: nat where "sizeof_DNode = 24"
definition sizeof_DList :: nat where "sizeof_DList = 24"

definition dalloc :: "'m mm_ops \<Rightarrow> 'm dheap \<Rightarrow> nat \<Rightarrow> (addr \<times> 'm dheap) option" where
  "dalloc ops h n = do { (p, m') \<leftarrow> mm_alloc ops (dmm h) n; Some (p, h\<lparr>dmm := m'\<rparr>) }"

definition dfree :: "'m mm_ops \<Rightarrow> 'm dheap \<Rightarrow> addr \<Rightarrow> 'm dheap option" where
  "dfree ops h p = do { m' \<leftarrow> mm_free ops (dmm h) p; Some (h\<lparr>dmm := m'\<rparr>) }"

text \<open>Assignments to a field of a cell and to the list header.\<close>

definition set_next :: "'m dheap \<Rightarrow> addr \<Rightarrow> addr \<Rightarrow> 'm dheap" where
  "set_next h a b = h\<lparr>dnodes := (dnodes h)(a := (dnodes h a)\<lparr>dl_next := b\<rparr>)\<rparr>"

definition set_prev :: "'m dheap \<Rightarrow> addr \<Rightarrow> addr \<Rightarrow> 'm dheap" where
  "set_prev h a b = h\<lparr>dnodes := (dnodes h)(a := (dnodes h a)\<lparr>dl_prev := b\<rparr>)\<rparr>"

definition upd_list :: "'m dheap \<Rightarrow> addr \<Rightarrow> (DoubleLinkedListCDT \<Rightarrow> DoubleLinkedListCDT) \<Rightarrow> 'm dheap" where
  "upd_list h l f = h\<lparr>dlists := (dlists h)(l := f (dlists h l))\<rparr>"

section \<open>Operations\<close>

definition createDoubleLinkedList :: "'m mm_ops \<Rightarrow> 'm dheap \<Rightarrow> (addr \<times> 'm dheap) option" where
  "createDoubleLinkedList ops h = do {
     (list, h) \<leftarrow> dalloc ops h sizeof_DList;
     if list = 0 then Some (0, h) else Some (list, upd_list h list (\<lambda>_. \<lparr>first = 0, dl_last = 0, dl_size = 0\<rparr>))
   }"

definition createNode :: "'m mm_ops \<Rightarrow> 'm dheap \<Rightarrow> addr \<Rightarrow> (addr \<times> 'm dheap) option" where
  "createNode ops h dat = do {
     (n, h) \<leftarrow> dalloc ops h sizeof_DNode;
     if n = 0 then Some (0, h)
     else Some (n, h\<lparr>dnodes := (dnodes h)(n := \<lparr>dl_data = dat, dl_next = 0, dl_prev = 0\<rparr>)\<rparr>)
   }"

definition insertFirst :: "'m mm_ops \<Rightarrow> 'm dheap \<Rightarrow> addr \<Rightarrow> addr \<Rightarrow> (int \<times> 'm dheap) option" where
  "insertFirst ops h list dat = (if list = 0 then Some (-1, h) else do {
     (n, h) \<leftarrow> createNode ops h dat;
     if n = 0 then Some (-1, h)
     else do {
       let h = set_next h n (first (dlists h list));
       let h = (if first (dlists h list) \<noteq> 0 then set_prev h (first (dlists h list)) n else h);
       let h = upd_list h list (\<lambda>l. l\<lparr>first := n\<rparr>);
       let h = (if dl_last (dlists h list) = 0 then upd_list h list (\<lambda>l. l\<lparr>dl_last := n\<rparr>) else h);
       Some (0, upd_list h list (\<lambda>l. l\<lparr>dl_size := dl_size l + 1\<rparr>))
     }
   })"

definition insertLast :: "'m mm_ops \<Rightarrow> 'm dheap \<Rightarrow> addr \<Rightarrow> addr \<Rightarrow> (int \<times> 'm dheap) option" where
  "insertLast ops h list dat = (if list = 0 then Some (-1, h) else do {
     (n, h) \<leftarrow> createNode ops h dat;
     if n = 0 then Some (-1, h)
     else do {
       let h = set_prev h n (dl_last (dlists h list));
       let h = (if dl_last (dlists h list) \<noteq> 0 then set_next h (dl_last (dlists h list)) n else h);
       let h = upd_list h list (\<lambda>l. l\<lparr>dl_last := n\<rparr>);
       let h = (if first (dlists h list) = 0 then upd_list h list (\<lambda>l. l\<lparr>first := n\<rparr>) else h);
       Some (0, upd_list h list (\<lambda>l. l\<lparr>dl_size := dl_size l + 1\<rparr>))
     }
   })"

definition removeFirst :: "'m mm_ops \<Rightarrow> 'm dheap \<Rightarrow> addr \<Rightarrow> (int \<times> 'm dheap) option" where
  "removeFirst ops h list = (if list = 0 \<or> first (dlists h list) = 0 then Some (-1, h) else do {
     let n = first (dlists h list);
     let h = upd_list h list (\<lambda>l. l\<lparr>first := dl_next (dnodes h n)\<rparr>);
     let h = (if first (dlists h list) \<noteq> 0 then set_prev h (first (dlists h list)) 0 else upd_list h list (\<lambda>l. l\<lparr>dl_last := 0\<rparr>));
     h \<leftarrow> dfree ops h n;
     Some (0, upd_list h list (\<lambda>l. l\<lparr>dl_size := dl_size l - 1\<rparr>))
   })"

definition removeLast :: "'m mm_ops \<Rightarrow> 'm dheap \<Rightarrow> addr \<Rightarrow> (int \<times> 'm dheap) option" where
  "removeLast ops h list = (if list = 0 \<or> dl_last (dlists h list) = 0 then Some (-1, h) else do {
     let n = dl_last (dlists h list);
     let h = upd_list h list (\<lambda>l. l\<lparr>dl_last := dl_prev (dnodes h n)\<rparr>);
     let h = (if dl_last (dlists h list) \<noteq> 0 then set_next h (dl_last (dlists h list)) 0 else upd_list h list (\<lambda>l. l\<lparr>first := 0\<rparr>));
     h \<leftarrow> dfree ops h n;
     Some (0, upd_list h list (\<lambda>l. l\<lparr>dl_size := dl_size l - 1\<rparr>))
   })"

text \<open>The loop of \<^verbatim>\<open>removeElement\<close>: the first cell with the datum, or NULL.\<close>

partial_function (option) find_walk :: "'m dheap \<Rightarrow> addr \<Rightarrow> addr \<Rightarrow> addr option" where
  [code]: "find_walk h dat it = (if it = 0 then Some 0
     else if dl_data (dnodes h it) = dat then Some it else find_walk h dat (dl_next (dnodes h it)))"

definition unlink :: "'m dheap \<Rightarrow> addr \<Rightarrow> addr \<Rightarrow> 'm dheap" where
  "unlink h list it = (
     let p = dl_prev (dnodes h it); n = dl_next (dnodes h it);
         h = (if p \<noteq> 0 then set_next h p n else upd_list h list (\<lambda>l. l\<lparr>first := n\<rparr>))
     in if n \<noteq> 0 then set_prev h n p else upd_list h list (\<lambda>l. l\<lparr>dl_last := p\<rparr>))"

definition removeElement :: "'m mm_ops \<Rightarrow> 'm dheap \<Rightarrow> addr \<Rightarrow> addr \<Rightarrow> (int \<times> 'm dheap) option" where
  "removeElement ops h list dat = (if list = 0 then Some (-1, h) else do {
     it \<leftarrow> find_walk h dat (first (dlists h list));
     if it = 0 then Some (-1, h)
     else do {
       h \<leftarrow> dfree ops (unlink h list it) it;
       Some (0, upd_list h list (\<lambda>l. l\<lparr>dl_size := dl_size l - 1\<rparr>))
     }
   })"

definition getFirst :: "'m dheap \<Rightarrow> addr \<Rightarrow> addr" where
  "getFirst h list = (if list = 0 \<or> first (dlists h list) = 0 then 0 else dl_data (dnodes h (first (dlists h list))))"

definition getLast :: "'m dheap \<Rightarrow> addr \<Rightarrow> addr" where
  "getLast h list = (if list = 0 \<or> dl_last (dlists h list) = 0 then 0 else dl_data (dnodes h (dl_last (dlists h list))))"

definition getSize :: "'m dheap \<Rightarrow> addr \<Rightarrow> int" where
  "getSize h list = (if list = 0 then 0 else dl_size (dlists h list))"

definition isEmpty :: "'m dheap \<Rightarrow> addr \<Rightarrow> bool" where
  "isEmpty h list = (if list = 0 then True else dl_size (dlists h list) = 0)"

partial_function (option) free_cells :: "'m mm_ops \<Rightarrow> 'm dheap \<Rightarrow> addr \<Rightarrow> 'm dheap option" where
  [code]: "free_cells ops h it = (if it = 0 then Some h
     else do { h' \<leftarrow> dfree ops h it; free_cells ops h' (dl_next (dnodes h it)) })"

definition freeList :: "'m mm_ops \<Rightarrow> 'm dheap \<Rightarrow> addr \<Rightarrow> (int \<times> 'm dheap) option" where
  "freeList ops h list = (if list = 0 then Some (-1, h) else do {
     h \<leftarrow> free_cells ops h (first (dlists h list));
     h \<leftarrow> dfree ops h list;
     Some (0, h)
   })"

section \<open>Lists at both ends\<close>

abbreviation dnext :: "'m dheap \<Rightarrow> addr \<Rightarrow> addr" where "dnext h a \<equiv> dl_next (dnodes h a)"
abbreviation dprev :: "'m dheap \<Rightarrow> addr \<Rightarrow> addr" where "dprev h a \<equiv> dl_prev (dnodes h a)"
abbreviation ddata :: "'m dheap \<Rightarrow> addr \<Rightarrow> addr" where "ddata h a \<equiv> dl_data (dnodes h a)"

definition dll_at :: "'m dheap \<Rightarrow> addr \<Rightarrow> addr list \<Rightarrow> addr list \<Rightarrow> bool" where
  "dll_at h l ns xs \<longleftrightarrow> chain (dnext h) (first (dlists h l)) ns \<and> chain (dprev h) (dl_last (dlists h l)) (rev ns) \<and>
     map (ddata h) ns = xs \<and> dl_size (dlists h l) = int (length xs)"

text \<open>The list header and the cells are live allocations, the header is not a cell.\<close>

definition dlist :: "('m \<Rightarrow> (addr \<rightharpoonup> nat) \<Rightarrow> bool) \<Rightarrow> 'm dheap \<Rightarrow> addr \<Rightarrow> addr list \<Rightarrow> addr list \<Rightarrow> (addr \<rightharpoonup> nat) \<Rightarrow> bool" where
  "dlist rep h l ns xs L \<longleftrightarrow> rep (dmm h) L \<and> dll_at h l ns xs \<and> (\<forall>a \<in> insert l (set ns). L a \<noteq> None) \<and> l \<notin> set ns"

lemma chain_remove:
  assumes "chain nx p (us @ n # vs)"
  shows "chain (if us = [] then nx else nx(last us := nx n)) (if us = [] then nx n else p) (us @ vs)"
proof (cases us rule: rev_cases)
  case (snoc ms a)
  then show ?thesis using chain_unlink [of nx p ms a n vs] assms by simp
qed (use assms in simp)

lemma chain_next: "chain nx p (us @ n # vs) \<Longrightarrow> nx n = (if vs = [] then 0 else hd vs)"
  by (cases vs) (auto simp: chain_simps)

lemma chain_head: "chain nx p ns \<Longrightarrow> p = (if ns = [] then 0 else hd ns)"
  by (cases ns) auto

lemma dll_at_remove:
  assumes "dll_at h l (us @ n # vs) (xs @ x # ys)" "length us = length xs"
    "dnext h' = (if us = [] then dnext h else (dnext h)(last us := dnext h n))"
    "dprev h' = (if vs = [] then dprev h else (dprev h)(hd vs := dprev h n))"
    "ddata h' = ddata h"
    "first (dlists h' l) = (if us = [] then dnext h n else first (dlists h l))"
    "dl_last (dlists h' l) = (if vs = [] then dprev h n else dl_last (dlists h l))"
    "dl_size (dlists h' l) = dl_size (dlists h l) - 1"
  shows "dll_at h' l (us @ vs) (xs @ ys)"
proof -
  have "chain (dprev h) (dl_last (dlists h l)) (rev vs @ n # rev us)" using assms(1) by (simp add: dll_at_def)
  from chain_remove [OF this] have p: "chain (dprev h') (dl_last (dlists h' l)) (rev (us @ vs))"
    unfolding assms(4,7) by (simp add: last_rev split: if_splits)
  have "chain (dnext h) (first (dlists h l)) (us @ n # vs)" using assms(1) by (simp add: dll_at_def)
  from chain_remove [OF this] have "chain (dnext h') (first (dlists h' l)) (us @ vs)" by (simp add: assms(3,6))
  moreover have "map (ddata h) us = xs" "map (ddata h) vs = ys" using assms(1,2) by (auto simp: dll_at_def)
  ultimately show ?thesis using p assms(1,5,8) by (simp add: dll_at_def)
qed

lemma dll_at_ends:
  assumes "dll_at h l (us @ n # vs) zs"
  shows "dnext h n = (if vs = [] then 0 else hd vs)" "dprev h n = (if us = [] then 0 else last us)"
proof -
  have "chain (dprev h) (dl_last (dlists h l)) (rev vs @ n # rev us)" using assms by (simp add: dll_at_def)
  from chain_next [OF this] show "dprev h n = (if us = [] then 0 else last us)" by (simp add: hd_rev)
  have "chain (dnext h) (first (dlists h l)) (us @ n # vs)" using assms by (simp add: dll_at_def)
  from chain_next [OF this] show "dnext h n = (if vs = [] then 0 else hd vs)" .
qed

lemma dll_at_header:
  assumes "dll_at h l ns xs"
  shows "first (dlists h l) = (if ns = [] then 0 else hd ns)" "dl_last (dlists h l) = (if ns = [] then 0 else last ns)"
    "0 \<notin> set ns" "distinct ns" "length ns = length xs"
  using assms chain_head [of "dnext h" "first (dlists h l)" ns] chain_head [of "dprev h" "dl_last (dlists h l)" "rev ns"]
    chain_nonzero [of "dnext h" "first (dlists h l)" ns 0] chain_distinct [of "dnext h" "first (dlists h l)" ns]
  by (auto simp: dll_at_def hd_rev)

lemma find_walk_eq:
  "chain (dnext h) p ns \<Longrightarrow> find_walk h d p = Some (case find (\<lambda>n. ddata h n = d) ns of None \<Rightarrow> 0 | Some n \<Rightarrow> n)"
proof (induction ns arbitrary: p)
  case Nil then show ?case by (simp add: find_walk.simps)
next
  case (Cons n ns) then show ?case by (subst find_walk.simps) auto
qed

lemmas dl_setters = set_next_def set_prev_def upd_list_def Let_def

section \<open>The operations implement lists, for every allocator\<close>

context allocator
begin

lemma dlist_nonzero: "dlist rep h l ns xs L \<Longrightarrow> l \<noteq> 0"
  using null_not_live [of "dmm h" L] unfolding dlist_def by (metis insertI1)

lemma createList_law:
  assumes "rep (dmm h) L"
  shows "\<exists>l h'. createDoubleLinkedList ops h = Some (l, h') \<and>
     (l = 0 \<and> h' = h \<or> (\<exists>k. L l = None \<and> dlist rep h' l [] [] (L(l \<mapsto> k))))"
  using alloc_law [OF assms, of sizeof_DList]
  by (fastforce simp: createDoubleLinkedList_def dalloc_def sizeof_DList_def dlist_def dll_at_def upd_list_def)

lemma node_law:
  assumes "rep (dmm h) L"
  obtains "createNode ops h d = Some (0, h)"
  | n k h' where "createNode ops h d = Some (n, h')" "n \<noteq> 0" "L n = None" "rep (dmm h') (L(n \<mapsto> k))"
      "dnodes h' = (dnodes h)(n := \<lparr>dl_data = d, dl_next = 0, dl_prev = 0\<rparr>)" "dlists h' = dlists h"
proof -
  have "0 < sizeof_DNode" "sizeof_DNode < 2 ^ 32" by (simp_all add: sizeof_DNode_def)
  from assms this show thesis
  proof (cases rule: alloc_cases)
    case oom
    then show thesis by (intro that(1)) (simp add: createNode_def dalloc_def)
  next
    case (fresh p m' k)
    then show thesis
      by (intro that(2) [of p "h\<lparr>dmm := m', dnodes := (dnodes h)(p := \<lparr>dl_data = d, dl_next = 0, dl_prev = 0\<rparr>)\<rparr>" k])
        (simp_all add: createNode_def dalloc_def)
  qed
qed

text \<open>A cell is linked in front of, or behind, the cells of a list.\<close>

lemma chain_Cons_new: "chain nx p ns \<Longrightarrow> n \<notin> set ns \<Longrightarrow> n \<noteq> 0 \<Longrightarrow> chain (nx(n := p)) n (n # ns)"
  by simp

lemma chain_snoc_new:
  assumes "chain nx p ns" "n \<notin> set ns" "n \<noteq> 0" "nx n = 0"
  shows "chain (if ns = [] then nx else nx(last ns := n)) (if ns = [] then n else p) (ns @ [n])"
proof (cases ns rule: rev_cases)
  case (snoc ms a)
  then show ?thesis using chain_snoc_upd [of nx p ms a n] assms by simp
qed (use assms in simp)

lemma insertFirst_law:
  assumes "dlist rep h l ns xs L"
  shows "\<exists>r h'. insertFirst ops h l d = Some (r, h') \<and> (r = -1 \<and> h' = h \<or>
     (r = 0 \<and> (\<exists>n k. L n = None \<and> dlist rep h' l (n # ns) (d # xs) (L(n \<mapsto> k)))))"
proof -
  have at: "dll_at h l ns xs" and r: "rep (dmm h) L" and live: "\<forall>a \<in> insert l (set ns). L a \<noteq> None" "l \<notin> set ns"
    using assms by (auto simp: dlist_def)
  note hd = dll_at_header [OF at]
  note l0 = dlist_nonzero [OF assms]
  from r show ?thesis
  proof (cases rule: node_law [where d = d])
    case 1
    then show ?thesis using l0 by (simp add: insertFirst_def)
  next
    case (2 n k h1)
    have n: "n \<notin> set ns" "n \<noteq> l" using 2(3) live by auto
    have ne: "ns = [] \<or> hd ns \<noteq> 0 \<and> last ns \<noteq> 0 \<and> hd ns \<noteq> n \<and> last ns \<noteq> n"
      using hd(3) n by (metis hd_in_set last_in_set)
    define h' where "h' = snd (the (insertFirst ops h l d))"
    have e: "insertFirst ops h l d = Some (0, h')" "dmm h' = dmm h1"
      "dnext h' = (dnext h)(n := first (dlists h l))" "ddata h' = (ddata h)(n := d)"
      "dprev h' = (if ns = [] then (dprev h)(n := 0) else ((dprev h)(n := 0))(hd ns := n))"
      "first (dlists h' l) = n" "dl_last (dlists h' l) = (if ns = [] then n else dl_last (dlists h l))"
      "dl_size (dlists h' l) = dl_size (dlists h l) + 1"
      using l0 2(1,2,5,6) hd(1-3) n ne unfolding h'_def by (auto simp: insertFirst_def dl_setters fun_eq_iff)
    have "chain ((dprev h)(n := 0)) (dl_last (dlists h l)) (rev ns)" using at n by (simp add: dll_at_def)
    from chain_snoc_new [OF this _ 2(2)] n have p: "chain (dprev h') (dl_last (dlists h' l)) (rev (n # ns))"
      unfolding e(5,7) by (simp add: last_rev split: if_splits)
    have "dll_at h' l (n # ns) (d # xs)"
      using at n p 2(2) chain_Cons_new [of "dnext h" "first (dlists h l)" ns n]
      by (auto simp: dll_at_def e)
    then show ?thesis using e(1,2) 2(3,4) live n by (auto simp: dlist_def)
  qed
qed

lemma insertLast_law:
  assumes "dlist rep h l ns xs L"
  shows "\<exists>r h'. insertLast ops h l d = Some (r, h') \<and> (r = -1 \<and> h' = h \<or>
     (r = 0 \<and> (\<exists>n k. L n = None \<and> dlist rep h' l (ns @ [n]) (xs @ [d]) (L(n \<mapsto> k)))))"
proof -
  have at: "dll_at h l ns xs" and r: "rep (dmm h) L" and live: "\<forall>a \<in> insert l (set ns). L a \<noteq> None" "l \<notin> set ns"
    using assms by (auto simp: dlist_def)
  note hd = dll_at_header [OF at]
  note l0 = dlist_nonzero [OF assms]
  from r show ?thesis
  proof (cases rule: node_law [where d = d])
    case 1
    then show ?thesis using l0 by (simp add: insertLast_def)
  next
    case (2 n k h1)
    have n: "n \<notin> set ns" "n \<noteq> l" using 2(3) live by auto
    have ne: "ns = [] \<or> hd ns \<noteq> 0 \<and> last ns \<noteq> 0 \<and> hd ns \<noteq> n \<and> last ns \<noteq> n"
      using hd(3) n by (metis hd_in_set last_in_set)
    define h' where "h' = snd (the (insertLast ops h l d))"
    have e: "insertLast ops h l d = Some (0, h')" "dmm h' = dmm h1"
      "dprev h' = (dprev h)(n := dl_last (dlists h l))" "ddata h' = (ddata h)(n := d)"
      "dnext h' = (if ns = [] then (dnext h)(n := 0) else ((dnext h)(n := 0))(last ns := n))"
      "dl_last (dlists h' l) = n" "first (dlists h' l) = (if ns = [] then n else first (dlists h l))"
      "dl_size (dlists h' l) = dl_size (dlists h l) + 1"
      using l0 2(1,2,5,6) hd(1-3) n ne unfolding h'_def by (auto simp: insertLast_def dl_setters fun_eq_iff)
    have "chain ((dnext h)(n := 0)) (first (dlists h l)) ns" using at n by (simp add: dll_at_def)
    from chain_snoc_new [OF this _ 2(2)] n have p: "chain (dnext h') (first (dlists h' l)) (ns @ [n])"
      unfolding e(5,7) by (simp split: if_splits)
    have "dll_at h' l (ns @ [n]) (xs @ [d])"
      using at n p 2(2) chain_Cons_new [of "dprev h" "dl_last (dlists h l)" "rev ns" n]
      by (auto simp: dll_at_def e)
    then show ?thesis using e(1,2) 2(3,4) live n by (auto simp: dlist_def)
  qed
qed

text \<open>Releasing an unlinked cell gives the list without it.\<close>

lemma dlist_removed:
  assumes "dlist rep h l (us @ n # vs) (xs @ x # ys) L" "length us = length xs"
    "dmm h1 = dmm h" "dll_at (upd_list h1 l (\<lambda>r. r\<lparr>dl_size := dl_size r - 1\<rparr>)) l (us @ vs) (xs @ ys)"
  shows "\<exists>h2. dfree ops h1 n = Some h2 \<and>
     dlist rep (upd_list h2 l (\<lambda>r. r\<lparr>dl_size := dl_size r - 1\<rparr>)) l (us @ vs) (xs @ ys) (L(n := None))"
proof -
  have r: "rep (dmm h1) L" "L n \<noteq> None" "\<forall>a \<in> insert l (set (us @ vs)). L a \<noteq> None" "l \<notin> set (us @ n # vs)"
    using assms(1,3) by (auto simp: dlist_def)
  have d: "distinct (us @ n # vs)" using assms(1) dll_at_header(4) unfolding dlist_def by blast
  obtain m' where m': "mm_free ops (dmm h1) n = Some m'" "rep m' (L(n := None))" using free_law [OF r(1)] r(2) by blast
  have at: "dll_at (upd_list (h1\<lparr>dmm := m'\<rparr>) l f) l ns zs = dll_at (upd_list h1 l f) l ns zs" for f ns zs
    by (simp add: dll_at_def upd_list_def)
  show ?thesis using m' assms(4) r(3,4) d
    by (auto simp: dfree_def dlist_def at) (simp_all add: upd_list_def)
qed

lemma removeFirst_law:
  assumes "dlist rep h l (n # vs) (x # ys) L"
  shows "\<exists>h'. removeFirst ops h l = Some (0, h') \<and> dlist rep h' l vs ys (L(n := None))"
proof -
  have at: "dll_at h l (n # vs) (x # ys)" using assms by (simp add: dlist_def)
  note hd = dll_at_header [OF at] and ends = dll_at_ends [of h l "[]" n vs "x # ys", simplified, OF at]
  define h1 where "h1 = (let h1 = upd_list h l (\<lambda>r. r\<lparr>first := dnext h n\<rparr>) in
     if first (dlists h1 l) \<noteq> 0 then set_prev h1 (first (dlists h1 l)) 0 else upd_list h1 l (\<lambda>r. r\<lparr>dl_last := 0\<rparr>))"
  have ne: "vs = [] \<or> hd vs \<noteq> 0" using hd(3) by (cases vs) auto
  have "dll_at (upd_list h1 l (\<lambda>r. r\<lparr>dl_size := dl_size r - 1\<rparr>)) l ([] @ vs) ([] @ ys)"
    by (rule dll_at_remove [of h l "[]" n vs "[]" x]) (use at ends ne in \<open>auto simp: h1_def dl_setters fun_eq_iff\<close>)
  moreover have "dmm h1 = dmm h" by (simp add: h1_def dl_setters)
  ultimately obtain h2 where h2: "dfree ops h1 n = Some h2"
      "dlist rep (upd_list h2 l (\<lambda>r. r\<lparr>dl_size := dl_size r - 1\<rparr>)) l vs ys (L(n := None))"
    using dlist_removed [of h l "[]" n vs "[]" x ys L h1] assms by auto
  have "removeFirst ops h l = do { h \<leftarrow> dfree ops h1 n; Some (0, upd_list h l (\<lambda>r. r\<lparr>dl_size := dl_size r - 1\<rparr>)) }"
    using hd(1,3) dlist_nonzero [OF assms] by (auto simp: removeFirst_def h1_def Let_def)
  then show ?thesis using h2 by simp
qed

lemma removeLast_law:
  assumes "dlist rep h l (us @ [n]) (xs @ [x]) L"
  shows "\<exists>h'. removeLast ops h l = Some (0, h') \<and> dlist rep h' l us xs (L(n := None))"
proof -
  have at: "dll_at h l (us @ [n]) (xs @ [x])" using assms by (simp add: dlist_def)
  note hd = dll_at_header [OF at] and ends = dll_at_ends [of h l us n "[]", OF at]
  define h1 where "h1 = (let h1 = upd_list h l (\<lambda>r. r\<lparr>dl_last := dprev h n\<rparr>) in
     if dl_last (dlists h1 l) \<noteq> 0 then set_next h1 (dl_last (dlists h1 l)) 0 else upd_list h1 l (\<lambda>r. r\<lparr>first := 0\<rparr>))"
  have ne: "us = [] \<or> last us \<noteq> 0" using hd(3) by (cases us rule: rev_cases) auto
  have "dll_at (upd_list h1 l (\<lambda>r. r\<lparr>dl_size := dl_size r - 1\<rparr>)) l (us @ []) (xs @ [])"
    by (rule dll_at_remove [of h l us n "[]" xs x]) (use at ends ne hd(5) in \<open>auto simp: h1_def dl_setters fun_eq_iff\<close>)
  moreover have "dmm h1 = dmm h" by (simp add: h1_def dl_setters)
  ultimately obtain h2 where h2: "dfree ops h1 n = Some h2"
      "dlist rep (upd_list h2 l (\<lambda>r. r\<lparr>dl_size := dl_size r - 1\<rparr>)) l us xs (L(n := None))"
    using dlist_removed [of h l us n "[]" xs x "[]" L h1] assms hd(5) by auto
  have "removeLast ops h l = do { h \<leftarrow> dfree ops h1 n; Some (0, upd_list h l (\<lambda>r. r\<lparr>dl_size := dl_size r - 1\<rparr>)) }"
    using hd(2,3) dlist_nonzero [OF assms] by (auto simp: removeLast_def h1_def Let_def)
  then show ?thesis using h2 by simp
qed

lemma unlink_at:
  assumes "dll_at h l (us @ n # vs) (xs @ x # ys)" "length us = length xs"
  shows "dll_at (upd_list (unlink h l n) l (\<lambda>r. r\<lparr>dl_size := dl_size r - 1\<rparr>)) l (us @ vs) (xs @ ys) \<and> dmm (unlink h l n) = dmm h"
proof -
  note hd = dll_at_header [OF assms(1)] and ends = dll_at_ends [OF assms(1)]
  have us: "us = [] \<or> last us \<noteq> 0" using hd(3) by (cases us rule: rev_cases) auto
  have vs: "vs = [] \<or> hd vs \<noteq> 0" using hd(3) by (cases vs) auto
  have "dll_at (upd_list (unlink h l n) l (\<lambda>r. r\<lparr>dl_size := dl_size r - 1\<rparr>)) l (us @ vs) (xs @ ys)"
    by (rule dll_at_remove [of h l us n vs xs x ys])
      (use assms ends us vs in \<open>auto simp: unlink_def dl_setters fun_eq_iff\<close>)
  then show ?thesis by (simp add: unlink_def dl_setters)
qed

lemma removeElement_law:
  assumes "dlist rep h l ns xs L"
  shows "(d \<notin> set xs \<longrightarrow> removeElement ops h l d = Some (-1, h)) \<and>
    (d \<in> set xs \<longrightarrow> (\<exists>us n vs h'. ns = us @ n # vs \<and> removeElement ops h l d = Some (0, h')
       \<and> dlist rep h' l (us @ vs) (remove1 d xs) (L(n := None))))"
proof -
  have at: "dll_at h l ns xs" using assms by (simp add: dlist_def)
  have ch: "chain (dnext h) (first (dlists h l)) ns" and xs: "xs = map (ddata h) ns" using at by (auto simp: dll_at_def)
  note l0 = dlist_nonzero [OF assms] and walk = find_walk_eq [OF ch, of d]
  show ?thesis
  proof (cases "find (\<lambda>n. ddata h n = d) ns")
    case None
    then have "d \<notin> set xs" unfolding xs by (auto simp: find_None_iff)
    then show ?thesis using None walk l0 by (simp add: removeElement_def)
  next
    case (Some n)
    then obtain us vs where s: "ns = us @ n # vs" "ddata h n = d" "\<forall>u \<in> set us. ddata h u \<noteq> d" by (rule find_split)
    have n0: "n \<noteq> 0" using dll_at_header(3) [OF at] s(1) by auto
    have "d \<notin> set (map (ddata h) us)" using s(3) by auto
    then have rem: "remove1 d xs = map (ddata h) us @ map (ddata h) vs" unfolding xs s(1) by (simp add: remove1_append s(2))
    have dl: "dlist rep h l (us @ n # vs) (map (ddata h) us @ d # map (ddata h) vs) L" using assms s xs by simp
    have "dll_at h l (us @ n # vs) (map (ddata h) us @ d # map (ddata h) vs)" using dl by (simp add: dlist_def)
    note u = unlink_at [OF this length_map [symmetric]]
    from dlist_removed [OF dl length_map [symmetric] conjunct2 [OF u] conjunct1 [OF u]] obtain h2 where h2: "dfree ops (unlink h l n) n = Some h2"
        "dlist rep (upd_list h2 l (\<lambda>r. r\<lparr>dl_size := dl_size r - 1\<rparr>)) l (us @ vs) (remove1 d xs) (L(n := None))"
      unfolding rem by blast
    have "removeElement ops h l d = Some (0, upd_list h2 l (\<lambda>r. r\<lparr>dl_size := dl_size r - 1\<rparr>))"
      using Some walk l0 n0 h2(1) by (simp add: removeElement_def)
    moreover have "d \<in> set xs" unfolding xs s(1) using s(2) by auto
    ultimately show ?thesis using h2(2) s(1) by blast
  qed
qed

lemma free_cells_law:
  "rep (dmm h) L \<Longrightarrow> chain (dnext h) p ns \<Longrightarrow> distinct ns \<Longrightarrow> \<forall>n \<in> set ns. L n \<noteq> None \<Longrightarrow>
   \<exists>h'. free_cells ops h p = Some h' \<and> rep (dmm h') (L |` (- set ns))"
proof (induction ns arbitrary: h p L)
  case Nil
  then show ?case by (simp add: free_cells.simps restrict_map_def)
next
  case (Cons n ns)
  obtain k where "L n = Some k" using Cons.prems(4) by auto
  from free_law [OF Cons.prems(1) this] obtain m' where m': "mm_free ops (dmm h) n = Some m'" "rep m' (L(n := None))" by blast
  let ?h = "h\<lparr>dmm := m'\<rparr>"
  have "\<exists>h'. free_cells ops ?h (dnext h n) = Some h' \<and> rep (dmm h') (L(n := None) |` (- set ns))"
    using Cons.prems(2-4) m'(2) by (intro Cons.IH) (auto simp flip: fun_upd_def)
  moreover have "L(n := None) |` (- set ns) = L |` (- set (n # ns))" by (auto simp: restrict_map_def fun_eq_iff)
  ultimately show ?case using Cons.prems m'(1) by (subst free_cells.simps) (auto simp: dfree_def)
qed

lemma freeList_law:
  assumes "dlist rep h l ns xs L"
  shows "\<exists>h'. freeList ops h l = Some (0, h') \<and> rep (dmm h') (L |` (- insert l (set ns)))"
proof -
  have at: "dll_at h l ns xs" and live: "rep (dmm h) L" "\<forall>n \<in> set ns. L n \<noteq> None" "L l \<noteq> None" "l \<notin> set ns"
    using assms by (auto simp: dlist_def)
  obtain h1 where h1: "free_cells ops h (first (dlists h l)) = Some h1" "rep (dmm h1) (L |` (- set ns))"
    using free_cells_law [OF live(1) _ dll_at_header(4) [OF at] live(2)] at unfolding dll_at_def by blast
  obtain k where "(L |` (- set ns)) l = Some k" using live by auto
  from free_law [OF h1(2) this] obtain m' where m': "mm_free ops (dmm h1) l = Some m'" "rep m' ((L |` (- set ns))(l := None))" by blast
  moreover have "(L |` (- set ns))(l := None) = L |` (- insert l (set ns))" by (auto simp: restrict_map_def fun_eq_iff)
  ultimately show ?thesis using h1(1) dlist_nonzero [OF assms] by (simp add: freeList_def dfree_def)
qed

end

section \<open>Reading\<close>

lemma dll_reads:
  assumes "dll_at h l ns xs" "l \<noteq> 0"
  shows "getFirst h l = (if xs = [] then 0 else hd xs) \<and> getLast h l = (if xs = [] then 0 else last xs) \<and>
     getSize h l = int (length xs) \<and> isEmpty h l = (xs = [])"
proof -
  note hd = dll_at_header [OF assms(1)]
  have xs: "xs = map (ddata h) ns" and sz: "dl_size (dlists h l) = int (length xs)" using assms(1) by (auto simp: dll_at_def)
  have "ns = [] \<or> hd ns \<noteq> 0 \<and> last ns \<noteq> 0" using hd(3) by (metis hd_in_set last_in_set)
  then show ?thesis using assms(2) hd(1,2) sz
    by (auto simp: getFirst_def getLast_def getSize_def isEmpty_def xs hd_map last_map)
qed

end
