(* ===== verification/List_Properties.thy ===== *)
theory List_Properties
  imports Double_Linked_List Example_State
begin

text \<open>The contract of the doubly linked list, and a list under the buddy manager at which it is evaluated.\<close>


definition ex_dheap :: "buddy_manager dheap" where
  "ex_dheap = \<lparr>dmm = ex_mm,
     dnodes = (\<lambda>_. \<lparr>dl_data = 0, dl_next = 0, dl_prev = 0\<rparr>)
       (slot 1 := \<lparr>dl_data = 77, dl_next = slot 2, dl_prev = 0\<rparr>,
        slot 2 := \<lparr>dl_data = 88, dl_next = 0, dl_prev = slot 1\<rparr>),
     dlists = (\<lambda>_. \<lparr>first = slot 1, dl_last = slot 2, dl_size = 2\<rparr>)\<rparr>"

lemma ex_dlist: "dlist bd_rep ex_dheap (slot 0) [slot 1, slot 2] [77, 88] (bd_live ex_tiling {})"
proof -
  have "bd_rep ex_mm (bd_live ex_tiling {})" using ex_mm_inv by (auto simp: bd_rep_def)
  moreover have "slot 0 \<noteq> slot 1" "slot 0 \<noteq> slot 2" "slot 1 \<noteq> slot 2" "slot 1 \<noteq> 0" "slot 2 \<noteq> 0" by (simp_all add: slot_def)
  ultimately show ?thesis
    using ex_live [of 0] ex_live [of 1] ex_live [of 2] by (auto simp: dlist_def dll_at_def ex_dheap_def)
qed


end
