(* ===== verification/Console.thy ===== *)
theory Console
  imports Kernel_Lib
begin

text \<open>
  The screen: \<^verbatim>\<open>Kernel/drivers/videoDriver.c\<close> (pixels, squares, a pen) and
  \<^verbatim>\<open>Kernel/textModule.c\<close> (characters, the cursor, scrolling).

  The mode information that the firmware leaves at 0x5C00 is a record argument; the frame
  buffer lies in the byte memory.  Coordinates are \<^verbatim>\<open>uint64_t\<close> and wrap where the code lets
  them.  \<open>None\<close> is undefined behaviour: a glyph index outside the font table, or an overflowing
  \<^verbatim>\<open>int\<close> counter.  The lemmas say which pixels the operations change, that nothing outside the
  frame buffer is written, and that the cursor stays on the screen.
\<close>

section \<open>Video driver\<close>

text \<open>The fields of \<^verbatim>\<open>struct vbe_mode_info_structure\<close> that the driver reads.\<close>

record vbe =
  pitch :: nat
  width :: nat
  height :: nat
  bpp :: nat
  framebuffer :: addr

definition putPixel :: "vbe \<Rightarrow> mem \<Rightarrow> nat \<Rightarrow> nat \<Rightarrow> nat \<Rightarrow> mem" where
  "putPixel v m hexColor x y = (let a = framebuffer v + u64 (u64 (x * (bpp v div 8)) + u64 (y * pitch v)) in
     m(a := char_of hexColor, a + 1 := char_of (hexColor div 256), a + 2 := char_of (hexColor div 65536)))"

definition getFrameBuffer :: "vbe \<Rightarrow> addr" where "getFrameBuffer v = framebuffer v"
definition getPitch :: "vbe \<Rightarrow> nat" where "getPitch v = pitch v"
definition getWidth :: "vbe \<Rightarrow> nat" where "getWidth v = width v"
definition getHeight :: "vbe \<Rightarrow> nat" where "getHeight v = height v"

text \<open>The loops over the pixels of a rectangle count from a start to a bound.\<close>

definition clear_row :: "vbe \<Rightarrow> nat \<Rightarrow> nat \<Rightarrow> mem \<Rightarrow> mem" where
  "clear_row v color y m = fold (\<lambda>x m. putPixel v m color x y) [0..<width v] m"

definition clearScreen :: "vbe \<Rightarrow> mem \<Rightarrow> nat \<Rightarrow> mem" where
  "clearScreen v m color = fold (clear_row v color) [0..<height v] m"

text \<open>The pen of the driver, its position and colour.\<close>

record pen =
  isPenDown :: bool
  pen_x :: nat
  pen_y :: nat
  currHexColor :: nat

definition penUp :: "pen \<Rightarrow> pen" where "penUp p = p\<lparr>isPenDown := False\<rparr>"
definition penDown :: "pen \<Rightarrow> pen" where "penDown p = p\<lparr>isPenDown := True\<rparr>"
definition setColor :: "pen \<Rightarrow> nat \<Rightarrow> pen" where "setColor p color = p\<lparr>currHexColor := color\<rparr>"

definition plot :: "vbe \<Rightarrow> pen \<Rightarrow> mem \<Rightarrow> int \<Rightarrow> int \<Rightarrow> mem" where
  "plot v p m x y = (if isPenDown p then putPixel v m (currHexColor p) (to_u64 x) (to_u64 y) else m)"

function back_loop :: "(mem \<Rightarrow> int \<Rightarrow> mem) \<Rightarrow> nat \<Rightarrow> mem \<Rightarrow> int \<Rightarrow> int \<times> mem" where
  "back_loop draw lim m i = (if 0 < i \<and> lim < to_u64 i then back_loop draw lim (draw m i) (i - 1) else (i, m))"
  by pat_completeness auto
termination
  by (relation "measure (\<lambda>(d, l, m, i). nat i)") auto

function forth_loop :: "(mem \<Rightarrow> int \<Rightarrow> mem) \<Rightarrow> nat \<Rightarrow> nat \<Rightarrow> mem \<Rightarrow> int \<Rightarrow> int \<times> mem" where
  "forth_loop draw edge lim m i = (if i < int edge \<and> to_u64 i < lim then forth_loop draw edge lim (draw m i) (i + 1) else (i, m))"
  by pat_completeness auto
termination
  by (relation "measure (\<lambda>(d, e, l, m, i). nat (int e - i))") auto

definition left :: "vbe \<Rightarrow> pen \<Rightarrow> mem \<Rightarrow> nat \<Rightarrow> int \<times> pen \<times> mem" where
  "left v p m delta = (let (i, m) = back_loop (\<lambda>m i. plot v p m i (int (pen_y p))) (sub64 (pen_x p) delta) m (s32 (int (pen_x p)));
     p = p\<lparr>pen_x := to_u64 i\<rparr> in (s32 (i - (int (pen_x p) - int delta)), p, m))"

definition right :: "vbe \<Rightarrow> pen \<Rightarrow> mem \<Rightarrow> nat \<Rightarrow> int \<times> pen \<times> mem" where
  "right v p m delta = (let (i, m) = forth_loop (\<lambda>m i. plot v p m i (int (pen_y p))) (width v) (u64 (pen_x p + delta)) m (s32 (int (pen_x p)));
     p = p\<lparr>pen_x := to_u64 i\<rparr> in (s32 (int (pen_x p) + int delta - i), p, m))"

definition up :: "vbe \<Rightarrow> pen \<Rightarrow> mem \<Rightarrow> nat \<Rightarrow> int \<times> pen \<times> mem" where
  "up v p m delta = (let (j, m) = back_loop (\<lambda>m j. plot v p m (int (pen_x p)) j) (sub64 (pen_y p) delta) m (s32 (int (pen_y p)));
     p = p\<lparr>pen_y := to_u64 j\<rparr> in (s32 (int (pen_y p) - (int (pen_y p) - int delta)), p, m))"

definition down :: "vbe \<Rightarrow> pen \<Rightarrow> mem \<Rightarrow> nat \<Rightarrow> int \<times> pen \<times> mem" where
  "down v p m delta = (let (j, m) = forth_loop (\<lambda>m j. plot v p m (int (pen_x p)) j) (height v) (u64 (pen_y p + delta)) m (s32 (int (pen_y p)));
     p = p\<lparr>pen_y := to_u64 j\<rparr> in (s32 (int (pen_y p) + int delta - int (pen_y p)), p, m))"

definition setX :: "vbe \<Rightarrow> pen \<Rightarrow> nat \<Rightarrow> int \<times> pen" where
  "setX v p newX = (if newX > width v then (-1, p) else (0, p\<lparr>pen_x := newX\<rparr>))"

definition setY :: "vbe \<Rightarrow> pen \<Rightarrow> nat \<Rightarrow> int \<times> pen" where
  "setY v p newY = (if newY > height v then (-1, p) else (0, p\<lparr>pen_y := newY\<rparr>))"

text \<open>\<^verbatim>\<open>drawSquare\<close>: the inner and the outer loop, clipped at the edges of the screen.\<close>

function square_col :: "vbe \<Rightarrow> nat \<Rightarrow> nat \<Rightarrow> nat \<Rightarrow> mem \<Rightarrow> nat \<Rightarrow> nat \<times> mem" where
  "square_col v color i lim m j = (if j < lim \<and> j < height v
     then square_col v color i lim (putPixel v m color i j) (j + 1) else (j, m))"
  by pat_completeness auto
termination
  by (relation "measure (\<lambda>(v, c, i, l, m, j). l - j)") auto

function square_loop :: "vbe \<Rightarrow> nat \<Rightarrow> nat \<Rightarrow> nat \<Rightarrow> nat \<Rightarrow> mem \<Rightarrow> nat \<Rightarrow> nat \<Rightarrow> nat \<times> nat \<times> mem" where
  "square_loop v color y xlim ylim m i j = (if i < xlim \<and> i < width v
     then let (j, m) = square_col v color i ylim m y in square_loop v color y xlim ylim m (i + 1) j
     else (i, j, m))"
  by pat_completeness auto
termination
  by (relation "measure (\<lambda>(v, c, y, xl, yl, m, i, j). xl - i)") auto

definition drawSquare :: "vbe \<Rightarrow> mem \<Rightarrow> nat \<Rightarrow> nat \<Rightarrow> nat \<Rightarrow> nat \<Rightarrow> int \<times> mem" where
  "drawSquare v m x y sideLength hexColor =
     (if x > width v \<or> y > height v \<or> sideLength = 0 then (-1, m)
      else let (i, j, m) = square_loop v hexColor y (u64 (x + sideLength)) (u64 (y + sideLength)) m x y in
        (s32 (int (sideLength * sideLength) - (int i - int x) * (int j - int y)), m))"

text \<open>\<^verbatim>\<open>drawRectangle\<close> does not clip; a counter that leaves the range of \<^verbatim>\<open>int\<close> is undefined.\<close>

function rect_col :: "vbe \<Rightarrow> nat \<Rightarrow> nat \<Rightarrow> nat \<Rightarrow> mem \<Rightarrow> nat \<Rightarrow> mem option" where
  "rect_col v color i lim m j = (if j < lim then if j + 1 = 2 ^ 31 then None
     else rect_col v color i lim (putPixel v m color i j) (j + 1) else Some m)"
  by pat_completeness auto
termination
  by (relation "measure (\<lambda>(v, c, i, l, m, j). l - j)") auto

function rect_loop :: "vbe \<Rightarrow> nat \<Rightarrow> nat \<Rightarrow> nat \<Rightarrow> nat \<Rightarrow> mem \<Rightarrow> nat \<Rightarrow> mem option" where
  "rect_loop v color y xlim ylim m i = (if i < xlim then
     (case rect_col v color i ylim m y of None \<Rightarrow> None
      | Some m \<Rightarrow> if i + 1 = 2 ^ 31 then None else rect_loop v color y xlim ylim m (i + 1)) else Some m)"
  by pat_completeness auto
termination
  by (relation "measure (\<lambda>(v, c, y, xl, yl, m, i). xl - i)") auto

definition drawRectangle :: "vbe \<Rightarrow> mem \<Rightarrow> nat \<Rightarrow> nat \<Rightarrow> nat \<Rightarrow> nat \<Rightarrow> nat \<Rightarrow> (int \<times> mem) option" where
  "drawRectangle v m x y vLength hLength hexColor =
     (if x > width v \<or> y > height v \<or> vLength = 0 \<or> hLength = 0 then Some (-1, m)
      else map_option (\<lambda>m. (0, m)) (rect_loop v hexColor y (u64 (hLength + x)) (u64 (vLength + y)) m x))"

section \<open>Text module\<close>

text \<open>The glyphs, eight rows of eight bits for each of 128 characters.\<close>

definition font8x8_basic :: "nat list list" where
  "font8x8_basic =
    [[0x00, 0x00, 0x00, 0x00, 0x00, 0x00, 0x00, 0x00],
     [0x00, 0x00, 0x00, 0x00, 0x00, 0x00, 0x00, 0x00],
     [0x00, 0x00, 0x00, 0x00, 0x00, 0x00, 0x00, 0x00],
     [0x00, 0x00, 0x00, 0x00, 0x00, 0x00, 0x00, 0x00],
     [0x00, 0x00, 0x00, 0x00, 0x00, 0x00, 0x00, 0x00],
     [0x00, 0x00, 0x00, 0x00, 0x00, 0x00, 0x00, 0x00],
     [0x00, 0x00, 0x00, 0x00, 0x00, 0x00, 0x00, 0x00],
     [0x00, 0x00, 0x00, 0x00, 0x00, 0x00, 0x00, 0x00],
     [0x00, 0x00, 0x00, 0x00, 0x00, 0x00, 0x00, 0x00],
     [0x00, 0x00, 0x00, 0x00, 0x00, 0x00, 0x00, 0x00],
     [0x00, 0x00, 0x00, 0x00, 0x00, 0x00, 0x00, 0x00],
     [0x00, 0x00, 0x00, 0x00, 0x00, 0x00, 0x00, 0x00],
     [0x00, 0x00, 0x00, 0x00, 0x00, 0x00, 0x00, 0x00],
     [0x00, 0x00, 0x00, 0x00, 0x00, 0x00, 0x00, 0x00],
     [0x00, 0x00, 0x00, 0x00, 0x00, 0x00, 0x00, 0x00],
     [0x00, 0x00, 0x00, 0x00, 0x00, 0x00, 0x00, 0x00],
     [0x00, 0x00, 0x00, 0x00, 0x00, 0x00, 0x00, 0x00],
     [0x00, 0x00, 0x00, 0x00, 0x00, 0x00, 0x00, 0x00],
     [0x00, 0x00, 0x00, 0x00, 0x00, 0x00, 0x00, 0x00],
     [0x00, 0x00, 0x00, 0x00, 0x00, 0x00, 0x00, 0x00],
     [0x00, 0x00, 0x00, 0x00, 0x00, 0x00, 0x00, 0x00],
     [0x00, 0x00, 0x00, 0x00, 0x00, 0x00, 0x00, 0x00],
     [0x00, 0x00, 0x00, 0x00, 0x00, 0x00, 0x00, 0x00],
     [0x00, 0x00, 0x00, 0x00, 0x00, 0x00, 0x00, 0x00],
     [0x00, 0x00, 0x00, 0x00, 0x00, 0x00, 0x00, 0x00],
     [0x00, 0x00, 0x00, 0x00, 0x00, 0x00, 0x00, 0x00],
     [0x00, 0x00, 0x00, 0x00, 0x00, 0x00, 0x00, 0x00],
     [0x00, 0x00, 0x00, 0x00, 0x00, 0x00, 0x00, 0x00],
     [0x00, 0x00, 0x00, 0x00, 0x00, 0x00, 0x00, 0x00],
     [0x00, 0x00, 0x00, 0x00, 0x00, 0x00, 0x00, 0x00],
     [0x00, 0x00, 0x00, 0x00, 0x00, 0x00, 0x00, 0x00],
     [0x00, 0x00, 0x00, 0x00, 0x00, 0x00, 0x00, 0x00],
     [0x00, 0x00, 0x00, 0x00, 0x00, 0x00, 0x00, 0x00],
     [0x18, 0x3C, 0x3C, 0x18, 0x18, 0x00, 0x18, 0x00],
     [0x36, 0x36, 0x00, 0x00, 0x00, 0x00, 0x00, 0x00],
     [0x36, 0x36, 0x7F, 0x36, 0x7F, 0x36, 0x36, 0x00],
     [0x0C, 0x3E, 0x03, 0x1E, 0x30, 0x1F, 0x0C, 0x00],
     [0x00, 0x63, 0x33, 0x18, 0x0C, 0x66, 0x63, 0x00],
     [0x1C, 0x36, 0x1C, 0x6E, 0x3B, 0x33, 0x6E, 0x00],
     [0x06, 0x06, 0x03, 0x00, 0x00, 0x00, 0x00, 0x00],
     [0x18, 0x0C, 0x06, 0x06, 0x06, 0x0C, 0x18, 0x00],
     [0x06, 0x0C, 0x18, 0x18, 0x18, 0x0C, 0x06, 0x00],
     [0x00, 0x66, 0x3C, 0xFF, 0x3C, 0x66, 0x00, 0x00],
     [0x00, 0x0C, 0x0C, 0x3F, 0x0C, 0x0C, 0x00, 0x00],
     [0x00, 0x00, 0x00, 0x00, 0x00, 0x0C, 0x0C, 0x06],
     [0x00, 0x00, 0x00, 0x3F, 0x00, 0x00, 0x00, 0x00],
     [0x00, 0x00, 0x00, 0x00, 0x00, 0x0C, 0x0C, 0x00],
     [0x60, 0x30, 0x18, 0x0C, 0x06, 0x03, 0x01, 0x00],
     [0x3E, 0x63, 0x73, 0x7B, 0x6F, 0x67, 0x3E, 0x00],
     [0x0C, 0x0E, 0x0C, 0x0C, 0x0C, 0x0C, 0x3F, 0x00],
     [0x1E, 0x33, 0x30, 0x1C, 0x06, 0x33, 0x3F, 0x00],
     [0x1E, 0x33, 0x30, 0x1C, 0x30, 0x33, 0x1E, 0x00],
     [0x38, 0x3C, 0x36, 0x33, 0x7F, 0x30, 0x78, 0x00],
     [0x3F, 0x03, 0x1F, 0x30, 0x30, 0x33, 0x1E, 0x00],
     [0x1C, 0x06, 0x03, 0x1F, 0x33, 0x33, 0x1E, 0x00],
     [0x3F, 0x33, 0x30, 0x18, 0x0C, 0x0C, 0x0C, 0x00],
     [0x1E, 0x33, 0x33, 0x1E, 0x33, 0x33, 0x1E, 0x00],
     [0x1E, 0x33, 0x33, 0x3E, 0x30, 0x18, 0x0E, 0x00],
     [0x00, 0x0C, 0x0C, 0x00, 0x00, 0x0C, 0x0C, 0x00],
     [0x00, 0x0C, 0x0C, 0x00, 0x00, 0x0C, 0x0C, 0x06],
     [0x18, 0x0C, 0x06, 0x03, 0x06, 0x0C, 0x18, 0x00],
     [0x00, 0x00, 0x3F, 0x00, 0x00, 0x3F, 0x00, 0x00],
     [0x06, 0x0C, 0x18, 0x30, 0x18, 0x0C, 0x06, 0x00],
     [0x1E, 0x33, 0x30, 0x18, 0x0C, 0x00, 0x0C, 0x00],
     [0x3E, 0x63, 0x7B, 0x7B, 0x7B, 0x03, 0x1E, 0x00],
     [0x0C, 0x1E, 0x33, 0x33, 0x3F, 0x33, 0x33, 0x00],
     [0x3F, 0x66, 0x66, 0x3E, 0x66, 0x66, 0x3F, 0x00],
     [0x3C, 0x66, 0x03, 0x03, 0x03, 0x66, 0x3C, 0x00],
     [0x1F, 0x36, 0x66, 0x66, 0x66, 0x36, 0x1F, 0x00],
     [0x7F, 0x46, 0x16, 0x1E, 0x16, 0x46, 0x7F, 0x00],
     [0x7F, 0x46, 0x16, 0x1E, 0x16, 0x06, 0x0F, 0x00],
     [0x3C, 0x66, 0x03, 0x03, 0x73, 0x66, 0x7C, 0x00],
     [0x33, 0x33, 0x33, 0x3F, 0x33, 0x33, 0x33, 0x00],
     [0x1E, 0x0C, 0x0C, 0x0C, 0x0C, 0x0C, 0x1E, 0x00],
     [0x78, 0x30, 0x30, 0x30, 0x33, 0x33, 0x1E, 0x00],
     [0x67, 0x66, 0x36, 0x1E, 0x36, 0x66, 0x67, 0x00],
     [0x0F, 0x06, 0x06, 0x06, 0x46, 0x66, 0x7F, 0x00],
     [0x63, 0x77, 0x7F, 0x7F, 0x6B, 0x63, 0x63, 0x00],
     [0x63, 0x67, 0x6F, 0x7B, 0x73, 0x63, 0x63, 0x00],
     [0x1C, 0x36, 0x63, 0x63, 0x63, 0x36, 0x1C, 0x00],
     [0x3F, 0x66, 0x66, 0x3E, 0x06, 0x06, 0x0F, 0x00],
     [0x1E, 0x33, 0x33, 0x33, 0x3B, 0x1E, 0x38, 0x00],
     [0x3F, 0x66, 0x66, 0x3E, 0x36, 0x66, 0x67, 0x00],
     [0x1E, 0x33, 0x07, 0x0E, 0x38, 0x33, 0x1E, 0x00],
     [0x3F, 0x2D, 0x0C, 0x0C, 0x0C, 0x0C, 0x1E, 0x00],
     [0x33, 0x33, 0x33, 0x33, 0x33, 0x33, 0x3F, 0x00],
     [0x33, 0x33, 0x33, 0x33, 0x33, 0x1E, 0x0C, 0x00],
     [0x63, 0x63, 0x63, 0x6B, 0x7F, 0x77, 0x63, 0x00],
     [0x63, 0x63, 0x36, 0x1C, 0x1C, 0x36, 0x63, 0x00],
     [0x33, 0x33, 0x33, 0x1E, 0x0C, 0x0C, 0x1E, 0x00],
     [0x7F, 0x63, 0x31, 0x18, 0x4C, 0x66, 0x7F, 0x00],
     [0x1E, 0x06, 0x06, 0x06, 0x06, 0x06, 0x1E, 0x00],
     [0x03, 0x06, 0x0C, 0x18, 0x30, 0x60, 0x40, 0x00],
     [0x1E, 0x18, 0x18, 0x18, 0x18, 0x18, 0x1E, 0x00],
     [0x08, 0x1C, 0x36, 0x63, 0x00, 0x00, 0x00, 0x00],
     [0x00, 0x00, 0x00, 0x00, 0x00, 0x00, 0x00, 0xFF],
     [0x0C, 0x0C, 0x18, 0x00, 0x00, 0x00, 0x00, 0x00],
     [0x00, 0x00, 0x1E, 0x30, 0x3E, 0x33, 0x6E, 0x00],
     [0x07, 0x06, 0x06, 0x3E, 0x66, 0x66, 0x3B, 0x00],
     [0x00, 0x00, 0x1E, 0x33, 0x03, 0x33, 0x1E, 0x00],
     [0x38, 0x30, 0x30, 0x3E, 0x33, 0x33, 0x6E, 0x00],
     [0x00, 0x00, 0x1E, 0x33, 0x3F, 0x03, 0x1E, 0x00],
     [0x1C, 0x36, 0x06, 0x0F, 0x06, 0x06, 0x0F, 0x00],
     [0x00, 0x00, 0x6E, 0x33, 0x33, 0x3E, 0x30, 0x1F],
     [0x07, 0x06, 0x36, 0x6E, 0x66, 0x66, 0x67, 0x00],
     [0x0C, 0x00, 0x0E, 0x0C, 0x0C, 0x0C, 0x1E, 0x00],
     [0x30, 0x00, 0x30, 0x30, 0x30, 0x33, 0x33, 0x1E],
     [0x07, 0x06, 0x66, 0x36, 0x1E, 0x36, 0x67, 0x00],
     [0x0E, 0x0C, 0x0C, 0x0C, 0x0C, 0x0C, 0x1E, 0x00],
     [0x00, 0x00, 0x33, 0x7F, 0x7F, 0x6B, 0x63, 0x00],
     [0x00, 0x00, 0x1F, 0x33, 0x33, 0x33, 0x33, 0x00],
     [0x00, 0x00, 0x1E, 0x33, 0x33, 0x33, 0x1E, 0x00],
     [0x00, 0x00, 0x3B, 0x66, 0x66, 0x3E, 0x06, 0x0F],
     [0x00, 0x00, 0x6E, 0x33, 0x33, 0x3E, 0x30, 0x78],
     [0x00, 0x00, 0x3B, 0x6E, 0x66, 0x06, 0x0F, 0x00],
     [0x00, 0x00, 0x3E, 0x03, 0x1E, 0x30, 0x1F, 0x00],
     [0x08, 0x0C, 0x3E, 0x0C, 0x0C, 0x2C, 0x18, 0x00],
     [0x00, 0x00, 0x33, 0x33, 0x33, 0x33, 0x6E, 0x00],
     [0x00, 0x00, 0x33, 0x33, 0x33, 0x1E, 0x0C, 0x00],
     [0x00, 0x00, 0x63, 0x6B, 0x7F, 0x7F, 0x36, 0x00],
     [0x00, 0x00, 0x63, 0x36, 0x1C, 0x36, 0x63, 0x00],
     [0x00, 0x00, 0x33, 0x33, 0x33, 0x3E, 0x30, 0x1F],
     [0x00, 0x00, 0x3F, 0x19, 0x0C, 0x26, 0x3F, 0x00],
     [0x38, 0x0C, 0x0C, 0x07, 0x0C, 0x0C, 0x38, 0x00],
     [0x18, 0x18, 0x18, 0x18, 0x18, 0x18, 0x18, 0x18],
     [0x07, 0x0C, 0x0C, 0x38, 0x0C, 0x0C, 0x07, 0x00],
     [0x6E, 0x3B, 0x00, 0x00, 0x00, 0x00, 0x00, 0x00],
     [0x00, 0x00, 0x00, 0x00, 0x00, 0x00, 0x00, 0x00]]"

definition font_height :: nat where "font_height = 8"
definition font_width :: nat where "font_width = 8"

record console =
  x_pos :: nat
  y_pos :: nat
  fontSize :: nat

definition initial_console :: console where
  "initial_console = \<lparr>x_pos = 0, y_pos = 0, fontSize = 2\<rparr>"

text \<open>The pairs of counters of two nested loops from 0, the outer one first.\<close>

definition loop2 :: "nat \<Rightarrow> nat \<Rightarrow> (nat \<times> nat) list" where
  "loop2 a b = concat (map (\<lambda>i. map (\<lambda>j. (i, j)) [0..<b]) [0..<a])"

definition erase_cell :: "vbe \<Rightarrow> console \<Rightarrow> mem \<Rightarrow> mem" where
  "erase_cell v t m = fold (\<lambda>(i, j) m. snd (drawSquare v m (u64 (x_pos t + i * fontSize t)) (u64 (y_pos t + j * fontSize t)) (fontSize t) 0))
     (loop2 font_width font_height) m"

definition deleteChar :: "vbe \<Rightarrow> console \<Rightarrow> mem \<Rightarrow> console \<times> mem" where
  "deleteChar v t m = (let t =
     (if x_pos t = 0 then
        if y_pos t > 0 then t\<lparr>x_pos := sub64 (getWidth v) (u64 (font_width * fontSize t)), y_pos := sub64 (y_pos t) (u64 (fontSize t * font_height))\<rparr>
        else t
      else t\<lparr>x_pos := sub64 (x_pos t) (u64 (fontSize t * font_width))\<rparr>)
     in (t, erase_cell v t m))"

definition clearText :: "vbe \<Rightarrow> console \<Rightarrow> mem \<Rightarrow> nat \<Rightarrow> console \<times> mem" where
  "clearText v t m color = (t\<lparr>x_pos := 0, y_pos := 0\<rparr>, clearScreen v m color)"

fun copy_rows :: "vbe \<Rightarrow> nat \<Rightarrow> nat \<Rightarrow> nat \<Rightarrow> mem \<Rightarrow> mem" where
  "copy_rows v scroll_amount y 0 m = m"
| "copy_rows v scroll_amount y (Suc n) m = copy_rows v scroll_amount (y + 1) n
     (snd (memcpy m (getFrameBuffer v + y * getPitch v) (getFrameBuffer v + (y + scroll_amount) * getPitch v) (getPitch v)))"

fun blank_rows :: "vbe \<Rightarrow> nat \<Rightarrow> nat \<Rightarrow> mem \<Rightarrow> mem" where
  "blank_rows v y 0 m = m"
| "blank_rows v y (Suc n) m = blank_rows v (y + 1) n (snd (memset m (getFrameBuffer v + y * getPitch v) 0 (getPitch v)))"

definition MARGIN :: nat where "MARGIN = 0"

definition moveScreenUpIfFull :: "vbe \<Rightarrow> console \<Rightarrow> mem \<Rightarrow> (console \<times> mem) option" where
  "moveScreenUpIfFull v t m = (if y_pos t \<ge> sub64 (sub64 (getHeight v) (u64 (font_height * fontSize t))) MARGIN then
     let scroll_amount = u64 (font_height * fontSize t); rest = sub64 (getHeight v) scroll_amount in
     if rest \<ge> 2 ^ 31 then None
     else Some (t\<lparr>y_pos := sub64 (y_pos t) scroll_amount\<rparr>,
       blank_rows v rest (getHeight v - rest) (copy_rows v scroll_amount 0 rest m))
     else Some (t, m))"

definition lineFeed :: "vbe \<Rightarrow> console \<Rightarrow> mem \<Rightarrow> (console \<times> mem) option" where
  "lineFeed v t m = moveScreenUpIfFull v (t\<lparr>y_pos := u64 (y_pos t + u64 (font_height * fontSize t)), x_pos := 0\<rparr>) m"

definition draw_glyph :: "vbe \<Rightarrow> console \<Rightarrow> nat list \<Rightarrow> nat \<Rightarrow> mem \<Rightarrow> mem" where
  "draw_glyph v t g color m = fold (\<lambda>(i, j) m. if odd (g ! i div 2 ^ j)
     then snd (drawSquare v m (u64 (x_pos t + j * fontSize t)) (u64 (y_pos t + i * fontSize t)) (fontSize t) color) else m)
     (loop2 font_height font_width) m"

text \<open>\<open>char_to_print\<close> indexes the font table; the table has 128 rows.\<close>

definition print_glyph :: "vbe \<Rightarrow> console \<Rightarrow> nat \<Rightarrow> nat \<Rightarrow> mem \<Rightarrow> (console \<times> mem) option" where
  "print_glyph v t c color m = (if c < length font8x8_basic
     then Some (t\<lparr>x_pos := u64 (x_pos t + u64 (font_width * fontSize t))\<rparr>, draw_glyph v t (font8x8_basic ! c) color m) else None)"

definition putChar :: "vbe \<Rightarrow> console \<Rightarrow> mem \<Rightarrow> nat \<Rightarrow> nat \<Rightarrow> (console \<times> mem) option" where
  "putChar v t m c color =
     (if c = 10 \<or> u64 (x_pos t + u64 (font_width * fontSize t)) > getWidth v then do {
        (t, m) \<leftarrow> lineFeed v t m;
        if c = 10 then Some (t, m) else print_glyph v t c color m
      }
      else if c = 9 then print_glyph v t 32 color m
      else if c = 8 then Some (deleteChar v t m)
      else if u64 (y_pos t + u64 (font_height * fontSize t)) > getHeight v then
        (case clearText v t m 0 of (t, m) \<Rightarrow> print_glyph v t c color m)
      else print_glyph v t c color m)"

fun printStr :: "vbe \<Rightarrow> console \<Rightarrow> mem \<Rightarrow> string \<Rightarrow> nat \<Rightarrow> (console \<times> mem) option" where
  "printStr v t m [] color = Some (t, m)"
| "printStr v t m (c # cs) color = do { (t, m) \<leftarrow> putChar v t m (of_char c) color; printStr v t m cs color }"

text \<open>The digits of \<^verbatim>\<open>printInt\<close>, the lowest first, in an array of 24.\<close>

function int_digits :: "nat \<Rightarrow> nat \<Rightarrow> string" where
  "int_digits v j = (if 0 < v \<and> j < 24 then char_of (48 + v mod 10) # int_digits (v div 10) (j + 1) else [])"
  by pat_completeness auto
termination
  by (relation "measure fst") auto

definition printInt :: "vbe \<Rightarrow> console \<Rightarrow> mem \<Rightarrow> nat \<Rightarrow> nat \<Rightarrow> (console \<times> mem) option" where
  "printInt v t m val color = printStr v t m (if val = 0 then ''0'' else rev (int_digits val 0)) color"

definition TOPE_FONT :: nat where "TOPE_FONT = 5"

definition fontSizeUp :: "console \<Rightarrow> nat \<Rightarrow> nat \<times> console" where
  "fontSizeUp t increase = (if u64 (fontSize t + increase) \<le> TOPE_FONT
     then (u64 (fontSize t + increase), t\<lparr>fontSize := u64 (fontSize t + increase)\<rparr>) else (fontSize t, t))"

definition fontSizeDown :: "console \<Rightarrow> nat \<Rightarrow> nat \<times> console" where
  "fontSizeDown t decrease = (if sub64 (fontSize t) decrease \<ge> 1
     then (sub64 (fontSize t) decrease, t\<lparr>fontSize := sub64 (fontSize t) decrease\<rparr>) else (fontSize t, t))"

declare square_col.simps [simp del] square_loop.simps [simp del] rect_col.simps [simp del] rect_loop.simps [simp del]
  back_loop.simps [simp del] forth_loop.simps [simp del] int_digits.simps [simp del]

section \<open>Pixels\<close>

text \<open>The modes the driver is written for: three or more bytes per pixel, lines that hold their pixels.\<close>

definition vbe_ok :: "vbe \<Rightarrow> bool" where
  "vbe_ok v \<longleftrightarrow> 3 \<le> bpp v div 8 \<and> width v * (bpp v div 8) \<le> pitch v \<and> width v < 2 ^ 16 \<and> height v < 2 ^ 16 \<and> pitch v < 2 ^ 16"

definition offset :: "vbe \<Rightarrow> nat \<Rightarrow> nat \<Rightarrow> nat" where
  "offset v x y = x * (bpp v div 8) + y * pitch v"

definition pixel :: "vbe \<Rightarrow> mem \<Rightarrow> nat \<Rightarrow> nat \<Rightarrow> string" where
  "pixel v m x y = bytes_at m (framebuffer v + offset v x y) 3"

definition rgb :: "nat \<Rightarrow> string" where
  "rgb c = [char_of c, char_of (c div 256), char_of (c div 65536)]"

definition frame :: "vbe \<Rightarrow> addr set" where
  "frame v = {framebuffer v..<framebuffer v + height v * pitch v}"

lemma offset_in_row:
  assumes "vbe_ok v" "x < width v"
  shows "offset v x y + 3 \<le> (y + 1) * pitch v"
proof -
  have "Suc x * (bpp v div 8) \<le> width v * (bpp v div 8)" using assms by (intro mult_le_mono1) simp
  then have "x * (bpp v div 8) + 3 \<le> pitch v" using assms unfolding vbe_ok_def mult_Suc by linarith
  then show ?thesis by (simp add: offset_def)
qed

lemma offset_apart:
  assumes "vbe_ok v" "x < width v" "x' < width v" "(x, y) \<noteq> (x', y')"
  shows "offset v x y + 3 \<le> offset v x' y' \<or> offset v x' y' + 3 \<le> offset v x y"
proof -
  have row: "offset v a b + 3 \<le> offset v a' b'" if "b < b'" "a < width v" for a b a' b'
  proof -
    have "(b + 1) * pitch v \<le> b' * pitch v" using that by (intro mult_le_mono1) simp
    then show ?thesis using offset_in_row [OF assms(1) that(2), of b] by (simp add: offset_def)
  qed
  have col: "offset v a b + 3 \<le> offset v a' b" if "a < a'" for a a' b
  proof -
    have "Suc a * (bpp v div 8) \<le> a' * (bpp v div 8)" using that by (intro mult_le_mono1) simp
    then show ?thesis using assms(1) unfolding offset_def vbe_ok_def mult_Suc by linarith
  qed
  show ?thesis using row [of y y' x x'] row [of y' y x' x] col [of x x' y] col [of x' x y] assms by force
qed

lemma offset_in_frame:
  assumes "vbe_ok v" "x < width v" "y < height v"
  shows "offset v x y + 3 \<le> height v * pitch v" and "offset v x y < 2 ^ 32"
proof -
  have "(y + 1) * pitch v \<le> height v * pitch v" using assms by (intro mult_le_mono1) simp
  then show *: "offset v x y + 3 \<le> height v * pitch v" using offset_in_row [OF assms(1,2), of y] by linarith
  have "height v * pitch v \<le> 65535 * 65535" using assms by (intro mult_le_mono) (auto simp: vbe_ok_def)
  then show "offset v x y < 2 ^ 32" using * by simp
qed

lemma putPixel_put:
  assumes "vbe_ok v" "x < width v" "y < height v"
  shows "putPixel v m c x y = put m (framebuffer v + offset v x y) (rgb c)"
proof -
  have "offset v x y < 2 ^ 64" using offset_in_frame(2) [OF assms] by simp
  then have "u64 (u64 (x * (bpp v div 8)) + u64 (y * pitch v)) = offset v x y"
    by (simp add: offset_def u64_def)
  then show ?thesis by (simp add: putPixel_def rgb_def put_Cons Let_def)
qed

lemma pixel_putPixel:
  assumes "vbe_ok v" "x < width v" "y < height v" "px < width v"
  shows "pixel v (putPixel v m c x y) px py = (if px = x \<and> py = y then rgb c else pixel v m px py)"
proof (cases "px = x \<and> py = y")
  case True
  have "length (rgb c) = 3" by (simp add: rgb_def)
  then have "bytes_at (put m (framebuffer v + offset v x y) (rgb c)) (framebuffer v + offset v x y) 3 = rgb c"
    using bytes_at_put [of m "framebuffer v + offset v x y" "rgb c"] by metis
  then show ?thesis using True unfolding putPixel_put [OF assms(1-3)] pixel_def by simp
next
  case False
  then have "offset v x y + 3 \<le> offset v px py \<or> offset v px py + 3 \<le> offset v x y"
    using offset_apart [OF assms(1,2,4), of y py] by auto
  then show ?thesis unfolding putPixel_put [OF assms(1-3)] pixel_def using False
    by (subst bytes_at_put_disjoint) (auto simp: rgb_def)
qed

lemma putPixel_outside:
  assumes "vbe_ok v" "x < width v" "y < height v" "a \<notin> frame v"
  shows "putPixel v m c x y a = m a"
  unfolding putPixel_put [OF assms(1-3)]
  using assms(4) offset_in_frame(1) [OF assms(1-3)] by (intro put_apply_out) (auto simp: frame_def rgb_def)

text \<open>\<open>paints v m m' P c\<close>: from \<open>m\<close> to \<open>m'\<close> the pixels in \<open>P\<close> got the colour \<open>c\<close>, and nothing else changed.\<close>

definition paints :: "vbe \<Rightarrow> mem \<Rightarrow> mem \<Rightarrow> (nat \<Rightarrow> nat \<Rightarrow> bool) \<Rightarrow> nat \<Rightarrow> bool" where
  "paints v m m' P c \<longleftrightarrow>
     (\<forall>px < width v. \<forall>py < height v. pixel v m' px py = (if P px py then rgb c else pixel v m px py)) \<and>
     (\<forall>a. a \<notin> frame v \<longrightarrow> m' a = m a)"

lemma paints_refl: "(\<And>px py. px < width v \<Longrightarrow> py < height v \<Longrightarrow> \<not> P px py) \<Longrightarrow> paints v m m P c"
  by (simp add: paints_def)

lemma paints_trans:
  "paints v m m1 P c \<Longrightarrow> paints v m1 m2 Q c \<Longrightarrow> paints v m m2 (\<lambda>px py. P px py \<or> Q px py) c"
  by (simp add: paints_def)

lemma paints_cong:
  "paints v m m' P c \<Longrightarrow> (\<And>px py. px < width v \<Longrightarrow> py < height v \<Longrightarrow> P px py \<longleftrightarrow> Q px py) \<Longrightarrow> paints v m m' Q c"
  by (simp add: paints_def)

lemma paints_fold:
  "(\<And>x m. x \<in> set xs \<Longrightarrow> paints v m (f x m) (P x) c) \<Longrightarrow> paints v m (fold f xs m) (\<lambda>px py. \<exists>x \<in> set xs. P x px py) c"
proof (induction xs arbitrary: m)
  case (Cons x xs)
  have "paints v m (f x m) (P x) c" "paints v (f x m) (fold f xs (f x m)) (\<lambda>px py. \<exists>y \<in> set xs. P y px py) c"
    using Cons by auto
  from paints_trans [OF this] show ?case by simp
qed (simp add: paints_refl)

lemma paints_putPixel:
  "vbe_ok v \<Longrightarrow> x < width v \<Longrightarrow> y < height v \<Longrightarrow> paints v m (putPixel v m c x y) (\<lambda>px py. px = x \<and> py = y) c"
  by (simp add: paints_def pixel_putPixel putPixel_outside)

lemma paints_clearScreen:
  assumes "vbe_ok v"
  shows "paints v m (clearScreen v m c) (\<lambda>px py. True) c"
proof -
  have row: "paints v m (clear_row v c y m) (\<lambda>px py. \<exists>x \<in> set [0..<width v]. px = x \<and> py = y) c" if "y < height v" for y m
    unfolding clear_row_def using that assms by (intro paints_fold paints_putPixel) auto
  have "paints v m (clearScreen v m c) (\<lambda>px py. \<exists>y \<in> set [0..<height v]. \<exists>x \<in> set [0..<width v]. px = x \<and> py = y) c"
    unfolding clearScreen_def using row by (intro paints_fold) auto
  then show ?thesis by (rule paints_cong) auto
qed

lemma square_col_spec:
  assumes "vbe_ok v" "i < width v"
  shows "fst (square_col v c i lim m j) = max j (min lim (height v))
     \<and> paints v m (snd (square_col v c i lim m j)) (\<lambda>px py. px = i \<and> j \<le> py \<and> py < lim) c"
  using assms
proof (induction v c i lim m j rule: square_col.induct)
  case (1 v c i lim m j)
  show ?case
  proof (cases "j < lim \<and> j < height v")
    case True
    have "paints v m (snd (square_col v c i lim (putPixel v m c i j) (j + 1)))
        (\<lambda>px py. (px = i \<and> py = j) \<or> (px = i \<and> j + 1 \<le> py \<and> py < lim)) c"
      using 1 True by (intro paints_trans [OF paints_putPixel]) auto
    then have "paints v m (snd (square_col v c i lim (putPixel v m c i j) (j + 1))) (\<lambda>px py. px = i \<and> j \<le> py \<and> py < lim) c"
      by (rule paints_cong) (use True in auto)
    then show ?thesis using 1 True by (subst (1 2) square_col.simps) simp
  next
    case False
    then show ?thesis by (subst (1 2) square_col.simps) (auto intro: paints_refl)
  qed
qed

lemma square_loop_spec:
  assumes "vbe_ok v"
  shows "case square_loop v c y xlim ylim m i j of (i', j', m') \<Rightarrow>
     i' = max i (min xlim (width v)) \<and> j' = (if i < xlim \<and> i < width v then max y (min ylim (height v)) else j)
     \<and> paints v m m' (\<lambda>px py. i \<le> px \<and> px < xlim \<and> y \<le> py \<and> py < ylim) c"
  using assms
proof (induction v c y xlim ylim m i j rule: square_loop.induct)
  case (1 v c y xlim ylim m i j)
  show ?case
  proof (cases "i < xlim \<and> i < width v")
    case True
    obtain j1 m1 where col: "square_col v c i ylim m y = (j1, m1)" by fastforce
    have j1: "j1 = max y (min ylim (height v))" and p1: "paints v m m1 (\<lambda>px py. px = i \<and> y \<le> py \<and> py < ylim) c"
      using square_col_spec [where v = v and i = i and c = c and lim = ylim and m = m and j = y] 1(2) True col by auto
    obtain i2 j2 m2 where rest: "square_loop v c y xlim ylim m1 (i + 1) j1 = (i2, j2, m2)" by (metis prod_cases3)
    have ih: "i2 = max (i + 1) (min xlim (width v))" "j2 = j1"
        "paints v m1 m2 (\<lambda>px py. i + 1 \<le> px \<and> px < xlim \<and> y \<le> py \<and> py < ylim) c"
      using 1(1) [OF True col [symmetric] refl 1(2)] rest j1 by (auto split: if_splits)
    have "paints v m m2 (\<lambda>px py. i \<le> px \<and> px < xlim \<and> y \<le> py \<and> py < ylim) c"
      by (rule paints_cong [OF paints_trans [OF p1 ih(3)]]) (use True in auto)
    then show ?thesis using True col rest ih(1,2) j1 by (subst square_loop.simps) auto
  next
    case False
    then show ?thesis by (subst square_loop.simps) (auto intro: paints_refl)
  qed
qed

text \<open>A square is painted as far as it lies on the screen; the result counts the missing pixels.\<close>

lemma drawSquare_spec:
  assumes "vbe_ok v" "x \<le> width v" "y \<le> height v" "0 < s" "s < 2 ^ 15"
  shows "fst (drawSquare v m x y s c) = int (s * s) - int (min s (width v - x) * min s (height v - y))
     \<and> paints v m (snd (drawSquare v m x y s c)) (\<lambda>px py. x \<le> px \<and> px < x + s \<and> y \<le> py \<and> py < y + s) c"
proof -
  have small: "u64 (x + s) = x + s" "u64 (y + s) = y + s" using assms by (auto simp: vbe_ok_def u64_def)
  obtain i j m' where sq: "square_loop v c y (x + s) (y + s) m x y = (i, j, m')" by (metis prod_cases3)
  have r: "i = max x (min (x + s) (width v))" "j = (if x < width v then max y (min (y + s) (height v)) else y)"
      "paints v m m' (\<lambda>px py. x \<le> px \<and> px < x + s \<and> y \<le> py \<and> py < y + s) c"
    using square_loop_spec [OF assms(1), where c = c and y = y and xlim = "x + s" and ylim = "y + s" and m = m and i = x and j = y] sq assms(4) by auto
  have i: "int i - int x = int (min s (width v - x))" using r(1) assms by auto
  have j: "(int i - int x) * (int j - int y) = int (min s (width v - x) * min s (height v - y))"
  proof (cases "x < width v")
    case True
    then have "int j - int y = int (min s (height v - y))" using r(2) assms by auto
    then show ?thesis using i by simp
  qed (use i r(1) assms(2) in simp)
  have "s * s \<le> 32767 * 32767" using assms(5) by (intro mult_le_mono) auto
  moreover have "min s (width v - x) * min s (height v - y) \<le> s * s" by (intro mult_le_mono) auto
  ultimately have "s32 (int (s * s) - int (min s (width v - x) * min s (height v - y))) = int (s * s) - int (min s (width v - x) * min s (height v - y))"
    by (intro s32_small) linarith+
  then show ?thesis using assms r(3) by (simp add: drawSquare_def small sq j)
qed

lemmas paints_drawSquare = drawSquare_spec [THEN conjunct2]

section \<open>Characters\<close>

lemma length_font: "length font8x8_basic = 128"
  by (simp add: font8x8_basic_def)

lemma set_loop2 [simp]: "set (loop2 a b) = {0..<a} \<times> {0..<b}"
  by (auto simp: loop2_def)

text \<open>The square of a cell is the set of pixels whose offset from the corner divides to its index.\<close>

lemma cell_div: "0 < f \<Longrightarrow> x + i * f \<le> p \<and> p < x + i * f + f \<longleftrightarrow> x \<le> p \<and> (p - x) div f = (i :: nat)"
proof (cases "x \<le> p")
  case True
  assume f: "0 < f"
  obtain d where d: "p = x + d" using True nat_le_iff_add by auto
  have "d div f = i \<longleftrightarrow> i * f \<le> d \<and> d < i * f + f"
    using f by (metis add.commute div_nat_eqI dividend_less_times_div mult.commute mult_Suc times_div_less_eq_dividend)
  then show ?thesis by (simp add: d)
qed auto

text \<open>A cell of the console that lies on the screen.\<close>

definition cell_ok :: "vbe \<Rightarrow> console \<Rightarrow> bool" where
  "cell_ok v t \<longleftrightarrow> vbe_ok v \<and> 1 \<le> fontSize t \<and> fontSize t \<le> TOPE_FONT \<and>
     x_pos t + 8 * fontSize t \<le> width v \<and> y_pos t + 8 * fontSize t \<le> height v"

definition in_cell :: "console \<Rightarrow> nat \<Rightarrow> nat \<Rightarrow> bool" where
  "in_cell t px py \<longleftrightarrow> x_pos t \<le> px \<and> px < x_pos t + 8 * fontSize t \<and> y_pos t \<le> py \<and> py < y_pos t + 8 * fontSize t"

lemma cell_square:
  assumes "cell_ok v t" "i < 8" "j < 8"
  shows "paints v m (snd (drawSquare v m (u64 (x_pos t + i * fontSize t)) (u64 (y_pos t + j * fontSize t)) (fontSize t) c))
    (\<lambda>px py. x_pos t \<le> px \<and> (px - x_pos t) div fontSize t = i \<and> y_pos t \<le> py \<and> (py - y_pos t) div fontSize t = j) c"
proof -
  let ?x = "x_pos t + i * fontSize t" and ?y = "y_pos t + j * fontSize t"
  have "i * fontSize t \<le> 8 * fontSize t" "j * fontSize t \<le> 8 * fontSize t" using assms by (auto intro: mult_le_mono1)
  then have xy: "?x \<le> width v" "?y \<le> height v" using assms(1) unfolding cell_ok_def by linarith+
  have b: "?x \<le> width v" "?y \<le> height v" "width v < 2 ^ 16" "height v < 2 ^ 16" "vbe_ok v" "0 < fontSize t" "fontSize t < 2 ^ 15"
    using assms(1) by (auto simp: cell_ok_def vbe_ok_def TOPE_FONT_def intro: xy)
  then have "u64 ?x = ?x" "u64 ?y = ?y" by (auto simp: u64_def)
  then have "paints v m (snd (drawSquare v m (u64 ?x) (u64 ?y) (fontSize t) c))
      (\<lambda>px py. ?x \<le> px \<and> px < ?x + fontSize t \<and> ?y \<le> py \<and> py < ?y + fontSize t) c"
    using paints_drawSquare [OF b(5) b(1) b(2) b(6) b(7)] by simp
  then show ?thesis
    by (rule paints_cong) (use cell_div [OF b(6)] in blast)
qed

lemma in_cell_div:
  "0 < fontSize t \<Longrightarrow> in_cell t px py \<longleftrightarrow> x_pos t \<le> px \<and> (px - x_pos t) div fontSize t < 8 \<and> y_pos t \<le> py \<and> (py - y_pos t) div fontSize t < 8"
  by (auto simp: in_cell_def div_less_iff_less_mult)

lemma paints_erase_cell:
  assumes "cell_ok v t"
  shows "paints v m (erase_cell v t m) (in_cell t) 0"
proof -
  have "paints v m (erase_cell v t m) (\<lambda>px py. \<exists>ij \<in> set (loop2 font_width font_height).
     x_pos t \<le> px \<and> (px - x_pos t) div fontSize t = fst ij \<and> y_pos t \<le> py \<and> (py - y_pos t) div fontSize t = snd ij) 0"
    unfolding erase_cell_def using assms
    by (intro paints_fold) (auto simp: font_width_def font_height_def intro: cell_square)
  then show ?thesis
    by (rule paints_cong) (use assms in \<open>auto simp: in_cell_div cell_ok_def font_width_def font_height_def\<close>)
qed

text \<open>The pixels of a cell that a glyph sets.\<close>

definition glyph_pixel :: "console \<Rightarrow> nat list \<Rightarrow> nat \<Rightarrow> nat \<Rightarrow> bool" where
  "glyph_pixel t g px py \<longleftrightarrow> in_cell t px py \<and> odd (g ! ((py - y_pos t) div fontSize t) div 2 ^ ((px - x_pos t) div fontSize t))"

lemma paints_draw_glyph:
  assumes "cell_ok v t"
  shows "paints v m (draw_glyph v t g c m) (glyph_pixel t g) c"
proof -
  have "paints v m (draw_glyph v t g c m) (\<lambda>px py. \<exists>ij \<in> set (loop2 font_height font_width).
     odd (g ! fst ij div 2 ^ snd ij) \<and> x_pos t \<le> px \<and> (px - x_pos t) div fontSize t = snd ij \<and> y_pos t \<le> py \<and> (py - y_pos t) div fontSize t = fst ij) c"
    unfolding draw_glyph_def
  proof (intro paints_fold)
    fix ij m assume "ij \<in> set (loop2 font_height font_width)"
    then obtain i j where ij: "ij = (i, j)" "i < 8" "j < 8" by (auto simp: font_width_def font_height_def)
    then show "paints v m ((case ij of (i, j) \<Rightarrow> \<lambda>m. if odd (g ! i div 2 ^ j)
       then snd (drawSquare v m (u64 (x_pos t + j * fontSize t)) (u64 (y_pos t + i * fontSize t)) (fontSize t) c) else m) m)
      (\<lambda>px py. odd (g ! fst ij div 2 ^ snd ij) \<and> x_pos t \<le> px \<and> (px - x_pos t) div fontSize t = snd ij
        \<and> y_pos t \<le> py \<and> (py - y_pos t) div fontSize t = fst ij) c"
      using cell_square [OF assms ij(3,2), of m c] by (auto intro: paints_refl)
  qed
  then show ?thesis
    by (rule paints_cong) (use assms in \<open>auto simp: glyph_pixel_def in_cell_div cell_ok_def font_width_def font_height_def\<close>)
qed

section \<open>Scrolling\<close>

lemma copy_rows_eq:
  assumes "0 < s"
  shows "copy_rows v s y n m = (\<lambda>a. if framebuffer v + y * pitch v \<le> a \<and> a < framebuffer v + (y + n) * pitch v then m (a + s * pitch v) else m a)"
proof (induction n arbitrary: y m)
  case (Suc n)
  let ?d = "framebuffer v + y * pitch v" and ?s = "framebuffer v + (y + s) * pitch v"
  let ?m = "put m ?d (bytes_at m ?s (pitch v))"
  have s: "?s = ?d + s * pitch v" by (simp add: algebra_simps)
  have le: "pitch v \<le> s * pitch v" using assms by (cases s) auto
  have step: "copy_rows v s y (Suc n) m = copy_rows v s (y + 1) n ?m"
    by (simp add: getFrameBuffer_def getPitch_def memcpy_put)
  have m1: "?m a = (if ?d \<le> a \<and> a < ?d + pitch v then m (a + s * pitch v) else m a)" for a
  proof (cases "?d \<le> a \<and> a < ?d + pitch v")
    case True
    then have "a - ?d < pitch v" "?d + s * pitch v + (a - ?d) = a + s * pitch v" by linarith+
    then have "bytes_at m ?s (pitch v) ! (a - ?d) = m (a + s * pitch v)"
      unfolding s bytes_at_def by (subst nth_map) (simp_all only: length_upt nth_upt diff_zero add_0)
    then show ?thesis using True by (simp add: put_def)
  qed (auto simp: put_def)
  have m2: "?m (a + s * pitch v) = m (a + s * pitch v)" if "?d + pitch v \<le> a" for a
    using m1 [of "a + s * pitch v"] that by simp
  define m' where "m' = ?m"
  have rows: "(y + 1) * pitch v = y * pitch v + pitch v" "(y + 1 + n) * pitch v = y * pitch v + pitch v + n * pitch v"
      "(y + Suc n) * pitch v = y * pitch v + pitch v + n * pitch v"
    by (simp_all add: algebra_simps)
  show ?case unfolding step Suc.IH m'_def [symmetric] rows
  proof (rule ext)
    fix a
    show "(if framebuffer v + (y * pitch v + pitch v) \<le> a \<and> a < framebuffer v + (y * pitch v + pitch v + n * pitch v) then m' (a + s * pitch v) else m' a) =
        (if framebuffer v + y * pitch v \<le> a \<and> a < framebuffer v + (y * pitch v + pitch v + n * pitch v) then m (a + s * pitch v) else m a)"
      using m1 [of a, folded m'_def] m2 [of a, folded m'_def] by (simp add: add.assoc)
  qed
qed (auto simp: fun_eq_iff)

lemma blank_rows_eq:
  "blank_rows v y n m = (\<lambda>a. if framebuffer v + y * pitch v \<le> a \<and> a < framebuffer v + (y + n) * pitch v then NUL else m a)"
proof (induction n arbitrary: y m)
  case (Suc n)
  have "(char_of (0 :: int)) = NUL" by (simp add: char_of_def)
  then have "blank_rows v y (Suc n) m = blank_rows v (y + 1) n (\<lambda>a. if framebuffer v + y * pitch v \<le> a \<and> a < framebuffer v + y * pitch v + pitch v then NUL else m a)"
    by (simp add: getFrameBuffer_def getPitch_def memset_def memset_loop_put put_replicate)
  then show ?case unfolding Suc.IH by (auto simp: fun_eq_iff algebra_simps)
qed (auto simp: fun_eq_iff)

lemma offset_add_row: "offset v x (y + s) = offset v x y + s * pitch v"
  by (simp add: offset_def algebra_simps)

text \<open>The effect of a line feed: without room below, the rows move up by one text line.\<close>

definition scrolled :: "vbe \<Rightarrow> nat \<Rightarrow> mem \<Rightarrow> mem \<Rightarrow> bool" where
  "scrolled v s m m' \<longleftrightarrow> (\<forall>px < width v. \<forall>py < height v.
      pixel v m' px py = (if py < height v - s then pixel v m px (py + s) else rgb 0)) \<and> (\<forall>a. a \<notin> frame v \<longrightarrow> m' a = m a)"

lemma rgb_0: "rgb 0 = [NUL, NUL, NUL]"
  by (simp add: rgb_def char_of_def)

lemma scroll_rows:
  assumes "vbe_ok v" "0 < s" "s \<le> height v"
  shows "scrolled v s m (blank_rows v (height v - s) s (copy_rows v s 0 (height v - s) m))"
proof -
  let ?k = "(height v - s) * pitch v"
  let ?m = "blank_rows v (height v - s) s (copy_rows v s 0 (height v - s) m)"
  have k: "height v * pitch v = ?k + s * pitch v" using assms(3) by (simp flip: add_mult_distrib)
  have m: "?m (framebuffer v + a) = (if a < ?k then m (framebuffer v + a + s * pitch v) else if a < ?k + s * pitch v then NUL else m (framebuffer v + a))" for a
    using assms(3) k by (auto simp: blank_rows_eq copy_rows_eq [OF assms(2)])
  have "pixel v ?m px py = (if py < height v - s then pixel v m px (py + s) else rgb 0)" if p: "px < width v" "py < height v" for px py
  proof (cases "py < height v - s")
    case True
    have "offset v px py + 3 \<le> ?k"
      using offset_in_row [OF assms(1) p(1), of py] True mult_le_mono1 [of "py + 1" "height v - s" "pitch v"] by simp
    then have "?m (framebuffer v + offset v px py + i) = m (framebuffer v + offset v px (py + s) + i)" if "i < 3" for i
      using m [of "offset v px py + i"] that by (simp add: offset_add_row ac_simps)
    then have "bytes_at ?m (framebuffer v + offset v px py) 3 = bytes_at m (framebuffer v + offset v px (py + s)) 3"
      unfolding bytes_at_def by (intro map_cong) auto
    then show ?thesis using True by (simp add: pixel_def)
  next
    case False
    then have "height v - s \<le> py" by simp
    from mult_le_mono1 [OF this, of "pitch v"] have "?k \<le> offset v px py" unfolding offset_def by linarith
    then have "bytes_at ?m (framebuffer v + offset v px py) 3 = [NUL, NUL, NUL]"
      using offset_in_frame(1) [OF assms(1) p] k unfolding bytes_at_def by (auto simp: add.assoc m numeral_eq_Suc)
    then show ?thesis using False by (simp add: pixel_def rgb_0)
  qed
  moreover have "?m a = m a" if "a \<notin> frame v" for a
    using that k assms(3) by (auto simp: blank_rows_eq copy_rows_eq [OF assms(2)] frame_def)
  ultimately show ?thesis by (simp add: scrolled_def)
qed

lemma lineFeed_eq:
  assumes "vbe_ok v" "1 \<le> fontSize t" "fontSize t \<le> TOPE_FONT" "y_pos t + 8 * fontSize t \<le> height v"
  shows "(height v - 8 * fontSize t \<le> y_pos t + 8 * fontSize t \<longrightarrow>
      (\<exists>m'. lineFeed v t m = Some (t\<lparr>x_pos := 0\<rparr>, m') \<and> scrolled v (8 * fontSize t) m m')) \<and>
     (y_pos t + 8 * fontSize t < height v - 8 * fontSize t \<longrightarrow>
      lineFeed v t m = Some (t\<lparr>x_pos := 0, y_pos := y_pos t + 8 * fontSize t\<rparr>, m))"
proof -
  let ?h = "8 * fontSize t"
  have h: "height v < 2 ^ 16" using assms by (simp add: vbe_ok_def)
  have w: "u64 (font_height * fontSize t) = ?h" "u64 (y_pos t + ?h) = y_pos t + ?h"
      "sub64 (height v - ?h) MARGIN = height v - ?h" "sub64 (getHeight v) ?h = height v - ?h"
    using assms h by (auto simp: u64_def font_height_def TOPE_FONT_def sub64_def getHeight_def MARGIN_def)
  have n: "getHeight v - (height v - ?h) = ?h" "\<not> 2 ^ 31 \<le> height v - ?h" "sub64 (y_pos t + ?h) ?h = y_pos t"
    using assms h by (auto simp: getHeight_def sub64_def)
  have "scrolled v ?h m (blank_rows v (height v - ?h) ?h (copy_rows v ?h 0 (height v - ?h) m))"
    using assms by (intro scroll_rows) auto
  then show ?thesis
    using n(2) by (auto simp: lineFeed_def moveScreenUpIfFull_def w n(1,3) Let_def)
qed

section \<open>The cursor\<close>

text \<open>The cursor is on the grid of a font size that divides the width of the screen.\<close>

definition text_ok :: "vbe \<Rightarrow> console \<Rightarrow> bool" where
  "text_ok v t \<longleftrightarrow> vbe_ok v \<and> 1 \<le> fontSize t \<and> fontSize t \<le> TOPE_FONT \<and> 0 < width v \<and> 8 * fontSize t dvd width v \<and>
     8 * fontSize t dvd x_pos t \<and> 8 * fontSize t dvd y_pos t \<and> x_pos t \<le> width v \<and> y_pos t + 8 * fontSize t \<le> height v"

lemma text_ok_width: "text_ok v t \<Longrightarrow> 8 * fontSize t \<le> width v"
  by (auto simp: text_ok_def intro: dvd_imp_le)

lemma text_ok_small:
  assumes "text_ok v t"
  shows "u64 (font_width * fontSize t) = 8 * fontSize t" "u64 (font_height * fontSize t) = 8 * fontSize t" "u64 (fontSize t * font_width) = 8 * fontSize t"
    "u64 (fontSize t * font_height) = 8 * fontSize t" "u64 (x_pos t + 8 * fontSize t) = x_pos t + 8 * fontSize t" "u64 (y_pos t + 8 * fontSize t) = y_pos t + 8 * fontSize t"
  using assms by (auto simp: text_ok_def vbe_ok_def u64_def font_width_def font_height_def TOPE_FONT_def mult.commute)

lemma print_glyph_ok:
  assumes "text_ok v t" "x_pos t + 8 * fontSize t \<le> width v" "c < 128"
  shows "\<exists>m'. print_glyph v t c color m = Some (t\<lparr>x_pos := x_pos t + 8 * fontSize t\<rparr>, m')
     \<and> paints v m m' (glyph_pixel t (font8x8_basic ! c)) color \<and> text_ok v (t\<lparr>x_pos := x_pos t + 8 * fontSize t\<rparr>)"
proof -
  have "cell_ok v t" using assms by (simp add: cell_ok_def text_ok_def)
  from paints_draw_glyph [OF this] show ?thesis
    using assms text_ok_small [OF assms(1)] by (simp add: print_glyph_def length_font text_ok_def)
qed

lemma lineFeed_ok:
  assumes "text_ok v t"
  shows "\<exists>t' m'. lineFeed v t m = Some (t', m') \<and> text_ok v t' \<and> x_pos t' = 0 \<and> fontSize t' = fontSize t \<and> (\<forall>a. a \<notin> frame v \<longrightarrow> m' a = m a)"
proof (cases "height v - 8 * fontSize t \<le> y_pos t + 8 * fontSize t")
  case True
  then obtain m' where "lineFeed v t m = Some (t\<lparr>x_pos := 0\<rparr>, m')" "scrolled v (8 * fontSize t) m m'"
    using lineFeed_eq [of v t m] assms by (auto simp: text_ok_def)
  then show ?thesis using assms by (auto simp: text_ok_def scrolled_def)
next
  case False
  then have "lineFeed v t m = Some (t\<lparr>x_pos := 0, y_pos := y_pos t + 8 * fontSize t\<rparr>, m)"
    using lineFeed_eq [of v t m] assms by (auto simp: text_ok_def)
  then show ?thesis using assms False by (auto simp: text_ok_def)
qed

lemma deleteChar_ok:
  assumes "text_ok v t"
  shows "text_ok v (fst (deleteChar v t m)) \<and> fontSize (fst (deleteChar v t m)) = fontSize t
     \<and> paints v m (snd (deleteChar v t m)) (in_cell (fst (deleteChar v t m))) 0"
proof -
  have ge: "8 * fontSize t \<le> n" if "8 * fontSize t dvd n" "0 < n" for n using that by (rule dvd_imp_le)
  have ok: "text_ok v t' \<Longrightarrow> x_pos t' + 8 * fontSize t' \<le> width v \<Longrightarrow> paints v m (erase_cell v t' m) (in_cell t') 0" for t'
    by (rule paints_erase_cell) (simp add: cell_ok_def text_ok_def)
  consider "x_pos t = 0" "y_pos t = 0" | "x_pos t = 0" "0 < y_pos t" | "0 < x_pos t" by auto
  then show ?thesis
  proof cases
    case 1
    then show ?thesis using assms ok [OF assms] text_ok_width [OF assms] by (simp add: deleteChar_def)
  next
    case 2
    let ?t = "t\<lparr>x_pos := width v - 8 * fontSize t, y_pos := y_pos t - 8 * fontSize t\<rparr>"
    have "text_ok v ?t" using assms ge [of "y_pos t"] 2 by (auto simp: text_ok_def)
    moreover have "deleteChar v t m = (?t, erase_cell v ?t m)"
      using 2 text_ok_width [OF assms] ge [of "y_pos t"] assms
      by (simp add: deleteChar_def text_ok_small [OF assms] getWidth_def sub64_def text_ok_def Let_def)
    ultimately show ?thesis using ok [of ?t] text_ok_width [OF assms] by simp
  next
    case 3
    let ?t = "t\<lparr>x_pos := x_pos t - 8 * fontSize t\<rparr>"
    have "text_ok v ?t" using assms by (auto simp: text_ok_def)
    moreover have "deleteChar v t m = (?t, erase_cell v ?t m)"
      using 3 ge [of "x_pos t"] assms by (simp add: deleteChar_def text_ok_small [OF assms] sub64_def text_ok_def Let_def)
    ultimately show ?thesis using ok [of ?t] ge [of "x_pos t"] 3 assms by (simp add: text_ok_def)
  qed
qed

lemma putChar_ok:
  assumes "text_ok v t" "c < 128"
  shows "\<exists>t' m'. putChar v t m c color = Some (t', m') \<and> text_ok v t' \<and> fontSize t' = fontSize t \<and> (\<forall>a. a \<notin> frame v \<longrightarrow> m' a = m a)"
proof -
  note sm = text_ok_small [OF assms(1)]
  consider (feed) "c = 10 \<or> x_pos t + 8 * fontSize t > width v" | (tab) "c = 9" "x_pos t + 8 * fontSize t \<le> width v"
    | (del) "c = 8" "x_pos t + 8 * fontSize t \<le> width v" | (plain) "c \<notin> {8, 9, 10}" "x_pos t + 8 * fontSize t \<le> width v" by fastforce
  then show ?thesis
  proof cases
    case feed
    obtain t1 m1 where lf: "lineFeed v t m = Some (t1, m1)" "text_ok v t1" "x_pos t1 = 0" "fontSize t1 = fontSize t" "\<forall>a. a \<notin> frame v \<longrightarrow> m1 a = m a"
      using lineFeed_ok [OF assms(1)] by blast
    show ?thesis using feed lf print_glyph_ok [OF lf(2) _ assms(2), of color m1] text_ok_width [OF lf(2)]
      by (auto simp: putChar_def sm getWidth_def paints_def)
  next
    case tab
    then show ?thesis using print_glyph_ok [OF assms(1), of 32 color m] by (auto simp: putChar_def sm getWidth_def paints_def)
  next
    case del
    then show ?thesis using deleteChar_ok [OF assms(1), of m]
      by (cases "deleteChar v t m") (auto simp: putChar_def sm getWidth_def paints_def)
  next
    case plain
    then show ?thesis using print_glyph_ok [OF assms(1) plain(2) assms(2), of color m] assms(1)
      by (auto simp: putChar_def sm getWidth_def getHeight_def paints_def text_ok_def)
  qed
qed

lemma putChar_outside_font:
  assumes "text_ok v t" "128 \<le> c"
  shows "putChar v t m c color = None"
proof -
  obtain t1 m1 where "lineFeed v t m = Some (t1, m1)" using lineFeed_ok [OF assms(1)] by blast
  then show ?thesis using assms(2)
    by (auto simp: putChar_def print_glyph_def length_font split: prod.split)
qed

lemma printStr_ok:
  "text_ok v t \<Longrightarrow> list_all (\<lambda>c. of_char c < (128 :: nat)) cs \<Longrightarrow>
   \<exists>t' m'. printStr v t m cs color = Some (t', m') \<and> text_ok v t' \<and> fontSize t' = fontSize t \<and> (\<forall>a. a \<notin> frame v \<longrightarrow> m' a = m a)"
proof (induction cs arbitrary: t m)
  case (Cons c cs)
  obtain t1 m1 where 1: "putChar v t m (of_char c) color = Some (t1, m1)" "text_ok v t1" "fontSize t1 = fontSize t" "\<forall>a. a \<notin> frame v \<longrightarrow> m1 a = m a"
    using putChar_ok [OF Cons.prems(1), of "of_char c" m color] Cons.prems(2) by auto
  then show ?case using Cons.IH [OF 1(2), of m1] Cons.prems(2) by auto
qed auto

section \<open>The pen\<close>

definition pen_ok :: "vbe \<Rightarrow> pen \<Rightarrow> bool" where
  "pen_ok v p \<longleftrightarrow> pen_x p \<le> width v \<and> pen_y p \<le> height v"

lemma back_loop_range: "0 \<le> i \<Longrightarrow> 0 \<le> fst (back_loop d lim m i) \<and> fst (back_loop d lim m i) \<le> i"
proof (induction d lim m i rule: back_loop.induct)
  case (1 d lim m i)
  then show ?case by (cases "0 < i \<and> lim < to_u64 i") (subst (1 2) back_loop.simps, force)+
qed

lemma forth_loop_range: "i \<le> int edge \<Longrightarrow> i \<le> fst (forth_loop d edge lim m i) \<and> fst (forth_loop d edge lim m i) \<le> int edge"
proof (induction d edge lim m i rule: forth_loop.induct)
  case (1 d edge lim m i)
  then show ?case by (cases "i < int edge \<and> to_u64 i < lim") (subst (1 2) forth_loop.simps, force)+
qed

lemma to_u64_le: "0 \<le> i \<Longrightarrow> i \<le> int n \<Longrightarrow> n < 2 ^ 16 \<Longrightarrow> to_u64 i \<le> n"
  by (simp add: to_u64_nonneg nat_le_iff)

text \<open>No movement takes the pen off the screen.\<close>

lemma pen_stays_on_screen:
  assumes "vbe_ok v" "pen_ok v p"
  shows "pen_ok v (fst (snd (left v p m d)))" "pen_ok v (fst (snd (right v p m d)))" "pen_ok v (fst (snd (up v p m d)))"
    "pen_ok v (fst (snd (down v p m d)))" "pen_ok v (snd (setX v p d))" "pen_ok v (snd (setY v p d))"
proof -
  have b: "width v < 2 ^ 16" "height v < 2 ^ 16" using assms(1) by (simp_all add: vbe_ok_def)
  have s: "s32 (int (pen_x p)) = int (pen_x p)" "s32 (int (pen_y p)) = int (pen_y p)"
    using b assms(2) by (auto simp: pen_ok_def intro!: s32_small)
  have bk: "to_u64 (fst (back_loop f l m (int n))) \<le> k" if "n \<le> k" "k < 2 ^ 16" for f l n k
    using back_loop_range [of "int n" f l m] that by (intro to_u64_le) linarith+
  have fw: "to_u64 (fst (forth_loop f k l m (int n))) \<le> k" if "n \<le> k" "k < 2 ^ 16" for f l n k
    using forth_loop_range [of "int n" k f l m] that by (intro to_u64_le) linarith+
  show "pen_ok v (fst (snd (left v p m d)))" "pen_ok v (fst (snd (up v p m d)))"
    using assms(2) b bk by (auto simp: left_def up_def s pen_ok_def Let_def case_prod_unfold)
  show "pen_ok v (fst (snd (right v p m d)))" "pen_ok v (fst (snd (down v p m d)))"
    using assms(2) b fw by (auto simp: right_def down_def s pen_ok_def Let_def case_prod_unfold)
  show "pen_ok v (snd (setX v p d))" "pen_ok v (snd (setY v p d))"
    using assms(2) by (auto simp: setX_def setY_def pen_ok_def)
qed

section \<open>Properties\<close>

text \<open>A screen of 1024 times 768 pixels with three bytes each.\<close>

definition vga :: vbe where
  "vga = \<lparr>pitch = 3072, width = 1024, height = 768, bpp = 24, framebuffer = 4244635648\<rparr>"

lemma vga_ok: "vbe_ok vga"
  by (simp add: vbe_ok_def vga_def)

lemma initial_text_ok: "text_ok vga initial_console"
  by (simp add: text_ok_def vga_ok) (simp add: vga_def initial_console_def TOPE_FONT_def)

text \<open>C30. The console invariant: with a font size that divides the width, printing any text of 7-bit
  characters (new lines, tabulators and backspaces among them) returns, leaves the cursor on
  the grid inside the screen, and writes no byte outside the frame buffer; a character above
  127 reads behind the font table.\<close>

theorem text_screen_inv:
  assumes "text_ok v t"
  shows "(list_all (\<lambda>c. of_char c < (128 :: nat)) cs \<longrightarrow> (\<exists>t' m'. printStr v t m cs color = Some (t', m') \<and> text_ok v t'
       \<and> fontSize t' = fontSize t \<and> (\<forall>a. a \<notin> frame v \<longrightarrow> m' a = m a)))
     \<and> (128 \<le> c \<longrightarrow> putChar v t m c color = None)"
  using printStr_ok [OF assms] putChar_outside_font [OF assms] by blast

theorem text_screen_inv_witness:
  "\<exists>t' m'. printStr vga initial_console (\<lambda>_. NUL) [CHR ''o'', CHR ''k'', CHR 0x0A] 255 = Some (t', m') \<and> text_ok vga t'"
proof -
  have "list_all (\<lambda>c. of_char c < (128 :: nat)) [CHR ''o'', CHR ''k'', CHR 0x0A]" by simp
  then show ?thesis
    using text_screen_inv [OF initial_text_ok, of "[CHR ''o'', CHR ''k'', CHR 0x0A]" "\<lambda>_. NUL" 255 0] by blast
qed

text \<open>A printable character with room in its line appears: the pixels of its cell that the bits of
  its glyph select, scaled by the font size, get the colour, all other pixels and all bytes
  outside the frame buffer stay, and the cursor moves one cell to the right.\<close>

theorem glyph_drawn:
  assumes "text_ok v t" "x_pos t + 8 * fontSize t \<le> width v" "c < 128" "c \<notin> {8, 9, 10}"
  shows "\<exists>m'. putChar v t m c color = Some (t\<lparr>x_pos := x_pos t + 8 * fontSize t\<rparr>, m')
     \<and> paints v m m' (glyph_pixel t (font8x8_basic ! c)) color"
proof -
  have "putChar v t m c color = print_glyph v t c color m"
    using assms by (simp add: putChar_def text_ok_small [OF assms(1)] getWidth_def getHeight_def) (simp add: text_ok_def)
  then show ?thesis using print_glyph_ok [OF assms(1-3), of color m] by auto
qed

theorem glyph_drawn_witness:
  "\<exists>m'. putChar vga initial_console (\<lambda>_. NUL) 65 255 = Some (initial_console\<lparr>x_pos := 16\<rparr>, m')
     \<and> pixel vga m' 4 0 = rgb 255 \<and> pixel vga m' 8 2 = rgb 255 \<and> pixel vga m' 0 0 = pixel vga (\<lambda>_. NUL) 0 0"
proof -
  have "x_pos initial_console + 8 * fontSize initial_console \<le> width vga" by (simp add: initial_console_def vga_def)
  from glyph_drawn [OF initial_text_ok this, of 65 "\<lambda>_. NUL" 255]
  obtain m' where m': "putChar vga initial_console (\<lambda>_. NUL) 65 255 = Some (initial_console\<lparr>x_pos := 16\<rparr>, m')"
      "paints vga (\<lambda>_. NUL) m' (glyph_pixel initial_console (font8x8_basic ! 65)) 255"
    by (auto simp: initial_console_def)
  have "font8x8_basic ! 65 = [0x0C, 0x1E, 0x33, 0x33, 0x3F, 0x33, 0x33, 0x00]" by (simp add: font8x8_basic_def)
  then have "glyph_pixel initial_console (font8x8_basic ! 65) 4 0" "glyph_pixel initial_console (font8x8_basic ! 65) 8 2"
      "\<not> glyph_pixel initial_console (font8x8_basic ! 65) 0 0"
    by (simp_all add: glyph_pixel_def in_cell_def initial_console_def)
  then show ?thesis using m' by (simp add: paints_def vga_def)
qed



text \<open>The cursor leaves the grid with a font size that does not divide the width: a backspace at the
  start of a line puts it at \<^verbatim>\<open>width - 24\<close>, from where the row is erased down to column 16 and
  then wraps below zero.\<close>

theorem backspace_wraps:
  "let t = fst (deleteChar vga \<lparr>x_pos = 0, y_pos = 24, fontSize = 3\<rparr> m);
       t' = fst (deleteChar vga (t\<lparr>x_pos := x_pos t - 41 * 24\<rparr>) m)
   in x_pos t = 1000 \<and> x_pos t' = 2 ^ 64 - 8"
  by (simp add: deleteChar_def Let_def vga_def getWidth_def font_width_def font_height_def u64_def sub64_def)

end
