(* ===== verification/Syscall_Dispatcher.thy ===== *)
theory Syscall_Dispatcher
  imports Process_Lifecycle Console Kernel_Properties
begin

text \<open>
  The system calls, \<^verbatim>\<open>Kernel/syscall/syscallDispatcher.c\<close>: the handlers and the table through
  which the number of a call selects one.

  \<open>sys\<close> is the state a system call works on: the kernel, the byte memory (with the user's
  buffers and the frame buffer) and the console.  What is linked or set at boot (the memory
  manager, the address of \<^verbatim>\<open>wrapper\<close>, the video mode) is the record \<open>env\<close>.  Arguments come as
  \<^verbatim>\<open>uint64_t\<close> and are converted to the parameter types of the handler.  A call returns the value
  of its handler (\<open>Inl\<close>) or leaves its process waiting inside it (\<open>Inr\<close>, with what is left to
  do when the process runs again, \<open>syscall_resume\<close>); \<open>sp\<close> is the stack pointer at which it
  gives the processor away.  \<open>None\<close> is a fault.
\<close>

section \<open>State\<close>

record 'm env =
  eops :: "'m mm_ops"
  einfo :: "'m \<Rightarrow> addr \<Rightarrow> memInfo option"
  ewrapper :: addr
  evbe :: vbe
  frequency :: nat

record 'm sys =
  kern :: "'m kernel"
  ram :: mem
  con :: console

datatype pending = PRead nat nat addr "char option list" | PWrite nat string nat | PTicks nat int | PWaitpid addr int addr

type_synonym 'm outcome = "((int + pending) \<times> 'm sys) option"

definition CANT_SYSCALLS :: nat where "CANT_SYSCALLS = 30"

text \<open>A kernel operation as a handler.\<close>

definition on_kern :: "'m sys \<Rightarrow> ('m kernel \<Rightarrow> (int \<times> 'm kernel) option) \<Rightarrow> 'm outcome" where
  "on_kern s f = do { (r, k) \<leftarrow> f (kern s); Some (Inl r, s\<lparr>kern := k\<rparr>) }"

section \<open>Input and output\<close>

text \<open>Characters up to a byte -1 go to the screen; the counter is an \<^verbatim>\<open>int\<close>.\<close>

fun put_loop :: "vbe \<Rightarrow> addr \<Rightarrow> nat \<Rightarrow> nat \<Rightarrow> nat \<Rightarrow> console \<Rightarrow> mem \<Rightarrow> (console \<times> mem) option" where
  "put_loop v buff color i 0 t m = Some (t, m)"
| "put_loop v buff color i (Suc n) t m = (if i = 2 ^ 31 then None else if m (buff + i) = CHR 0xFF then Some (t, m)
     else do { (t, m) \<leftarrow> putChar v t m (of_char (m (buff + i))) color; put_loop v buff color (i + 1) n t m })"

definition screen_write :: "'m env \<Rightarrow> 'm sys \<Rightarrow> addr \<Rightarrow> nat \<Rightarrow> nat \<Rightarrow> 'm outcome" where
  "screen_write E s buff len color = do {
     (t, m) \<leftarrow> put_loop (evbe E) buff color 0 len (con s) (ram s);
     Some (Inl (int len), s\<lparr>con := t, ram := m\<rparr>)
   }"

text \<open>A transfer through a pipe: finished, or suspended with the rest.\<close>

definition finish_write :: "'m sys \<Rightarrow> nat \<times> rw_status \<times> string \<times> nat \<times> 'm kernel \<Rightarrow> (int + pending) \<times> 'm sys" where
  "finish_write s r = (case r of (i, Finished, _, written, k) \<Rightarrow> (Inl (int written), s\<lparr>kern := k\<rparr>)
     | (i, Suspended, rest, written, k) \<Rightarrow> (Inr (PWrite i rest written), s\<lparr>kern := k\<rparr>))"

definition pipe_write :: "'m env \<Rightarrow> 'm sys \<Rightarrow> nat \<Rightarrow> addr \<Rightarrow> nat \<Rightarrow> nat \<Rightarrow> 'm outcome" where
  "pipe_write E s fd buff len sp = (let n = s32 (int len) in
     map_option (\<lambda>r. case r of Inl (r, k) \<Rightarrow> (Inl r, s\<lparr>kern := k\<rparr>) | Inr r \<Rightarrow> finish_write s r)
       (pipeWrite (eops E) (kern s) (s32 (int fd)) buff (bytes_at (ram s) buff (nat n)) n sp))"

definition syscall_write :: "'m env \<Rightarrow> 'm sys \<Rightarrow> nat \<Rightarrow> addr \<Rightarrow> nat \<Rightarrow> nat \<Rightarrow> 'm outcome" where
  "syscall_write E s fd buff len sp =
     (let fd = (if fd = 1 then to_u64 (getCurrentStdout (kern s)) else if fd = 0 then to_u64 (getCurrentStdin (kern s)) else fd);
          color = (if fd = 1 then 0x00FFFFFF else 0x00FF0000)
      in if fd = 0 then pipe_write E s 0 buff len sp
         else if fd = 1 \<or> fd = 2 then screen_write E s buff len color
         else if fd \<ge> 3 + MAX_PIPES then Some (Inl (-1), s)
         else map_option (\<lambda>(r, s). ((case r of Inl i \<Rightarrow> if i < 0 then Inl (-1) else Inl i | Inr p \<Rightarrow> Inr p), s)) (pipe_write E s fd buff len sp))"

definition syscall_write_color :: "'m env \<Rightarrow> 'm sys \<Rightarrow> addr \<Rightarrow> nat \<Rightarrow> nat \<Rightarrow> 'm outcome" where
  "syscall_write_color E s buff len color = screen_write E s buff len (u32 color)"

definition syscall_clearScreen :: "'m env \<Rightarrow> 'm sys \<Rightarrow> 'm outcome" where
  "syscall_clearScreen E s = (case clearText (evbe E) (con s) (ram s) 0 of (t, m) \<Rightarrow> Some (Inl 0, s\<lparr>con := t, ram := m\<rparr>))"

text \<open>The bytes a read has taken, stored at the user's buffer; \<open>None\<close> leaves the byte there.\<close>

fun store_read :: "mem \<Rightarrow> addr \<Rightarrow> char option list \<Rightarrow> mem" where
  "store_read m a [] = m"
| "store_read m a (b # bs) = store_read (case b of None \<Rightarrow> m | Some c \<Rightarrow> m(a := c)) (a + 1) bs"

definition finish_read :: "'m sys \<Rightarrow> addr \<Rightarrow> nat \<Rightarrow> nat \<times> rw_status \<times> nat \<times> char option list \<times> 'm kernel \<Rightarrow> (int + pending) \<times> 'm sys" where
  "finish_read s buff seen r = (case r of (i, st, n, acc, k) \<Rightarrow>
     (case st of Finished \<Rightarrow> Inl (int (length (filter (\<lambda>b. b \<noteq> None) acc))) | Suspended \<Rightarrow> Inr (PRead i n buff acc),
      s\<lparr>kern := k, ram := store_read (ram s) (buff + seen) (drop seen acc)\<rparr>))"

definition syscall_read :: "'m env \<Rightarrow> 'm sys \<Rightarrow> nat \<Rightarrow> addr \<Rightarrow> nat \<Rightarrow> nat \<Rightarrow> 'm outcome" where
  "syscall_read E s fd str len sp = (if fd \<ge> 3 + MAX_PIPES then Some (Inl (-1), s) else
     let fd = (if fd = 0 then to_u64 (getCurrentStdin (kern s)) else fd) in
     if fd = to_u64 (-1) then Some (Inl (-1), s)
     else map_option (\<lambda>r. case r of Inl (r, k) \<Rightarrow> (Inl r, s\<lparr>kern := k\<rparr>) | Inr r \<Rightarrow> finish_read s str 0 r)
       (pipeRead (eops E) (kern s) (s32 (int fd)) str (s32 (int len)) sp))"

definition syscall_fontSizeUp :: "'m sys \<Rightarrow> nat \<Rightarrow> 'm outcome" where
  "syscall_fontSizeUp s increase = (case fontSizeUp (con s) increase of (r, t) \<Rightarrow> Some (Inl (int r), s\<lparr>con := t\<rparr>))"

definition syscall_fontSizeDown :: "'m sys \<Rightarrow> nat \<Rightarrow> 'm outcome" where
  "syscall_fontSizeDown s decrease = (case fontSizeDown (con s) decrease of (r, t) \<Rightarrow> Some (Inl (int r), s\<lparr>con := t\<rparr>))"

definition syscall_getWidth :: "'m env \<Rightarrow> 'm sys \<Rightarrow> 'm outcome" where
  "syscall_getWidth E s = Some (Inl (int (getWidth (evbe E))), s)"

definition syscall_getHeight :: "'m env \<Rightarrow> 'm sys \<Rightarrow> 'm outcome" where
  "syscall_getHeight E s = Some (Inl (int (getHeight (evbe E))), s)"

section \<open>Waiting\<close>

text \<open>One turn of the loop of \<^verbatim>\<open>wait_ticks\<close>: the processor is given away until the target is reached.\<close>

definition wait_turn :: "'m env \<Rightarrow> 'm sys \<Rightarrow> nat \<Rightarrow> int \<Rightarrow> nat \<Rightarrow> 'm outcome" where
  "wait_turn E s target r sp = (if ticks (kern s) < target
     then map_option (\<lambda>k. (Inr (PTicks target r), s\<lparr>kern := k\<rparr>)) (yield (eops E) (kern s) sp)
     else Some (Inl r, s))"

definition syscall_wait :: "'m env \<Rightarrow> 'm sys \<Rightarrow> nat \<Rightarrow> nat \<Rightarrow> 'm outcome" where
  "syscall_wait E s n sp = wait_turn E s (u64 (ticks (kern s) + n)) (int n) sp"

definition syscall_wait_seconds :: "'m env \<Rightarrow> 'm sys \<Rightarrow> nat \<Rightarrow> nat \<Rightarrow> 'm outcome" where
  "syscall_wait_seconds E s seconds sp = wait_turn E s (u64 (ticks (kern s) + u64 (seconds * frequency E))) (int seconds) sp"

section \<open>Memory\<close>

definition syscall_allocMemory :: "'m env \<Rightarrow> 'm sys \<Rightarrow> nat \<Rightarrow> 'm outcome" where
  "syscall_allocMemory E s sz = on_kern s (\<lambda>k. do { (p, k) \<leftarrow> lift_h (\<lambda>h. kalloc (eops E) h sz) k; Some (int p, k) })"

definition syscall_freeMemory :: "'m env \<Rightarrow> 'm sys \<Rightarrow> addr \<Rightarrow> 'm outcome" where
  "syscall_freeMemory E s address = on_kern s (\<lambda>k. do { k \<leftarrow> lift_hv (\<lambda>h. kfree (eops E) h address) k; Some (0, k) })"

text \<open>\<open>temp\<close> is the address of the local structure on the kernel stack.\<close>

definition syscall_memInfo :: "'m env \<Rightarrow> 'm sys \<Rightarrow> addr \<Rightarrow> addr \<Rightarrow> 'm outcome" where
  "syscall_memInfo E s user_ptr temp = (if user_ptr = 0 then Some (Inl (-1), s) else do {
     i \<leftarrow> einfo E (mm (qh (ph (kern s)))) temp;
     Some (Inl 0, s\<lparr>ram := store_le (store_le (store_le (ram s) user_ptr 8 (mi_total i)) (user_ptr + 8) 8 (mi_used i)) (user_ptr + 16) 8 (mi_free i)\<rparr>)
   })"

section \<open>Processes\<close>

definition ptr_at :: "mem \<Rightarrow> addr \<Rightarrow> addr" where "ptr_at m a = load_le m a 8"

partial_function (option) count_args :: "mem \<Rightarrow> addr \<Rightarrow> nat \<Rightarrow> nat option" where
  [code]: "count_args m argv c = (if ptr_at m (argv + 8 * c) \<noteq> 0 then count_args m argv (c + 1) else Some c)"

definition argCounter :: "mem \<Rightarrow> addr \<Rightarrow> nat option" where
  "argCounter m argv = (if argv = 0 \<or> ptr_at m argv = 0 then Some 0 else count_args m argv 0)"

text \<open>The fields of \<^verbatim>\<open>ProcessParams\<close> at their offsets.\<close>

definition syscall_create_process :: "'m env \<Rightarrow> 'm sys \<Rightarrow> addr \<Rightarrow> 'm outcome" where
  "syscall_create_process E s p = do {
     let m = ram s;
     let arg = ptr_at m (p + 24);
     argc \<leftarrow> argCounter m arg;
     (r, k, m) \<leftarrow> createProcess (eops E) (ewrapper E) (kern s) m (ptr_at m p) (ptr_at m (p + 8)) argc arg
       (s8 (int (load_le m (p + 16) 1))) (s8 (int (load_le m (p + 32) 1))) (s32 (int (load_le m (p + 36) 4))) (s32 (int (load_le m (p + 40) 4)));
     Some (Inl r, s\<lparr>kern := k, ram := m\<rparr>)
   }"

definition syscall_exit :: "'m env \<Rightarrow> 'm sys \<Rightarrow> nat \<Rightarrow> nat \<Rightarrow> 'm outcome" where
  "syscall_exit E s ret sp = on_kern s (\<lambda>k. do { (_, k) \<leftarrow> kill (eops E) k (getCurrentPid k) ret sp; Some (0, k) })"

definition syscall_getpid :: "'m sys \<Rightarrow> 'm outcome" where
  "syscall_getpid s = Some (Inl (getCurrentPid (kern s)), s)"

definition syscall_kill :: "'m env \<Rightarrow> 'm sys \<Rightarrow> int \<Rightarrow> nat \<Rightarrow> 'm outcome" where
  "syscall_kill E s p sp = on_kern s (\<lambda>k. kill (eops E) k p 9 sp)"

definition syscall_block :: "'m env \<Rightarrow> 'm sys \<Rightarrow> int \<Rightarrow> nat \<Rightarrow> 'm outcome" where
  "syscall_block E s p sp = on_kern s (\<lambda>k. blockProcess (eops E) k p sp)"

definition syscall_unblock :: "'m env \<Rightarrow> 'm sys \<Rightarrow> nat \<Rightarrow> 'm outcome" where
  "syscall_unblock E s p = on_kern s (\<lambda>k. unblockProcess (eops E) k (s32 (int p)))"

text \<open>\<^verbatim>\<open>yield\<close> has no result; the value of the register is not specified and 0 stands for it.\<close>

definition syscall_yield :: "'m env \<Rightarrow> 'm sys \<Rightarrow> nat \<Rightarrow> 'm outcome" where
  "syscall_yield E s sp = on_kern s (\<lambda>k. map_option (Pair 0) (yield (eops E) k sp))"

definition syscall_changePrio :: "'m sys \<Rightarrow> nat \<Rightarrow> int \<Rightarrow> 'm outcome" where
  "syscall_changePrio s p newPrio = on_kern s (\<lambda>k. changePrio k (s32 (int p)) newPrio)"

definition syscall_getProcessInfo :: "'m env \<Rightarrow> 'm sys \<Rightarrow> addr \<Rightarrow> 'm outcome" where
  "syscall_getProcessInfo E s cantProcesses = do {
     (info, n, k) \<leftarrow> getProcessInfo (eops E) (kern s);
     Some (Inl (int info), s\<lparr>kern := k, ram := store_le (ram s) cantProcesses 8 n\<rparr>)
   }"

definition store_status :: "mem \<Rightarrow> addr \<Rightarrow> int option \<Rightarrow> mem" where
  "store_status m a v = (case v of None \<Rightarrow> m | Some v \<Rightarrow> if a = 0 then m else store_le m a 4 (nat (v mod 2 ^ 32)))"

definition finish_waitpid :: "'m sys \<Rightarrow> int \<Rightarrow> addr \<Rightarrow> wait_status \<times> 'm kernel \<Rightarrow> (int + pending) \<times> 'm sys" where
  "finish_waitpid s p status_ptr r = (case r of
     (Returned i v, k) \<Rightarrow> (Inl i, s\<lparr>kern := k, ram := store_status (ram s) status_ptr v\<rparr>)
   | (Waiting c, k) \<Rightarrow> (Inr (PWaitpid c p status_ptr), s\<lparr>kern := k\<rparr>))"

definition syscall_waitPid :: "'m env \<Rightarrow> 'm sys \<Rightarrow> int \<Rightarrow> addr \<Rightarrow> nat \<Rightarrow> 'm outcome" where
  "syscall_waitPid E s p status_ptr sp = map_option (finish_waitpid s p status_ptr) (waitpid (eops E) (kern s) p sp)"

section \<open>Semaphores and pipes\<close>

definition syscall_sem_wait :: "'m env \<Rightarrow> 'm sys \<Rightarrow> int \<Rightarrow> nat \<Rightarrow> 'm outcome" where
  "syscall_sem_wait E s sem_id sp = (if sem_id < 0 \<or> sem_id \<ge> int NUM_SEMS then Some (Inl (-1), s)
     else on_kern s (\<lambda>k. semWait (eops E) k sem_id sp))"

definition syscall_sem_post :: "'m env \<Rightarrow> 'm sys \<Rightarrow> int \<Rightarrow> 'm outcome" where
  "syscall_sem_post E s sem_id = (if sem_id < 0 \<or> sem_id \<ge> int NUM_SEMS then Some (Inl (-1), s)
     else on_kern s (\<lambda>k. semPost (eops E) k sem_id))"

definition syscall_sem_close :: "'m env \<Rightarrow> 'm sys \<Rightarrow> int \<Rightarrow> 'm outcome" where
  "syscall_sem_close E s sem_id = (if sem_id < 0 then Some (Inl (-1), s) else on_kern s (\<lambda>k. semClose (eops E) k sem_id))"

definition syscall_sem_open :: "'m env \<Rightarrow> 'm sys \<Rightarrow> int \<Rightarrow> nat \<Rightarrow> 'm outcome" where
  "syscall_sem_open E s sem_id initial_Value = (if sem_id < 0 \<or> sem_id \<ge> int NUM_SEMS then Some (Inl (-1), s)
     else on_kern s (\<lambda>k. semInit (eops E) k sem_id (u32 initial_Value)))"

definition syscall_openPipe :: "'m env \<Rightarrow> 'm sys \<Rightarrow> 'm outcome" where
  "syscall_openPipe E s = on_kern s (createPipe (eops E))"

definition syscall_closePipe :: "'m env \<Rightarrow> 'm sys \<Rightarrow> int \<Rightarrow> 'm outcome" where
  "syscall_closePipe E s pipe_id = on_kern s (\<lambda>k. pipeClose (eops E) k pipe_id)"

definition syscall_clearPipe :: "'m env \<Rightarrow> 'm sys \<Rightarrow> int \<Rightarrow> nat \<Rightarrow> 'm outcome" where
  "syscall_clearPipe E s pipe_id sp = on_kern s (\<lambda>k. pipeClear (eops E) k pipe_id sp)"

section \<open>The dispatcher\<close>

text \<open>The table of handlers.  Entry 0 is a null pointer: calling it is a fault.\<close>

definition syscalls :: "('m env \<Rightarrow> 'm sys \<Rightarrow> nat \<Rightarrow> nat \<Rightarrow> nat \<Rightarrow> nat \<Rightarrow> 'm outcome) list" where
  "syscalls = [
     \<lambda>E s a b c sp. None,
     \<lambda>E s a b c sp. syscall_read E s a b c sp,
     \<lambda>E s a b c sp. syscall_write E s a b c sp,
     \<lambda>E s a b c sp. syscall_clearScreen E s,
     \<lambda>E s a b c sp. syscall_fontSizeUp s a,
     \<lambda>E s a b c sp. syscall_fontSizeDown s a,
     \<lambda>E s a b c sp. syscall_getHeight E s,
     \<lambda>E s a b c sp. syscall_getWidth E s,
     \<lambda>E s a b c sp. syscall_wait E s a sp,
     \<lambda>E s a b c sp. syscall_allocMemory E s a,
     \<lambda>E s a b c sp. syscall_freeMemory E s a,
     \<lambda>E s a b c sp. syscall_create_process E s a,
     \<lambda>E s a b c sp. syscall_getpid s,
     \<lambda>E s a b c sp. syscall_kill E s (s32 (int a)) sp,
     \<lambda>E s a b c sp. syscall_block E s (s32 (int a)) sp,
     \<lambda>E s a b c sp. syscall_unblock E s a,
     \<lambda>E s a b c sp. syscall_changePrio s a (s8 (int b)),
     \<lambda>E s a b c sp. syscall_getProcessInfo E s a,
     \<lambda>E s a b c sp. syscall_memInfo E s a sp,
     \<lambda>E s a b c sp. syscall_exit E s a sp,
     \<lambda>E s a b c sp. syscall_sem_open E s (s32 (int a)) b,
     \<lambda>E s a b c sp. syscall_sem_wait E s (s32 (int a)) sp,
     \<lambda>E s a b c sp. syscall_sem_post E s (s32 (int a)),
     \<lambda>E s a b c sp. syscall_sem_close E s (s32 (int a)),
     \<lambda>E s a b c sp. syscall_yield E s sp,
     \<lambda>E s a b c sp. syscall_openPipe E s,
     \<lambda>E s a b c sp. syscall_closePipe E s (s32 (int a)),
     \<lambda>E s a b c sp. syscall_clearPipe E s (s32 (int a)) sp,
     \<lambda>E s a b c sp. syscall_waitPid E s (s32 (int a)) b sp,
     \<lambda>E s a b c sp. syscall_write_color E s a b c,
     \<lambda>E s a b c sp. syscall_wait_seconds E s a sp]"

definition syscallDispatcher :: "'m env \<Rightarrow> 'm sys \<Rightarrow> nat \<Rightarrow> nat \<Rightarrow> nat \<Rightarrow> nat \<Rightarrow> nat \<Rightarrow> 'm outcome" where
  "syscallDispatcher E s syscall_number arg1 arg2 arg3 sp = (if syscall_number > CANT_SYSCALLS then Some (Inl 0, s)
     else (syscalls ! syscall_number) E s arg1 arg2 arg3 sp)"

text \<open>What a process does when it runs again inside a call.\<close>

definition syscall_resume :: "'m env \<Rightarrow> 'm sys \<Rightarrow> pending \<Rightarrow> nat \<Rightarrow> 'm outcome" where
  "syscall_resume E s p sp = (case p of
     PRead i n buff acc \<Rightarrow> map_option (\<lambda>r. finish_read s buff (length acc) (i, r)) (read_resume (eops E) i n acc (kern s) sp)
   | PWrite i rest written \<Rightarrow> map_option (\<lambda>r. finish_write s (i, r)) (write_resume (eops E) i rest written (kern s) sp)
   | PTicks target r \<Rightarrow> wait_turn E s target r sp
   | PWaitpid c p status_ptr \<Rightarrow> map_option (finish_waitpid s p status_ptr) (waitpid_resume (eops E) (kern s) c p))"

end
