(* ===== verification/User_Syscalls.thy ===== *)
theory User_Syscalls
  imports Syscall_Dispatcher
begin

text \<open>
  The user side of the system calls, \<^verbatim>\<open>Userland/SampleCodeModule/syscall.c\<close>: one function per call
  that converts its arguments to \<^verbatim>\<open>uint64_t\<close>, raises interrupt 0x80 with the number of the call
  and converts the register to its own result type.  The interrupt ends in the dispatcher of
  theory \<open>Syscall_Dispatcher\<close>, whose handlers have the same names.
\<close>

datatype syscall_number = NONE | READ | WRITE | CLEAR_SCREEN | SIZE_UP_FONT | SIZE_DOWN_FONT | GET_HEIGHT | GET_WIDTH | WAIT
  | ALLOC_MEMORY | FREE_MEMORY | CREATE_PROCESS | GETPID | KILL | BLOCK | UNBLOCK | CHANGE_PRIO | GET_PROCESS_INFO | MEM_INFO
  | EXIT | SEM_OPEN | SEM_WAIT | SEM_POST | SEM_CLOSE | YIELD | OPEN_PIPE | CLOSE_PIPE | CLEAR_PIPE | WAITPID | WRITE_COLOR | WAIT_SECONDS

text \<open>The enumeration counts from 0.\<close>

definition numbers :: "syscall_number list" where
  "numbers = [NONE, READ, WRITE, CLEAR_SCREEN, SIZE_UP_FONT, SIZE_DOWN_FONT, GET_HEIGHT, GET_WIDTH, WAIT,
     ALLOC_MEMORY, FREE_MEMORY, CREATE_PROCESS, GETPID, KILL, BLOCK, UNBLOCK, CHANGE_PRIO, GET_PROCESS_INFO, MEM_INFO,
     EXIT, SEM_OPEN, SEM_WAIT, SEM_POST, SEM_CLOSE, YIELD, OPEN_PIPE, CLOSE_PIPE, CLEAR_PIPE, WAITPID, WRITE_COLOR, WAIT_SECONDS]"

definition number :: "syscall_number \<Rightarrow> nat" where
  "number c = length (takeWhile (\<lambda>d. d \<noteq> c) numbers)"

text \<open>The machine state of a user program: the environment, the state and the stack pointer.\<close>

record 'm machine =
  menv :: "'m env"
  msys :: "'m sys"
  msp :: nat

definition syscall :: "'m machine \<Rightarrow> syscall_number \<Rightarrow> nat \<Rightarrow> nat \<Rightarrow> nat \<Rightarrow> 'm outcome" where
  "syscall M code param1 param2 param3 = syscallDispatcher (menv M) (msys M) (number code) param1 param2 param3 (msp M)"

text \<open>The conversion of the result register; a call that waits converts it later.\<close>

definition as_type :: "(int \<Rightarrow> int) \<Rightarrow> 'm outcome \<Rightarrow> 'm outcome" where
  "as_type f r = map_option (\<lambda>(r, s). (map_sum f id r, s)) r"

abbreviation u64_t :: "int \<Rightarrow> int" where "u64_t n \<equiv> int (to_u64 n)"

definition syscall_read :: "'m machine \<Rightarrow> nat \<Rightarrow> addr \<Rightarrow> nat \<Rightarrow> 'm outcome" where
  "syscall_read M fd buff len = as_type u64_t (syscall M READ fd buff len)"

definition syscall_write :: "'m machine \<Rightarrow> nat \<Rightarrow> addr \<Rightarrow> nat \<Rightarrow> 'm outcome" where
  "syscall_write M fd buff len = as_type u64_t (syscall M WRITE fd buff len)"

definition syscall_write_color :: "'m machine \<Rightarrow> addr \<Rightarrow> nat \<Rightarrow> nat \<Rightarrow> 'm outcome" where
  "syscall_write_color M buff len color = as_type u64_t (syscall M WRITE_COLOR buff len color)"

definition syscall_clearScreen :: "'m machine \<Rightarrow> 'm outcome" where
  "syscall_clearScreen M = as_type u64_t (syscall M CLEAR_SCREEN 0 0 0)"

definition syscall_sizeUpFont :: "'m machine \<Rightarrow> nat \<Rightarrow> 'm outcome" where
  "syscall_sizeUpFont M increment = as_type u64_t (syscall M SIZE_UP_FONT increment 0 0)"

definition syscall_sizeDownFont :: "'m machine \<Rightarrow> nat \<Rightarrow> 'm outcome" where
  "syscall_sizeDownFont M decrement = as_type u64_t (syscall M SIZE_DOWN_FONT decrement 0 0)"

definition syscall_getHeight :: "'m machine \<Rightarrow> 'm outcome" where
  "syscall_getHeight M = as_type u64_t (syscall M GET_HEIGHT 0 0 0)"

definition syscall_getWidth :: "'m machine \<Rightarrow> 'm outcome" where
  "syscall_getWidth M = as_type u64_t (syscall M GET_WIDTH 0 0 0)"

definition syscall_wait :: "'m machine \<Rightarrow> nat \<Rightarrow> 'm outcome" where
  "syscall_wait M n = as_type u64_t (syscall M WAIT n 0 0)"

definition syscall_allocMemory :: "'m machine \<Rightarrow> nat \<Rightarrow> 'm outcome" where
  "syscall_allocMemory M sz = as_type u64_t (syscall M ALLOC_MEMORY sz 0 0)"

definition syscall_freeMemory :: "'m machine \<Rightarrow> addr \<Rightarrow> 'm outcome" where
  "syscall_freeMemory M address = as_type s32 (syscall M FREE_MEMORY address 0 0)"

text \<open>The structure \<open>params\<close> lies on the user's stack.\<close>

definition store_params :: "mem \<Rightarrow> addr \<Rightarrow> addr \<Rightarrow> nat \<Rightarrow> addr \<Rightarrow> nat \<Rightarrow> int \<Rightarrow> int \<Rightarrow> int \<Rightarrow> mem" where
  "store_params m params nm func argv prio fg sin sout =
     store_le (store_le (store_le (store_le (store_le (store_le (store_le m params 8 nm) (params + 8) 8 func)
       (params + 16) 1 prio) (params + 24) 8 argv) (params + 32) 1 (nat (fg mod 2 ^ 8)))
       (params + 36) 4 (nat (sin mod 2 ^ 32))) (params + 40) 4 (nat (sout mod 2 ^ 32))"

definition syscall_create_process :: "'m machine \<Rightarrow> addr \<Rightarrow> addr \<Rightarrow> nat \<Rightarrow> addr \<Rightarrow> nat \<Rightarrow> int \<Rightarrow> int \<Rightarrow> int \<Rightarrow> 'm outcome" where
  "syscall_create_process M params nm func argv prio fg sin sout =
     as_type u64_t (syscall (M\<lparr>msys := (msys M)\<lparr>ram := store_params (ram (msys M)) params nm func argv prio fg sin sout\<rparr>\<rparr>)
       CREATE_PROCESS params 0 0)"

definition syscall_getpid :: "'m machine \<Rightarrow> 'm outcome" where
  "syscall_getpid M = as_type u64_t (syscall M GETPID 0 0 0)"

definition syscall_kill :: "'m machine \<Rightarrow> nat \<Rightarrow> 'm outcome" where
  "syscall_kill M p = as_type u64_t (syscall M KILL p 0 0)"

definition syscall_block :: "'m machine \<Rightarrow> nat \<Rightarrow> 'm outcome" where
  "syscall_block M p = as_type u64_t (syscall M BLOCK p 0 0)"

definition syscall_unblock :: "'m machine \<Rightarrow> nat \<Rightarrow> 'm outcome" where
  "syscall_unblock M p = as_type u64_t (syscall M UNBLOCK p 0 0)"

definition syscall_changePrio :: "'m machine \<Rightarrow> nat \<Rightarrow> int \<Rightarrow> 'm outcome" where
  "syscall_changePrio M p newPrio = as_type s8 (syscall M CHANGE_PRIO p (to_u64 newPrio) 0)"

definition syscall_getProcessInfo :: "'m machine \<Rightarrow> addr \<Rightarrow> 'm outcome" where
  "syscall_getProcessInfo M cantProcesses = as_type u64_t (syscall M GET_PROCESS_INFO cantProcesses 0 0)"

definition syscall_memInfo :: "'m machine \<Rightarrow> addr \<Rightarrow> 'm outcome" where
  "syscall_memInfo M info = as_type id (syscall M MEM_INFO info 0 0)"

definition syscall_exit :: "'m machine \<Rightarrow> 'm outcome" where
  "syscall_exit M = as_type s32 (syscall M EXIT 0 0 0)"

definition syscall_sem_open :: "'m machine \<Rightarrow> int \<Rightarrow> nat \<Rightarrow> 'm outcome" where
  "syscall_sem_open M sem_id initialValue = as_type s32 (syscall M SEM_OPEN (to_u64 sem_id) initialValue 0)"

definition syscall_sem_wait :: "'m machine \<Rightarrow> int \<Rightarrow> 'm outcome" where
  "syscall_sem_wait M sem_id = as_type s32 (syscall M SEM_WAIT (to_u64 sem_id) 0 0)"

definition syscall_sem_post :: "'m machine \<Rightarrow> int \<Rightarrow> 'm outcome" where
  "syscall_sem_post M sem_id = as_type s32 (syscall M SEM_POST (to_u64 sem_id) 0 0)"

definition syscall_sem_close :: "'m machine \<Rightarrow> int \<Rightarrow> 'm outcome" where
  "syscall_sem_close M sem_id = as_type s32 (syscall M SEM_CLOSE (to_u64 sem_id) 0 0)"

definition syscall_yield :: "'m machine \<Rightarrow> 'm outcome" where
  "syscall_yield M = as_type s32 (syscall M YIELD 0 0 0)"

definition syscall_open_pipe :: "'m machine \<Rightarrow> 'm outcome" where
  "syscall_open_pipe M = as_type s32 (syscall M OPEN_PIPE 0 0 0)"

definition syscall_close_pipe :: "'m machine \<Rightarrow> int \<Rightarrow> 'm outcome" where
  "syscall_close_pipe M pipe_id = as_type s32 (syscall M CLOSE_PIPE (to_u64 pipe_id) 0 0)"

definition syscall_clear_pipe :: "'m machine \<Rightarrow> int \<Rightarrow> 'm outcome" where
  "syscall_clear_pipe M pipe_id = as_type s32 (syscall M CLEAR_PIPE (to_u64 pipe_id) 0 0)"

definition syscall_waitpid :: "'m machine \<Rightarrow> int \<Rightarrow> addr \<Rightarrow> 'm outcome" where
  "syscall_waitpid M p st_ptr = as_type s32 (syscall M WAITPID (to_u64 p) st_ptr 0)"

definition syscall_wait_seconds :: "'m machine \<Rightarrow> nat \<Rightarrow> 'm outcome" where
  "syscall_wait_seconds M seconds = as_type u64_t (syscall M WAIT_SECONDS seconds 0 0)"

section \<open>The table and the numbers agree\<close>

lemma s32_to_u64: "s32 (int (to_u64 n)) = s32 n"
proof -
  have "(2 :: int) ^ 32 dvd 2 ^ 64" by (rule le_imp_power_dvd) simp
  then have "(n mod 2 ^ 64) mod 2 ^ 32 = n mod (2 ^ 32 :: int)" by (rule mod_mod_cancel)
  then show ?thesis by (simp add: s32_def to_u64_def)
qed

lemma s8_to_u64: "s8 (int (to_u64 n)) = s8 n"
proof -
  have "(2 :: int) ^ 8 dvd 2 ^ 64" by (rule le_imp_power_dvd) simp
  then have "(n mod 2 ^ 64) mod 2 ^ 8 = n mod (2 ^ 8 :: int)" by (rule mod_mod_cancel)
  then show ?thesis by (simp add: s8_def to_u64_def)
qed

lemma dispatch_0: "syscallDispatcher E s 0 a b c sp = None"
  by (simp add: syscallDispatcher_def syscalls_def)

lemma dispatch_unknown: "30 < n \<Longrightarrow> syscallDispatcher E s n a b c sp = Some (Inl 0, s)"
  by (simp add: syscallDispatcher_def CANT_SYSCALLS_def)

lemmas dispatch = syscall_def syscallDispatcher_def number_def numbers_def CANT_SYSCALLS_def syscalls_def s32_to_u64 s8_to_u64

section \<open>Storing and loading\<close>

lemma params_at:
  assumes "nm < 2 ^ 64" "func < 2 ^ 64" "argv < 2 ^ 64" "prio < 2 ^ 8"
  shows "ptr_at (store_params m p nm func argv prio fg sin sout) p = nm"
    "ptr_at (store_params m p nm func argv prio fg sin sout) (p + 8) = func"
    "load_le (store_params m p nm func argv prio fg sin sout) (p + 16) 1 = prio"
    "ptr_at (store_params m p nm func argv prio fg sin sout) (p + 24) = argv"
    "load_le (store_params m p nm func argv prio fg sin sout) (p + 32) 1 = nat (fg mod 2 ^ 8)"
    "load_le (store_params m p nm func argv prio fg sin sout) (p + 36) 4 = nat (sin mod 2 ^ 32)"
    "load_le (store_params m p nm func argv prio fg sin sout) (p + 40) 4 = nat (sout mod 2 ^ 32)"
  using assms unfolding store_params_def ptr_at_def
  by (simp_all add: load_store_le load_store_other del: load_le.simps store_le.simps)

end
