(* ===== verification/Process_Typing.thy ===== *)
theory Process_Typing
  imports Kernel_Properties
begin

text \<open>
  The typing of the process table: which state a process has is determined by the queue it is
  in and by whether it is the current one.  The operations of \<^verbatim>\<open>Kernel/processes/scheduler.c\<close> on
  running, ready and blocked processes (timer interrupts, yielding, blocking and unblocking by
  hand or by a semaphore) are the events of a transition system; every reachable state is typed,
  no process is lost or doubled, and no event faults.
\<close>

section \<open>Events\<close>

datatype kevent = Tick nat | Yield_ev nat | Block_ev int nat | BlockSem_ev int nat | Unblock_ev int | UnblockSem_ev int

fun run_event :: "'m mm_ops \<Rightarrow> kevent \<Rightarrow> 'm kernel \<Rightarrow> 'm kernel option" where
  "run_event ops (Tick sp) k = map_option snd (timerTick ops k sp)"
| "run_event ops (Yield_ev sp) k = yield ops k sp"
| "run_event ops (Block_ev p sp) k = map_option snd (blockProcess ops k p sp)"
| "run_event ops (BlockSem_ev p sp) k = map_option snd (blockProcessBySem ops k p sp)"
| "run_event ops (Unblock_ev p) k = map_option snd (unblockProcess ops k p)"
| "run_event ops (UnblockSem_ev p) k = map_option snd (unblockProcessBySem ops k p)"

inductive kstep :: "'m mm_ops \<Rightarrow> 'm kernel \<Rightarrow> 'm kernel \<Rightarrow> bool" for ops where
  event: "run_event ops e k = Some k' \<Longrightarrow> kstep ops k k'"

inductive_cases kstep_cases: "kstep ops k k'"

section \<open>Typing\<close>

abbreviation state_of :: "'m kernel \<Rightarrow> addr \<Rightarrow> State" where "state_of k p \<equiv> state (pcbs (ph k) p)"
abbreviation cur_of :: "'m kernel \<Rightarrow> addr" where "cur_of k \<equiv> currentProcess (pm_of k)"
abbreviation idle_of :: "'m kernel \<Rightarrow> addr" where "idle_of k \<equiv> idleProcess (pm_of k)"

definition resting :: "'m kernel \<Rightarrow> ptable \<Rightarrow> bool" where
  "resting k l \<longleftrightarrow> (\<forall>p \<in> set (l QBlocked) \<union> set (l QSem). state_of k p = BLOCKED) \<and> (\<forall>p \<in> set (l QZombie). state_of k p = ZOMBIE)"

definition well_typed :: "'m kernel \<Rightarrow> ptable \<Rightarrow> bool" where
  "well_typed k l \<longleftrightarrow> cur_of k \<in> insert (idle_of k) (set (l QReady)) \<and>
     (\<forall>p \<in> insert (idle_of k) (set (l QReady)). state_of k p = (if p = cur_of k then RUNNING else READY)) \<and> resting k l"

text \<open>The typing while the current process is leaving the processor.\<close>

definition leaving :: "'m kernel \<Rightarrow> ptable \<Rightarrow> bool" where
  "leaving k l \<longleftrightarrow> (\<forall>p \<in> insert (idle_of k) (set (l QReady)). state_of k p = READY \<or> p = cur_of k \<and> state_of k p = RUNNING) \<and> resting k l"

lemma well_typed_leaving: "well_typed k l \<Longrightarrow> leaving k l"
  by (auto simp: well_typed_def leaving_def)

lemma well_typed_cong:
  "pcbs (ph k') = pcbs (ph k) \<Longrightarrow> pm_of k' = pm_of k \<Longrightarrow> well_typed k' l = well_typed k l"
  by (simp add: well_typed_def resting_def)

lemma next_of_in: "next_of k l \<in> insert (idle_of k) (set (l QReady))"
  by (simp add: next_of_def split: list.split)

lemma queue_apart:
  assumes "ks_inv rep k A X l" "p \<in> insert (idle_of k) (set (l QReady))" "c \<noteq> QReady"
  shows "p \<notin> set (l c)"
proof (cases "p \<in> set (l QReady)")
  case True
  then show ?thesis using pt_okD(2) [OF pm_invD(5) [OF ks_invD(1) [OF assms(1)]]] assms(3) by blast
qed (use assms(2) ks_invD(3) [OF assms(1)] in blast)

lemma typed_after_switch:
  assumes "ks_inv rep k A X l" "leaving k l" "pcbs (ph k') = run_next (save_context k sp) (next_of k l)"
    "currentProcess (pm_of k') = next_of k l" "idleProcess (pm_of k') = idle_of k"
  shows "well_typed k' (l(QReady := rotate1 (l QReady)))"
proof -
  let ?n = "next_of k l"
  have s: "state_of k' p = (if p = ?n then RUNNING else if p = cur_of k \<and> state_of k p = RUNNING then READY else state_of k p)" for p
    by (simp add: assms(3) run_next_def save_context_def Let_def)
  have "?n \<notin> set (l c)" if "c \<noteq> QReady" for c by (rule queue_apart [OF assms(1) _ that], rule next_of_in)
  then have "resting k' (l(QReady := rotate1 (l QReady)))"
    using assms(2) unfolding leaving_def resting_def s by (auto 4 3)
  moreover have "state_of k' p = (if p = ?n then RUNNING else READY)" if "p \<in> insert (idle_of k) (set (l QReady))" for p
    using assms(2) that unfolding leaving_def s by auto
  ultimately show ?thesis using next_of_in [of k l] unfolding well_typed_def assms(4,5) by simp
qed
lemma pt_move_set:
  assumes "pt_ok (pcbs k) l" "c \<noteq> d" "find (pid_match k key) (l c) = Some x"
  shows "set (pt_move k key c d x l e) = (if e = d then insert x (set (l e)) else set (l e) - {x})"
proof -
  note D = pt_okD [OF assms(1)]
  have "x \<in> set (l c)" by (rule find_in [OF assms(3)])
  then have "x \<notin> set (l f)" if "f \<noteq> c" for f using D(2) that by blast
  then show ?thesis
    using assms(2) by (cases "e = c") (auto simp: pt_move_def remove_first_remove1 [OF assms(3)] set_remove1_eq [OF D(1)])
qed

section \<open>Preservation\<close>

text \<open>A move between two queues that leaves a typed or leaving state.\<close>

lemma moved_states:
  assumes "moved rep (ph k) (processManager k) A X l key c d st x p'"
  shows "state_of (k\<lparr>ph := p'\<rparr>) p = (if p = x then st else state_of k p)"
    "pm_of (k\<lparr>ph := p'\<rparr>) = pm_of k" "pid (pcbs p' p) = pid (pcbs (ph k) p)"
  using assms by (simp_all add: moved_def)

lemma leaving_blocked:
  assumes "ks_inv rep k A X l" "well_typed k l" "find (pid_match (ph k) key) (l QReady) = Some x" "d = QBlocked \<or> d = QSem"
    "moved rep (ph k) (processManager k) A X l key QReady d BLOCKED x p'"
  shows "leaving (k\<lparr>ph := p'\<rparr>) (pt_move (ph k) key QReady d x l)"
    "x \<noteq> cur_of k \<Longrightarrow> well_typed (k\<lparr>ph := p'\<rparr>) (pt_move (ph k) key QReady d x l)"
proof -
  let ?k = "k\<lparr>ph := p'\<rparr>" and ?l = "pt_move (ph k) key QReady d x l"
  note M = moved_states [OF assms(5)] and D = ks_invD [OF assms(1)]
  have d: "QReady \<noteq> d" "d \<noteq> QZombie" using assms(4) by auto
  have x: "x \<in> set (l QReady)" by (rule find_in [OF assms(3)])
  then have i: "x \<noteq> idle_of k" using D(3) by blast
  have a: "x \<notin> set (l c)" if "c \<noteq> QReady" for c using queue_apart [OF assms(1) _ that] x by simp
  note S = pt_move_set [OF pm_invD(5) [OF D(1)] d(1) assms(3)]
  have R: "resting ?k ?l" using assms(2,4) a unfolding well_typed_def resting_def M S by (auto split: if_splits)
  have r: "insert (idle_of k) (set (?l QReady)) = insert (idle_of k) (set (l QReady)) - {x}" using d(1) i unfolding S by auto
  have W: "cur_of k \<in> insert (idle_of k) (set (l QReady))"
    "q \<in> insert (idle_of k) (set (l QReady)) \<Longrightarrow> state_of k q = (if q = cur_of k then RUNNING else READY)" for q
    using assms(2) unfolding well_typed_def by blast+
  show "leaving ?k ?l" unfolding leaving_def M r
  proof (intro conjI ballI R)
    fix q assume "q \<in> insert (idle_of k) (set (l QReady)) - {x}"
    then show "(if q = x then BLOCKED else state_of k q) = READY \<or> q = cur_of k \<and> (if q = x then BLOCKED else state_of k q) = RUNNING"
      using W(2) [of q] by (cases "q = cur_of k") simp_all
  qed
  show "well_typed ?k ?l" if n: "x \<noteq> cur_of k" unfolding well_typed_def M r
  proof (intro conjI ballI R)
    show "cur_of k \<in> insert (idle_of k) (set (l QReady)) - {x}" using W(1) n by blast
    fix q assume "q \<in> insert (idle_of k) (set (l QReady)) - {x}"
    then show "(if q = x then BLOCKED else state_of k q) = (if q = cur_of k then RUNNING else READY)"
      using W(2) [of q] by simp
  qed
qed

lemma typed_unblocked:
  assumes "ks_inv rep k A X l" "well_typed k l" "find (pid_match (ph k) key) (l c) = Some x" "c = QBlocked \<or> c = QSem"
    "moved rep (ph k) (processManager k) A X l key c QReady READY x p'"
  shows "well_typed (k\<lparr>ph := p'\<rparr>) (pt_move (ph k) key c QReady x l)"
proof -
  let ?k = "k\<lparr>ph := p'\<rparr>" and ?l = "pt_move (ph k) key c QReady x l"
  note M = moved_states [OF assms(5)] and D = ks_invD [OF assms(1)]
  have c: "c \<noteq> QReady" "c \<noteq> QZombie" using assms(4) by auto
  have x: "x \<in> set (l c)" by (rule find_in [OF assms(3)])
  then have i: "x \<notin> insert (idle_of k) (set (l QReady))" using queue_apart [OF assms(1) _ c(1)] by blast
  then have n: "x \<noteq> cur_of k" using assms(2) by (auto simp: well_typed_def)
  note S = pt_move_set [OF pm_invD(5) [OF D(1)] c(1) assms(3)]
  have z: "x \<notin> set (l QZombie)" using pt_okD(2) [OF pm_invD(5) [OF D(1)]] c(2) x by blast
  have "resting ?k ?l" using assms(2) z unfolding well_typed_def resting_def M S by auto
  then show ?thesis using assms(2) i n unfolding well_typed_def M S by auto
qed
text \<open>What every event preserves: the invariant for some table with the same members, and the typing.\<close>

definition typed_with :: "('m \<Rightarrow> (addr \<rightharpoonup> nat) \<Rightarrow> bool) \<Rightarrow> 'm kernel \<Rightarrow> (addr \<rightharpoonup> nat) \<Rightarrow> addr \<Rightarrow> addr set \<Rightarrow> bool" where
  "typed_with rep k X idle M \<longleftrightarrow> (\<exists>A l. ks_inv rep k A X l \<and> well_typed k l \<and> members l = M \<and> idle_of k = idle)"

lemma typed_withI:
  "ks_inv rep k A X l \<Longrightarrow> well_typed k l \<Longrightarrow> members l = M \<Longrightarrow> idle_of k = idle \<Longrightarrow> typed_with rep k X idle M"
  by (auto simp: typed_with_def)

lemma members_rotate: "members (l(QReady := rotate1 (l QReady))) = members l"
proof -
  have "set ((l(QReady := rotate1 (l QReady))) c) = set (l c)" for c by simp
  then show ?thesis by (simp only:)
qed

context allocator
begin

lemma yield_typed:
  assumes "ks_inv rep k A X l" "leaving k l"
  shows "\<exists>k'. yield ops k sp = Some k' \<and> typed_with rep k' X (idle_of k) (members l)"
proof -
  obtain k' A' where Y: "yield ops k sp = Some k'" "ks_inv rep k' A' X (l(QReady := rotate1 (l QReady)))"
    "pcbs (ph k') = run_next (save_context k sp) (next_of k l)" "currentProcess (pm_of k') = next_of k l"
    "idleProcess (pm_of k') = idleProcess (pm_of k)"
    by (rule yield_law [OF assms(1)]) blast
  then show ?thesis
    using typed_withI [OF Y(2) typed_after_switch [OF assms Y(3-5)] members_rotate Y(5)] by blast
qed

lemma tick_typed:
  assumes "ks_inv rep k A X l" "well_typed k l"
  shows "\<exists>sp' k'. timerTick ops k sp = Some (sp', k') \<and> typed_with rep k' X (idle_of k) (members l)"
proof -
  let ?k = "k\<lparr>ticks := u64 (ticks k + 1)\<rparr>"
  have inv: "ks_inv rep ?k A X l" using assms(1) by (simp add: ks_inv_def)
  have W: "well_typed ?k l" using assms(2) by (subst well_typed_cong [of _ k]) simp_all
  show ?thesis
  proof (cases "0 < quantum ?k \<and> state_of ?k (cur_of ?k) = RUNNING")
    case True
    let ?k' = "?k\<lparr>quantum := quantum ?k - 1\<rparr>"
    have "ks_inv rep ?k' A X l" using inv by (simp add: ks_inv_def)
    moreover have "well_typed ?k' l" using W by (subst well_typed_cong [of _ ?k]) simp_all
    ultimately have "typed_with rep ?k' X (idle_of k) (members l)" by (intro typed_withI) simp_all
    then show ?thesis using schedule_keep [OF inv, of sp] True by (simp add: timerTick_def)
  next
    case False
    obtain k' A' where S: "schedule ops ?k sp = Some (rsp (save_context ?k sp (next_of ?k l)), k')"
      "ks_inv rep k' A' X (l(QReady := rotate1 (l QReady)))"
      "pcbs (ph k') = run_next (save_context ?k sp) (next_of ?k l)" "currentProcess (pm_of k') = next_of ?k l"
      "idleProcess (pm_of k') = idle_of ?k"
      by (rule schedule_switch [OF inv False, of sp]) blast
    have "idle_of k' = idle_of k" using S(5) by simp
    from typed_withI [OF S(2) typed_after_switch [OF inv well_typed_leaving [OF W] S(3-5)] members_rotate this]
    show ?thesis using S(1) by (simp add: timerTick_def)
  qed
qed

text \<open>The common tail of the two blocking calls.\<close>

lemma block_typed:
  assumes "ks_inv rep k A X l" "well_typed k l" "d = QBlocked \<or> d = QSem"
    "case find (pid_match (ph k) p) (l QReady) of None \<Rightarrow> f (ph k) = Some (-1 :: int, ph k)
      | Some x \<Rightarrow> \<exists>h. f (ph k) = Some (0, h) \<and> moved rep (ph k) (processManager k) A X l p QReady d BLOCKED x h"
  shows "\<exists>r k'. do { (r, k) \<leftarrow> lift_p f k; if r \<noteq> 0 then Some (-1, k)
       else if p = getCurrentPid k then do { k \<leftarrow> yield ops k sp; Some (0, k) } else Some (0, k) } = Some (r :: int, k')
     \<and> typed_with rep k' X (idle_of k) (members l)"
proof (cases "find (pid_match (ph k) p) (l QReady)")
  case None
  then show ?thesis using assms(4) typed_withI [OF assms(1,2)] by (simp add: lift_p_def)
next
  case (Some x)
  then obtain h where h: "f (ph k) = Some (0, h)" "moved rep (ph k) (processManager k) A X l p QReady d BLOCKED x h"
    using assms(4) by auto
  let ?k = "k\<lparr>ph := h\<rparr>" and ?l = "pt_move (ph k) p QReady d x l"
  have d: "QReady \<noteq> d" using assms(3) by auto
  obtain A' where A': "ks_inv rep ?k A' X ?l" using ks_inv_moved [OF assms(1) h(2) d Some] by blast
  note L = leaving_blocked [OF assms(1,2) Some assms(3) h(2)] and M = moved_states [OF h(2)]
  have m: "members ?l = members l" by (rule pt_ok_move(2) [OF pm_invD(5) [OF ks_invD(1) [OF assms(1)]] d Some])
  show ?thesis
  proof (cases "p = getCurrentPid ?k")
    case True
    then show ?thesis using yield_typed [OF A' L(1), of sp] h(1) M(2) m by (auto simp: lift_p_def)
  next
    case False
    have "pid (pcbs (ph k) x) = p" using h(2) by (simp add: moved_def)
    then have "x \<noteq> cur_of k" using False M(2) M(3) [of x] ks_nonzero [OF A'] by (auto simp: getCurrentPid_def getCurrentProcess_def)
    from typed_withI [OF A' L(2) [OF this] m] show ?thesis using h(1) M(2) False by (simp add: lift_p_def)
  qed
qed

lemma unblock_typed:
  assumes "ks_inv rep k A X l" "well_typed k l" "c = QBlocked \<or> c = QSem"
    "case find (pid_match (ph k) p) (l c) of None \<Rightarrow> f (ph k) = Some (-1 :: int, ph k)
      | Some x \<Rightarrow> \<exists>h. f (ph k) = Some (0, h) \<and> moved rep (ph k) (processManager k) A X l p c QReady READY x h"
  shows "\<exists>r k'. lift_p f k = Some (r :: int, k') \<and> typed_with rep k' X (idle_of k) (members l)"
proof (cases "find (pid_match (ph k) p) (l c)")
  case None
  then show ?thesis using assms(4) typed_withI [OF assms(1,2)] by (simp add: lift_p_def)
next
  case (Some x)
  then obtain h where h: "f (ph k) = Some (0, h)" "moved rep (ph k) (processManager k) A X l p c QReady READY x h"
    using assms(4) by auto
  have c: "c \<noteq> QReady" using assms(3) by auto
  obtain A' where A': "ks_inv rep (k\<lparr>ph := h\<rparr>) A' X (pt_move (ph k) p c QReady x l)"
    using ks_inv_moved [OF assms(1) h(2) c Some] by blast
  have m: "members (pt_move (ph k) p c QReady x l) = members l"
    by (rule pt_ok_move(2) [OF pm_invD(5) [OF ks_invD(1) [OF assms(1)]] c Some])
  from typed_withI [OF A' typed_unblocked [OF assms(1,2) Some assms(3) h(2)] m] show ?thesis
    using h(1) moved_states(2) [OF h(2)] by (simp add: lift_p_def)
qed

lemma event_typed:
  assumes "typed_with rep k X idle M"
  shows "\<exists>k'. run_event ops e k = Some k' \<and> typed_with rep k' X idle M"
proof -
  obtain A l where I: "ks_inv rep k A X l" "well_typed k l" "members l = M" "idle_of k = idle"
    using assms by (auto simp: typed_with_def)
  note P = ks_invD(1) [OF I(1)]
  show ?thesis
  proof (cases e)
    case (Tick sp)
    then show ?thesis using tick_typed [OF I(1,2), of sp] I(3,4) by auto
  next
    case (Yield_ev sp)
    then show ?thesis using yield_typed [OF I(1) well_typed_leaving [OF I(2)], of sp] I(3,4) by auto
  next
    case (Block_ev p sp)
    then show ?thesis
      using block_typed [where f = "\<lambda>h. blockProcessQueue ops h (processManager k) p", OF I(1,2) _ blockProcessQueue_law [OF P, of p], of sp] I(3,4) by (auto simp: blockProcess_def)
  next
    case (BlockSem_ev p sp)
    then show ?thesis
      using block_typed [where f = "\<lambda>h. blockProcessQueueBySem ops h (processManager k) p", OF I(1,2) _ blockProcessQueueBySem_law [OF P, of p], of sp] I(3,4) by (auto simp: blockProcessBySem_def)
  next
    case (Unblock_ev p)
    then show ?thesis
      using unblock_typed [where f = "\<lambda>h. unblockProcessQueue ops h (processManager k) p", OF I(1,2) _ unblockProcessQueue_law [OF P, of p]] I(3,4) by (auto simp: unblockProcess_def)
  next
    case (UnblockSem_ev p)
    then show ?thesis
      using unblock_typed [where f = "\<lambda>h. unblockProcessQueueBySem ops h (processManager k) p", OF I(1,2) _ unblockProcessQueueBySem_law [OF P, of p]] I(3,4) by (auto simp: unblockProcessBySem_def)
  qed
qed

lemma reachable_typed:
  assumes "(kstep ops)\<^sup>*\<^sup>* k k'" "typed_with rep k X idle M"
  shows "typed_with rep k' X idle M"
  using assms
proof (induction rule: rtranclp_induct)
  case (step k1 k2)
  obtain e where "run_event ops e k1 = Some k2" using step.hyps(2) by (rule kstep_cases) blast
  then show ?case using event_typed [OF step.IH [OF step.prems], of e] by auto
qed

end

section \<open>Property\<close>

text \<open>C10. Typing of the process table: start in a typed state and let any sequence of timer interrupts,
  yields, blocks and unblocks of any pids happen.  The process table then holds the same processes,
  each in one queue; ready processes are in state READY except that the current process, and only
  it, is RUNNING; blocked ones are in state BLOCKED; and the next event, whatever it is, does not fault.\<close>

theorem process_table_typed:
  assumes "allocator ops rep" "ks_inv rep k A X l" "well_typed k l" "(kstep ops)\<^sup>*\<^sup>* k k'"
  shows "(\<exists>A' l'. ks_inv rep k' A' X l' \<and> members l' = members l \<and> well_typed k' l'
       \<and> {p \<in> insert (idle_of k') (members l'). state_of k' p = RUNNING} = {cur_of k'})
     \<and> (\<forall>e. run_event ops e k' \<noteq> None)"
proof -
  have "typed_with rep k X (idle_of k) (members l)" by (rule typed_withI [OF assms(2,3) refl refl])
  from allocator.reachable_typed [OF assms(1,4) this] have T: "typed_with rep k' X (idle_of k) (members l)" .
  then obtain A' l' where L: "ks_inv rep k' A' X l'" "well_typed k' l'" "members l' = members l" by (auto simp: typed_with_def)
  have W: "cur_of k' \<in> insert (idle_of k') (set (l' QReady))" "resting k' l'"
    "q \<in> insert (idle_of k') (set (l' QReady)) \<Longrightarrow> state_of k' q = (if q = cur_of k' then RUNNING else READY)" for q
    using L(2) unfolding well_typed_def by blast+
  have "p = cur_of k'" if t: "p \<in> insert (idle_of k') (members l')" "state_of k' p = RUNNING" for p
  proof (cases "p \<in> insert (idle_of k') (set (l' QReady))")
    case False
    then obtain c where "p \<in> set (l' c)" "c \<noteq> QReady" using t(1) by blast
    then show ?thesis using W(2) t(2) by (cases c) (auto simp: resting_def)
  qed (use W(3) [of p] that(2) in \<open>simp split: if_splits\<close>)
  moreover have "cur_of k' \<in> insert (idle_of k') (members l')" "state_of k' (cur_of k') = RUNNING"
    using W(1) W(3) [OF W(1)] by auto
  ultimately have "{p \<in> insert (idle_of k') (members l'). state_of k' p = RUNNING} = {cur_of k'}" by blast
  then show ?thesis using L allocator.event_typed [OF assms(1) T] by blast
qed

theorem process_table_typed_witness:
  "\<exists>k'. (kstep buddy_ops)\<^sup>*\<^sup>* ex_k k' \<and> run_event buddy_ops (BlockSem_ev 1 5000) ex_k = Some k'
     \<and> (\<exists>A' l'. ks_inv bd_rep k' A' ex_X l' \<and> members l' = members ex_l \<and> well_typed k' l')"
proof -
  have w: "well_typed ex_k ex_l" by (simp add: well_typed_def resting_def ex_k_def ex_pheap_def ex_l_def pcb_of_def)
  note P = process_table_typed [OF bd.allocator_axioms ex_ks_inv w]
  have "run_event buddy_ops (BlockSem_ev 1 5000) ex_k \<noteq> None"
    by (rule conjunct2 [OF P [OF rtranclp.rtrancl_refl], THEN spec])
  then obtain k' where k': "run_event buddy_ops (BlockSem_ev 1 5000) ex_k = Some k'" unfolding not_None_eq by (rule exE)
  then have s: "(kstep buddy_ops)\<^sup>*\<^sup>* ex_k k'" by (intro r_into_rtranclp kstep.event)
  have "\<exists>A' l'. ks_inv bd_rep k' A' ex_X l' \<and> members l' = members ex_l \<and> well_typed k' l'"
    using conjunct1 [OF P [OF s]] by (elim exE conjE) (intro exI conjI)
  from s k' this show ?thesis by (intro exI [of _ k'] conjI)
qed


end
