(* ===== verification/Boot.thy ===== *)
theory Boot
  imports Module_Image Syscall_Dispatcher Keyboard Clock
begin

text \<open>
  From the boot loader to the first process: unpacking the modules and clearing the bss of the
  kernel (\<^verbatim>\<open>Kernel/kernel.c\<close>), the interrupt table (\<^verbatim>\<open>Kernel/interrupts/idtLoader.c\<close>), the exceptions
  (\<^verbatim>\<open>Kernel/interrupts/exceptionDispatcher.c\<close>), the speaker (\<^verbatim>\<open>Kernel/drivers/soundDriver.c\<close>) and the
  start of the user module (\<^verbatim>\<open>Userland/SampleCodeModule/_loader.c\<close>).

  The symbols of the linker script are the record \<open>symbols\<close>; the addresses of the assembly
  handlers are the record \<open>irq_handlers\<close>.  Writing a port is an event of its number and byte.
\<close>

section \<open>The kernel binary\<close>

record symbols =
  endOfKernelBinary :: addr
  bss :: addr
  endOfKernel :: addr

definition PageSize :: nat where "PageSize = 0x1000"
definition SAMPLE_DATA_MODULE_ADDR :: addr where "SAMPLE_DATA_MODULE_ADDR = 0x500000"

definition clearBSS :: "mem \<Rightarrow> addr \<Rightarrow> nat \<Rightarrow> mem" where
  "clearBSS m bssAddress bssSize = snd (memset m bssAddress 0 bssSize)"

definition getStackBase :: "symbols \<Rightarrow> addr" where
  "getStackBase S = endOfKernel S + PageSize * 8 - 8"

text \<open>The difference of the two symbols is passed as \<^verbatim>\<open>uint64_t\<close>.\<close>

definition initializeKernelBinary :: "symbols \<Rightarrow> mem \<Rightarrow> (addr \<times> mem) option" where
  "initializeKernelBinary S m = do {
     m \<leftarrow> loadModules m (endOfKernelBinary S) [SAMPLE_CODE_MODULE_ADDR, SAMPLE_DATA_MODULE_ADDR];
     let m = clearBSS m (bss S) (to_u64 (int (endOfKernel S) - int (bss S)));
     Some (getStackBase S, m)
   }"

section \<open>The interrupt table\<close>

record DESCR_INT =
  offset_l :: nat
  selector :: nat
  cero :: nat
  access :: nat
  offset_m :: nat
  offset_h :: nat
  other_cero :: nat

definition ACS_PRESENT :: nat where "ACS_PRESENT = 0x80"
definition ACS_INT_386 :: nat where "ACS_INT_386 = 0x0E"
definition ACS_INT :: nat where "ACS_INT = (ACS_PRESENT OR ACS_INT_386)"

text \<open>The layout of the packed structure: the entry at an address, and writing an entry.\<close>

definition entry_at :: "mem \<Rightarrow> addr \<Rightarrow> DESCR_INT" where
  "entry_at m a = \<lparr>offset_l = load_le m a 2, selector = load_le m (a + 2) 2, cero = load_le m (a + 4) 1, access = load_le m (a + 5) 1,
     offset_m = load_le m (a + 6) 2, offset_h = load_le m (a + 8) 4, other_cero = load_le m (a + 12) 4\<rparr>"

definition sizeof_DESCR_INT :: nat where "sizeof_DESCR_INT = 16"

text \<open>The table starts at address 0.\<close>

definition setup_IDT_entry :: "mem \<Rightarrow> nat \<Rightarrow> nat \<Rightarrow> mem" where
  "setup_IDT_entry m index off = (let a = sizeof_DESCR_INT * index;
     m = store_le m (a + 2) 2 0x08;
     m = store_le m a 2 (off AND 0xFFFF);
     m = store_le m (a + 6) 2 (drop_bit 16 off AND 0xFFFF);
     m = store_le m (a + 8) 4 (drop_bit 32 off AND 0xFFFFFFFF);
     m = store_le m (a + 5) 1 ACS_INT;
     m = store_le m (a + 4) 1 0
     in store_le m (a + 12) 4 0)"

record irq_handlers =
  irq80Handler :: addr
  irq01Handler :: addr
  irq00Handler :: addr
  exception0Handler :: addr
  exception6Handler :: addr

text \<open>The result is the memory with the bytes sent to the interrupt controllers.\<close>

definition load_idt :: "irq_handlers \<Rightarrow> mem \<Rightarrow> mem \<times> (nat \<times> nat) list" where
  "load_idt irqs m = (let
     m = setup_IDT_entry m 0x80 (irq80Handler irqs);
     m = setup_IDT_entry m 0x21 (irq01Handler irqs);
     m = setup_IDT_entry m 0x20 (irq00Handler irqs);
     m = setup_IDT_entry m 0x00 (exception0Handler irqs);
     m = setup_IDT_entry m 0x06 (exception6Handler irqs)
     in (m, [(0x21, 0xFC), (0xA1, 0xFF)]))"

section \<open>Exceptions\<close>

definition RED :: nat where "RED = 0x00FF0000"

text \<open>The \<open>i\<close>-th call of \<^verbatim>\<open>getChar\<close> returns \<open>keys i\<close>.\<close>

partial_function (option) wait_key :: "(nat \<Rightarrow> char) \<Rightarrow> nat \<Rightarrow> nat option" where
  [code]: "wait_key keys i = (if keys i = NUL then wait_key keys (i + 1) else Some i)"

text \<open>The result is the screen at the moment of the jump to \<^verbatim>\<open>init\<close>.\<close>

definition exception :: "vbe \<Rightarrow> console \<Rightarrow> mem \<Rightarrow> string \<Rightarrow> (nat \<Rightarrow> char) \<Rightarrow> (console \<times> mem) option" where
  "exception v t m nm keys = do {
     let (t, m) = clearText v t m 0;
     (t, m) \<leftarrow> printStr v t m nm RED;
     (t, m) \<leftarrow> printStr v t m '' exception'' RED;
     (t, m) \<leftarrow> printStr v t m [CHR 0x0A] RED;
     (t, m) \<leftarrow> printStr v t m (''Presiona cualquier tecla para volver.'' @ [CHR 0x0A]) RED;
     i \<leftarrow> wait_key keys 0;
     Some (clearText v t m 0)
   }"

definition exceptionDispatcher :: "vbe \<Rightarrow> console \<Rightarrow> mem \<Rightarrow> int \<Rightarrow> (nat \<Rightarrow> char) \<Rightarrow> (console \<times> mem) option" where
  "exceptionDispatcher v t m ex keys = (if ex = 0 then exception v t m ''Zero division'' keys
     else if ex = 6 then exception v t m ''Invalid opcode'' keys else Some (t, m))"

section \<open>The speaker\<close>

text \<open>Bytes sent to ports and the wait between them; \<open>inp\<close> is what port 0x61 reads.\<close>

datatype sound_event = Out nat nat | Ticks nat

definition play_sound :: "nat \<Rightarrow> nat \<Rightarrow> sound_event list option" where
  "play_sound nFrequence inp = (if nFrequence = 0 then None else
     let Div = 1193180 div nFrequence; tmp = u8 inp in
     Some ([Out 0x43 0xB6, Out 0x42 (u8 Div), Out 0x42 (u8 (drop_bit 8 Div))] @ (if tmp \<noteq> (tmp OR 3) then [Out 0x61 (tmp OR 3)] else [])))"

definition nosound :: "nat \<Rightarrow> sound_event list" where
  "nosound inp = [Out 0x61 (u8 (inp AND 0xFC))]"

definition beep :: "nat \<Rightarrow> nat \<Rightarrow> nat \<Rightarrow> nat \<Rightarrow> sound_event list option" where
  "beep nFrequence time inp1 inp2 = map_option (\<lambda>es. es @ [Ticks time] @ nosound inp2) (play_sound nFrequence inp1)"

section \<open>The main function of the kernel\<close>

definition WHITE :: nat where "WHITE = 0x00FFFFFF"
definition MAIN_RED :: nat where "MAIN_RED = 0x000000FF"

text \<open>The state is the one with the memory manager created.  The result is -1 or the kernel as
  it waits for the first interrupt, with the bytes sent to the interrupt controllers.\<close>

definition main :: "'m env \<Rightarrow> irq_handlers \<Rightarrow> 'm sys \<Rightarrow> addr \<Rightarrow> addr \<Rightarrow> nat \<Rightarrow> nat \<Rightarrow> (int \<times> 'm sys \<times> (nat \<times> nat) list) option" where
  "main E irqs s idleName shellName idle sp = do {
     let t = snd (fontSizeUp (con s) 2);
     (t, m) \<leftarrow> printStr (evbe E) t (ram s) ('' TP 2 SO '' @ [CHR 0x0A]) WHITE;
     let t = snd (fontSizeDown t 2);
     (sm, k) \<leftarrow> createSemaphoresManager (eops E) (kern s);
     if sm = 0 then do {
       (t, m) \<leftarrow> printStr (evbe E) t m (''Error initializing semaphore manager'' @ [CHR 0x0A]) MAIN_RED;
       Some (-1, s\<lparr>kern := k, ram := m, con := t\<rparr>, [])
     } else do {
       (k, m) \<leftarrow> startScheduler (eops E) (ewrapper E) k m idleName idle;
       (p, k, m) \<leftarrow> createProcess (eops E) (ewrapper E) k m shellName SAMPLE_CODE_MODULE_ADDR 0 0 0 1 0 1;
       let (m, masks) = load_idt irqs m;
       k \<leftarrow> clear_buffer (eops E) k sp;
       Some (0, s\<lparr>kern := k, ram := m, con := t\<rparr>, masks)
     }
   }"

fun printSlow :: "vbe \<Rightarrow> console \<Rightarrow> mem \<Rightarrow> string \<Rightarrow> nat \<Rightarrow> (nat \<Rightarrow> nat) \<Rightarrow> nat \<Rightarrow> (console \<times> mem) option" where
  "printSlow v t m [] color obs pause = Some (t, m)"
| "printSlow v t m (c # cs) color obs pause = do {
     (t, m) \<leftarrow> putChar v t m (of_char c) color;
     n \<leftarrow> wait_ticks obs pause;
     printSlow v t m cs color (\<lambda>i. obs (i + n + 1)) pause
   }"

section \<open>The user module\<close>

fun user_memset_loop :: "mem \<Rightarrow> addr \<Rightarrow> char \<Rightarrow> nat \<Rightarrow> mem" where
  "user_memset_loop m dst chr 0 = m"
| "user_memset_loop m dst chr (Suc n) = user_memset_loop (m(dst + n := chr)) dst chr n"

definition user_memset :: "mem \<Rightarrow> addr \<Rightarrow> int \<Rightarrow> nat \<Rightarrow> addr \<times> mem" where
  "user_memset m destiation c len = (destiation, user_memset_loop m destiation (char_of c) len)"

text \<open>Clearing the bss of the module before its \<^verbatim>\<open>main\<close>.\<close>

definition start_bss :: "mem \<Rightarrow> addr \<Rightarrow> addr \<Rightarrow> mem" where
  "start_bss m bssAddress endOfBinary = snd (user_memset m bssAddress 0 (to_u64 (int endOfBinary - int bssAddress)))"
section \<open>Properties\<close>

lemma user_memset_eq: "user_memset m d c n = memset m d c n"
proof -
  have "user_memset_loop m d k n = memset_loop m d k n" for k
    by (induction n arbitrary: m) simp_all
  then show ?thesis by (simp add: user_memset_def memset_def)
qed

lemma clearBSS_put: "clearBSS m a n = put m a (replicate n NUL)"
  by (simp add: clearBSS_def memset_def memset_loop_put char_of_def)

lemma size_of_area: "b \<le> e \<Longrightarrow> e < 2 ^ 64 \<Longrightarrow> to_u64 (int e - int b) = e - b"
  by (simp add: to_u64_nonneg flip: of_nat_diff)

text \<open>The user module clears its bss as the kernel does.\<close>

theorem start_bss_clears:
  assumes "b \<le> e" "e < 2 ^ 64"
  shows "start_bss m b e = put m b (replicate (e - b) NUL)"
  using clearBSS_put [of m b "e - b"] size_of_area [OF assms] by (simp add: start_bss_def user_memset_eq clearBSS_def)

text \<open>C28. Booting: whatever two modules the image holds behind the kernel, unpacking leaves them at their
  addresses, clears the bss of the kernel and keeps the kernel itself, although the image lies
  where the bss will be.\<close>

theorem boot_unpacks:
  assumes "bytes_at m (endOfKernelBinary S) (length (le_bytes 4 2 @ concat (map enc_module [c1, c2]))) = le_bytes 4 2 @ concat (map enc_module [c1, c2])"
    "endOfKernelBinary S \<le> bss S" "bss S \<le> endOfKernel S" "endOfKernel S \<le> 0x400000"
    "endOfKernelBinary S + 12 + length c1 + length c2 \<le> 0x400000" "length c1 \<le> 0x100000" "length c2 < 2 ^ 32"
  shows "\<exists>m'. initializeKernelBinary S m = Some (endOfKernel S + 0x8000 - 8, m')
     \<and> bytes_at m' 0x400000 (length c1) = c1 \<and> bytes_at m' 0x500000 (length c2) = c2
     \<and> bytes_at m' (bss S) (endOfKernel S - bss S) = replicate (endOfKernel S - bss S) NUL
     \<and> bytes_at m' a (endOfKernelBinary S - a) = bytes_at m a (endOfKernelBinary S - a)"
proof -
  let ?p = "endOfKernelBinary S" and ?cs = "[c1, c2]" and ?ts = "[0x400000, 0x500000]" and ?n = "endOfKernel S - bss S"
  have two: "length ?cs = 2" by simp
  have "targets_ok ?p (4 + length (concat (map enc_module ?cs))) ?cs ?ts"
    using assms(5,6) by (simp add: apart_def enc_module_def)
  moreover have l: "\<forall>c \<in> set ?cs. length c < 2 ^ 32" "length ?cs < 2 ^ 32" using assms(6,7) by simp_all
  moreover have "bytes_at m ?p (length (le_bytes 4 (length ?cs) @ concat (map enc_module ?cs))) = le_bytes 4 (length ?cs) @ concat (map enc_module ?cs)"
    using assms(1) unfolding two .
  ultimately obtain m1 where m1: "loadModules m ?p ?ts = Some m1"
    "\<forall>i < length ?cs. bytes_at m1 (?ts ! i) (length (?cs ! i)) = ?cs ! i"
    "\<And>a n. (\<forall>i < length ?cs. apart a n (?ts ! i) (length (?cs ! i))) \<longrightarrow> bytes_at m1 a n = bytes_at m a n"
    using loadModules_enc by blast
  have c: "bytes_at m1 0x400000 (length c1) = c1" "bytes_at m1 0x500000 (length c2) = c2"
    using m1(2) [rule_format, of 0] m1(2) [rule_format, of 1] by simp_all
  have s: "to_u64 (int (endOfKernel S) - int (bss S)) = ?n" using assms(3,4) by (intro size_of_area) simp_all
  show ?thesis
  proof (intro exI conjI)
    show "initializeKernelBinary S m = Some (endOfKernel S + 0x8000 - 8, put m1 (bss S) (replicate ?n NUL))"
      using m1(1) by (simp add: initializeKernelBinary_def SAMPLE_CODE_MODULE_ADDR_def SAMPLE_DATA_MODULE_ADDR_def s clearBSS_put
          getStackBase_def PageSize_def)
    show "bytes_at (put m1 (bss S) (replicate ?n NUL)) 0x400000 (length c1) = c1"
      "bytes_at (put m1 (bss S) (replicate ?n NUL)) 0x500000 (length c2) = c2"
      using c assms(3,4) by (subst bytes_at_put_disjoint; simp)+
    show "bytes_at (put m1 (bss S) (replicate ?n NUL)) (bss S) ?n = replicate ?n NUL"
      using bytes_at_put [of m1 "bss S" "replicate ?n NUL"] by simp
    have "bytes_at (put m1 (bss S) (replicate ?n NUL)) a (?p - a) = bytes_at m1 a (?p - a)"
      by (rule bytes_at_cong) (use assms(2) in \<open>auto intro!: put_apply_out\<close>)
    also have "\<dots> = bytes_at m a (?p - a)"
    proof (cases "a \<le> ?p")
      case True
      then show ?thesis by (intro m1(3) [rule_format]) (use assms(5) in \<open>auto simp: less_Suc_eq_0_disj apart_def\<close>)
    qed (simp add: bytes_at_def)
    finally show "bytes_at (put m1 (bss S) (replicate ?n NUL)) a (?p - a) = bytes_at m a (?p - a)" .
  qed
qed
theorem boot_unpacks_witness:
  defines "S \<equiv> \<lparr>endOfKernelBinary = 0x110000, bss = 0x110000, endOfKernel = 0x111000\<rparr>"
    and "m \<equiv> put (\<lambda>_. CHR ''k'') 0x110000 (le_bytes 4 2 @ concat (map enc_module [''code'', ''data'']))"
  shows "\<exists>m'. initializeKernelBinary S m = Some (0x118FF8, m') \<and> bytes_at m' 0x400000 (length ''code'') = ''code'' \<and> bytes_at m' 0x500000 (length ''data'') = ''data''
     \<and> bytes_at m' 0x110000 0x1000 = replicate 0x1000 NUL \<and> bytes_at m' 0x10FFFE 2 = ''kk''"
proof -
  have b: "bytes_at m (endOfKernelBinary S) (length (le_bytes 4 2 @ concat (map enc_module [''code'', ''data'']))) = le_bytes 4 2 @ concat (map enc_module [''code'', ''data''])"
    unfolding m_def S_def symbols.simps by (rule bytes_at_put)
  have k: "bytes_at m 0x10FFFE 2 = ''kk''" unfolding m_def by (simp add: bytes_at_put_disjoint) (simp add: bytes_at_def numeral_2_eq_2)
  show ?thesis using boot_unpacks [OF b, where a = "0x10FFFE"] k by (simp add: S_def)
qed

text \<open>What the processor reads from a gate.\<close>

definition gate_target :: "DESCR_INT \<Rightarrow> nat" where
  "gate_target d = offset_l d + 2 ^ 16 * offset_m d + 2 ^ 32 * offset_h d"

definition is_gate :: "mem \<Rightarrow> nat \<Rightarrow> addr \<Rightarrow> bool" where
  "is_gate m i handler \<longleftrightarrow> (let d = entry_at m (16 * i) in gate_target d = handler \<and> selector d = 8 \<and> access d = 0x8E \<and> cero d = 0 \<and> other_cero d = 0)"

lemma split_64:
  assumes "v < (2 :: nat) ^ 64"
  shows "(v AND 0xFFFF) + 2 ^ 16 * (drop_bit 16 v AND 0xFFFF) + 2 ^ 32 * (drop_bit 32 v AND 0xFFFFFFFF) = v"
proof -
  have m: "x AND 0xFFFF = x mod 2 ^ 16" "x AND 0xFFFFFFFF = x mod 2 ^ 32" for x :: nat
    using take_bit_eq_mask [of 16 x] take_bit_eq_mask [of 32 x] by (simp_all add: take_bit_eq_mod mask_eq_exp_minus_1)
  have "v div 2 ^ 16 = v div 2 ^ 16 div 2 ^ 16 * 2 ^ 16 + v div 2 ^ 16 mod 2 ^ 16" "v = v div 2 ^ 16 * 2 ^ 16 + v mod 2 ^ 16" by simp_all
  moreover have "v div 2 ^ 32 mod 2 ^ 32 = v div 2 ^ 16 div 2 ^ 16" using assms by (simp add: div_mult2_eq [symmetric] less_mult_imp_div_less)
  moreover have "s + 2 ^ 16 * r + 2 ^ 32 * Q = u" if "q = Q * 2 ^ 16 + r" "u = q * 2 ^ 16 + s" for q Q r s u :: nat
    unfolding that by simp
  ultimately show ?thesis unfolding m drop_bit_eq_div by presburger
qed
lemma store_le_in: "store_le m a n v x \<noteq> m x \<Longrightarrow> a \<le> x \<and> x < a + n"
  using store_le_out [of x a n m v] by linarith

lemma setup_gate:
  assumes "off < 2 ^ 64"
  shows "is_gate (setup_IDT_entry m i off) i off"
proof -
  have "off AND 0xFFFF < 65536" "drop_bit 16 off AND 0xFFFF < 65536" "drop_bit 32 off AND 0xFFFFFFFF < 4294967296"
    using take_bit_eq_mask [of 16 off] take_bit_eq_mask [of 16 "drop_bit 16 off"] take_bit_eq_mask [of 32 "drop_bit 32 off"]
      take_bit_nat_less_exp [of 16 off] take_bit_nat_less_exp [of 16 "drop_bit 16 off"] take_bit_nat_less_exp [of 32 "drop_bit 32 off"]
    by (simp_all add: mask_eq_exp_minus_1)
  moreover have "ACS_INT = 0x8E" by (simp add: ACS_INT_def ACS_PRESENT_def ACS_INT_386_def)
  ultimately show ?thesis using split_64 [OF assms]
    by (simp add: is_gate_def setup_IDT_entry_def entry_at_def gate_target_def sizeof_DESCR_INT_def Let_def load_store_le load_store_other
        del: load_le.simps store_le.simps)
qed

lemma setup_out: "x < 16 * i \<or> 16 * i + 16 \<le> x \<Longrightarrow> setup_IDT_entry m i off x = m x"
  by (auto simp: setup_IDT_entry_def sizeof_DESCR_INT_def Let_def store_le_out simp del: store_le.simps)

lemma is_gate_cong:
  assumes "\<And>x. 16 * i \<le> x \<Longrightarrow> x < 16 * i + 16 \<Longrightarrow> m' x = m x"
  shows "is_gate m' i h = is_gate m i h"
proof -
  have "load_le m' (16 * i + d) n = load_le m (16 * i + d) n" if "d + n \<le> 16" for d n
    by (rule load_le_cong) (use assms that in auto)
  from this [of 0] this [of 2 2] this show ?thesis by (simp add: is_gate_def entry_at_def Let_def del: load_le.simps)
qed

lemma is_gate_other: "i \<noteq> j \<Longrightarrow> is_gate (setup_IDT_entry m j off) i h = is_gate m i h"
  by (rule is_gate_cong) (rule setup_out, linarith)

text \<open>C29. After \<^verbatim>\<open>load_idt\<close> the processor finds the right handler behind every vector the kernel uses:
  its address in full width, the selector of the code segment and the type of a present
  interrupt gate.  Memory outside the five gates is not written, and the controllers are told
  to let only timer and keyboard through.\<close>

theorem idt_reaches_handlers:
  assumes "irq80Handler irqs < 2 ^ 64" "irq01Handler irqs < 2 ^ 64" "irq00Handler irqs < 2 ^ 64"
    "exception0Handler irqs < 2 ^ 64" "exception6Handler irqs < 2 ^ 64"
  shows "let (m', masks) = load_idt irqs m in
     is_gate m' 0x80 (irq80Handler irqs) \<and> is_gate m' 0x21 (irq01Handler irqs) \<and> is_gate m' 0x20 (irq00Handler irqs)
     \<and> is_gate m' 0 (exception0Handler irqs) \<and> is_gate m' 6 (exception6Handler irqs)
     \<and> (\<forall>x. x div 16 \<notin> {0x80, 0x21, 0x20, 0, 6} \<longrightarrow> m' x = m x)
     \<and> masks = [(0x21, 0xFC), (0xA1, 0xFF)]"
proof -
  have "setup_IDT_entry m i h x = m x" if "x div 16 \<noteq> i" for m i h x
    using that by (intro setup_out) linarith
  then show ?thesis using assms by (simp add: load_idt_def Let_def is_gate_other setup_gate)
qed

theorem idt_reaches_handlers_witness:
  "let (m', masks) = load_idt \<lparr>irq80Handler = 0x100300, irq01Handler = 0x100200, irq00Handler = 0x100100,
       exception0Handler = 0x100400, exception6Handler = 0xFFFF800000100500\<rparr> (\<lambda>_. NUL) in
     is_gate m' 0x80 0x100300 \<and> is_gate m' 6 0xFFFF800000100500 \<and> m' 0x700 = NUL"
  using idt_reaches_handlers [of "\<lparr>irq80Handler = 0x100300, irq01Handler = 0x100200, irq00Handler = 0x100100,
       exception0Handler = 0x100400, exception6Handler = 0xFFFF800000100500\<rparr>" "\<lambda>_. NUL"]
  by (simp add: Let_def split_beta)


end
