(* ===== verification/User_World.thy ===== *)
theory User_World
  imports User_Stdlib Process_Manager "HOL-Library.Multiset"
begin

text \<open>
  What a user program sees of the system: the characters that arrive at its standard input and
  the answers of the kernel to its system calls.

  A program is a function on \<open>world\<close>.  The answer to a call is an arbitrary function of the calls
  made so far (field \<open>reply\<close>), so a statement for all worlds holds for every behaviour of the
  kernel and of the other processes.  The field \<open>trace\<close> collects the calls with the values they
  returned, the oldest first.  \<open>None\<close> is a fault of the program (an access outside an array, a
  write through \<^verbatim>\<open>NULL\<close>, a call of an invalid function pointer).  A program that has used up its input
  waits in \<^verbatim>\<open>getChar\<close>; its result is then \<open>None\<close> inside \<open>Some\<close>, with the world at that moment.
\<close>

section \<open>Calls and answers\<close>

text \<open>The argument array of a new process: \<^verbatim>\<open>NULL\<close>, an array that ends with \<^verbatim>\<open>NULL\<close>, or one that
  does not.\<close>

datatype argv = Null | Argv "string list" | Unterminated "string list"

datatype call = Write nat string | Write_color nat string | Alloc nat | Free addr
  | Create string string argv nat int int int | Waitpid int | Kill nat | Block nat | Unblock nat | Change_prio nat int
  | Mem_info | Process_info | Getpid | Wait_seconds nat | Wait_ticks nat | Clear_screen | Size_up nat | Size_down nat
  | Open_pipe | Close_pipe int | Clear_pipe int | Yield | Sem_open int nat | Sem_close int | Exit

text \<open>The result register and what the kernel stores through the pointers of the call.\<close>

record answer =
  ret :: int
  outs :: "nat list"
  table :: "PCB list"

record world =
  reply :: "(call \<times> int) list \<Rightarrow> call \<Rightarrow> answer"
  input :: string
  trace :: "(call \<times> int) list"

definition ask :: "call \<Rightarrow> world \<Rightarrow> answer \<times> world" where
  "ask c w = (let a = reply w (trace w) c in (a, w\<lparr>trace := trace w @ [(c, ret a)]\<rparr>))"

definition tell :: "call \<Rightarrow> world \<Rightarrow> world" where
  "tell c w = snd (ask c w)"

section \<open>The library on the world\<close>

text \<open>\<^verbatim>\<open>EOF\<close> is -1 and a character is signed.\<close>

definition EOF :: int where "EOF = -1"

definition getChar :: "world \<Rightarrow> char option \<times> world" where
  "getChar w = (case input w of [] \<Rightarrow> (None, w) | c # cs \<Rightarrow> (Some c, w\<lparr>input := cs\<rparr>))"

definition put_out :: "(nat \<times> string) option \<Rightarrow> world \<Rightarrow> world option" where
  "put_out r w = map_option (\<lambda>(fd, s). tell (Write fd s) w) r"

definition print_world :: "string \<Rightarrow> vararg list \<Rightarrow> world \<Rightarrow> world option" where
  "print_world format args w = put_out (user_printf format args) w"

definition printferror_world :: "string \<Rightarrow> vararg list \<Rightarrow> world \<Rightarrow> world option" where
  "printferror_world format args w = put_out (printferror format args) w"

definition printfc_world :: "nat \<Rightarrow> string \<Rightarrow> vararg list \<Rightarrow> world \<Rightarrow> world option" where
  "printfc_world color format args w = map_option (\<lambda>(c, s). tell (Write_color c s) w) (printfc color format args)"

fun put_all :: "(nat \<times> string) option list \<Rightarrow> world \<Rightarrow> world option" where
  "put_all [] w = Some w"
| "put_all (r # rs) w = Option.bind (put_out r w) (put_all rs)"

definition syscall_alloc :: "world \<Rightarrow> nat \<Rightarrow> addr \<times> world" where
  "syscall_alloc w sz = (case ask (Alloc sz) w of (a, w) \<Rightarrow> (to_u64 (ret a), w))"

definition malloc_world :: "nat \<Rightarrow> world \<Rightarrow> (addr \<times> world) option" where
  "malloc_world sz w = (case malloc syscall_alloc w sz of (ptr, msgs, w) \<Rightarrow> map_option (Pair ptr) (put_all msgs w))"

definition free_world :: "addr \<Rightarrow> world \<Rightarrow> world" where
  "free_world ptr w = user_free (\<lambda>w p. tell (Free p) w) w ptr"

text \<open>The result is the pointer with the text at it.\<close>

definition itoa :: "int \<Rightarrow> world \<Rightarrow> ((addr \<times> string) \<times> world) option" where
  "itoa n w = do {
     (buff, w) \<leftarrow> malloc_world MAX_INT_LENGTH w;
     if buff = 0 then None else do { s \<leftarrow> in_buffer MAX_INT_LENGTH (intToStr n); Some ((buff, s), w) }
   }"

section \<open>What a run adds to the trace\<close>

text \<open>\<open>extends w w' ts\<close>: from \<open>w\<close> to \<open>w'\<close> the program made the calls \<open>ts\<close>.\<close>

definition extends :: "world \<Rightarrow> world \<Rightarrow> (call \<times> int) list \<Rightarrow> bool" where
  "extends w w' ts \<longleftrightarrow> trace w' = trace w @ ts \<and> reply w' = reply w"

definition allocated :: "(call \<times> int) list \<Rightarrow> addr multiset" where
  "allocated ts = mset (concat (map (\<lambda>(c, r). case c of Alloc n \<Rightarrow> if to_u64 r = 0 then [] else [to_u64 r] | _ \<Rightarrow> []) ts))"

definition released :: "(call \<times> int) list \<Rightarrow> addr multiset" where
  "released ts = mset (concat (map (\<lambda>(c, r). case c of Free p \<Rightarrow> [p] | _ \<Rightarrow> []) ts))"

text \<open>What is written to the standard output.\<close>

definition written :: "(call \<times> int) list \<Rightarrow> string" where
  "written ts = concat (map (\<lambda>(c, r). case c of Write fd s \<Rightarrow> if fd = 1 then s else [] | _ \<Rightarrow> []) ts)"

abbreviation calls :: "world \<Rightarrow> call list" where "calls w \<equiv> map fst (trace w)"

text \<open>The calls that are neither output to the screen nor memory.\<close>

definition is_act :: "call \<Rightarrow> bool" where
  "is_act c \<longleftrightarrow> (case c of Write fd s \<Rightarrow> fd \<ge> 3 | Write_color col s \<Rightarrow> False | Alloc n \<Rightarrow> False | Free p \<Rightarrow> False | _ \<Rightarrow> True)"

abbreviation acts :: "world \<Rightarrow> call list" where "acts w \<equiv> filter is_act (calls w)"

named_theorems trace_simps

lemma measures_append [trace_simps]:
  "allocated [] = {#}" "released [] = {#}" "written [] = []"
  "allocated (xs @ ys) = allocated xs + allocated ys" "released (xs @ ys) = released xs + released ys"
  "written (xs @ ys) = written xs @ written ys"
  by (simp_all add: allocated_def released_def written_def)

lemma measures_Cons [trace_simps]:
  "allocated ((c, r) # ts) = (case c of Alloc n \<Rightarrow> if to_u64 r = 0 then {#} else {#to_u64 r#} | _ \<Rightarrow> {#}) + allocated ts"
  "released ((c, r) # ts) = (case c of Free p \<Rightarrow> {#p#} | _ \<Rightarrow> {#}) + released ts"
  "written ((c, r) # ts) = (case c of Write fd s \<Rightarrow> if fd = 1 then s else [] | _ \<Rightarrow> []) @ written ts"
  by (simp_all add: allocated_def released_def written_def split: call.split)

lemma extends_refl [simp]: "extends w w []"
  by (simp add: extends_def)

lemma extends_trans: "extends w w' ts \<Longrightarrow> extends w' w'' us \<Longrightarrow> extends w w'' (ts @ us)"
  by (simp add: extends_def)

lemma tell_fields [simp]: "input (tell c w) = input w" "reply (tell c w) = reply w"
  "trace (tell c w) = trace w @ [(c, ret (reply w (trace w) c))]"
  by (simp_all add: tell_def ask_def Let_def)

lemma ask_eq: "ask c w = (reply w (trace w) c, tell c w)"
  by (simp add: tell_def ask_def Let_def)

lemma extends_tell: "extends w (tell c w) [(c, ret (reply w (trace w) c))]"
  by (simp add: extends_def)

lemma put_out_Some: "put_out (Some (fd, s)) w = Some (tell (Write fd s) w)"
  by (simp add: put_out_def)

lemma print_char: "print_world ''%c'' [AInt (sc c)] w = Some (tell (Write 1 [c]) w)"
proof -
  have "char_of (sc c) = c"
  proof (cases "of_char c < (128 :: int)")
    case False
    then have "char_of (sc c) = (char_of ((of_char c - 256) mod 256 :: int) :: char)"
      by (simp only: char_of_mod_256) (simp add: sc_def Let_def)
    also have "(of_char c - 256) mod 256 = (of_char c :: int)" by simp
    finally show ?thesis by simp
  qed (simp add: sc_def Let_def)
  then show ?thesis by (simp add: print_world_def put_out_def user_printf_def format_printf_def format_spec_def MAX_LENGTH_def)
qed

lemma print_plain:
  "CHR ''%'' \<notin> set s \<Longrightarrow> length s < 512 \<Longrightarrow> print_world s [] w = Some (tell (Write 1 s) w)"
  "CHR ''%'' \<notin> set s \<Longrightarrow> length s < 512 \<Longrightarrow> printferror_world s [] w = Some (tell (Write 2 s) w)"
  by (simp_all add: print_world_def printferror_world_def put_out_def user_printf_def printferror_def format_printf_def
      format_loop_plain [of s "[]"] MAX_LENGTH_def)

lemma safe_string_copy_eq: "safe_string_copy out s mx = out @ take (mx - 1 - length out) s"
  by (induction out s mx rule: safe_string_copy.induct) (auto simp: Suc_diff_Suc take_Cons' diff_diff_left)

section \<open>Kernels with memory\<close>

definition has_memory :: "world \<Rightarrow> bool" where
  "has_memory w \<longleftrightarrow> (\<forall>ts n. to_u64 (ret (reply w ts (Alloc n))) \<noteq> 0)"

lemma has_memory_cong: "reply w' = reply w \<Longrightarrow> has_memory w' = has_memory w"
  by (simp add: has_memory_def)

lemma malloc_memory:
  assumes "has_memory w" "0 < n"
  shows "\<exists>p. malloc_world n w = Some (p, tell (Alloc n) w) \<and> p \<noteq> 0 \<and> allocated (trace (tell (Alloc n) w)) = allocated (trace w) + {#p#}"
proof -
  have "to_u64 (ret (reply w (trace w) (Alloc n))) \<noteq> 0" using assms(1) by (simp add: has_memory_def)
  then show ?thesis using assms(2)
    by (simp add: malloc_world_def malloc_def syscall_alloc_def ask_eq Let_def trace_simps)
qed

lemma free_tell: "p \<noteq> 0 \<Longrightarrow> free_world p w = tell (Free p) w"
  by (simp add: free_world_def user_free_def)

lemma print_some:
  assumes "fits format args"
  shows "\<exists>s. print_world format args w = Some (tell (Write 1 s) w)" "\<exists>s. printferror_world format args w = Some (tell (Write 2 s) w)"
    "\<exists>s. printfc_world color format args w = Some (tell (Write_color color s) w)"
proof -
  obtain r where "format_loop format args [] = Some r" using format_loop_ok [OF assms, of "[]"] by auto
  then show "\<exists>s. print_world format args w = Some (tell (Write 1 s) w)" "\<exists>s. printferror_world format args w = Some (tell (Write 2 s) w)"
    "\<exists>s. printfc_world color format args w = Some (tell (Write_color color s) w)"
    by (simp_all add: print_world_def printferror_world_def printfc_world_def put_out_def user_printf_def printferror_def printfc_def
        format_printf_def) blast+
qed

lemma print_acts:
  "print_world f as w = Some w' \<Longrightarrow> acts w' = acts w" "printferror_world f as w = Some w' \<Longrightarrow> acts w' = acts w"
  by (auto simp: print_world_def printferror_world_def put_out_def user_printf_def printferror_def format_printf_def is_act_def)

end
