(* ===== verification/User_Programs.thy ===== *)
theory User_Programs
  imports User_World
begin

text \<open>
  The programs of the shell, \<^verbatim>\<open>Userland/SampleCodeModule/shell/programs.c\<close>: \<^verbatim>\<open>cat\<close>, \<^verbatim>\<open>wc\<close>, \<^verbatim>\<open>filter\<close>
  and \<^verbatim>\<open>loop\<close>, the line editor \<^verbatim>\<open>readLine\<close>, the argument parser and the listing of processes.

  Loops over \<^verbatim>\<open>getChar\<close> recurse on the characters that arrive.  Arrays that the code fills from
  the front are lists of what is in them, with the bound checked where the code writes.  The
  argument parser copies between rows of two-dimensional arrays and works on the byte memory.
\<close>

definition BUFFER_SPACE :: nat where "BUFFER_SPACE = 1000"

section \<open>Streams\<close>

definition is_vowel :: "char \<Rightarrow> bool" where
  "is_vowel c \<longleftrightarrow> c = CHR ''a'' \<or> c = CHR ''e'' \<or> c = CHR ''i'' \<or> c = CHR ''o'' \<or> c = CHR ''u''
     \<or> c = CHR ''A'' \<or> c = CHR ''E'' \<or> c = CHR ''I'' \<or> c = CHR ''O'' \<or> c = CHR ''U''"

fun process_loop :: "(char \<Rightarrow> 'c \<Rightarrow> 'c) \<Rightarrow> string \<Rightarrow> 'c \<Rightarrow> int \<Rightarrow> world \<Rightarrow> ((int \<times> 'c) option \<times> world) option" where
  "process_loop process_char [] context n w = Some (None, w\<lparr>input := []\<rparr>)"
| "process_loop process_char (c # cs) context n w = (if sc c = EOF then Some (Some (n, context), w\<lparr>input := cs\<rparr>)
     else if c \<noteq> NUL then do {
       w \<leftarrow> print_world ''%c'' [AInt (sc c)] w;
       process_loop process_char cs (process_char c context) (s32 (n + 1)) w
     } else process_loop process_char cs context n w)"

definition read_and_process_chars :: "(char \<Rightarrow> 'c \<Rightarrow> 'c) \<Rightarrow> 'c \<Rightarrow> world \<Rightarrow> ((int \<times> 'c) option \<times> world) option" where
  "read_and_process_chars process_char context w = process_loop process_char (input w) context 0 w"

text \<open>What a program does after its input, unless it is still waiting for the rest.\<close>

definition after_input :: "('a option \<times> world) option \<Rightarrow> ('a \<Rightarrow> world \<Rightarrow> ('b \<times> world) option) \<Rightarrow> ('b option \<times> world) option" where
  "after_input r f = (case r of None \<Rightarrow> None | Some (None, w) \<Rightarrow> Some (None, w)
     | Some (Some a, w) \<Rightarrow> map_option (\<lambda>(b, w). (Some b, w)) (f a w))"

fun cat_loop :: "string \<Rightarrow> string \<Rightarrow> world \<Rightarrow> (unit option \<times> world) option" where
  "cat_loop [] buffer w = Some (None, w\<lparr>input := []\<rparr>)"
| "cat_loop (c # cs) buffer w = (if sc c = EOF then Some (Some (), w\<lparr>input := cs\<rparr>)
     else if c \<noteq> NUL then do {
       w \<leftarrow> print_world ''%c'' [AInt (sc c)] w;
       if length buffer \<ge> BUFFER_SPACE then None
       else if c = CHR 0x0A then
         (if length buffer + 1 \<ge> BUFFER_SPACE then None
          else do { w \<leftarrow> print_world ''%s'' [AStr (buffer @ [c])] w; cat_loop cs [] w })
       else cat_loop cs (buffer @ [c]) w
     } else cat_loop cs buffer w)"

definition cat :: "world \<Rightarrow> (nat option \<times> world) option" where
  "cat w = after_input (cat_loop (input w) [] w)
     (\<lambda>_ w. map_option (Pair 0) (print_world (CHR 0x0A # ''=== EOF ==='' @ [CHR 0x0A]) [] w))"

record wc_context_t = lines :: int

definition wc_process_char :: "char \<Rightarrow> wc_context_t \<Rightarrow> wc_context_t" where
  "wc_process_char c context = (if c = CHR 0x0A then context\<lparr>lines := s32 (lines context + 1)\<rparr> else context)"

definition wc :: "world \<Rightarrow> (nat option \<times> world) option" where
  "wc w = after_input (read_and_process_chars wc_process_char \<lparr>lines = 1\<rparr> w)
     (\<lambda>(_, context) w. do {
        w \<leftarrow> print_world [CHR 0x0A] [] w;
        w \<leftarrow> print_world (''Line count: %d'' @ [CHR 0x0A, CHR 0x0A]) [AInt (s32 (lines context - 1))] w;
        Some (0, w)
      })"

text \<open>The array \<^verbatim>\<open>filtered\<close> starts zeroed, so its characters so far are its string.\<close>

record filter_context_t = filtered :: string

definition filter_process_char :: "char \<Rightarrow> filter_context_t \<Rightarrow> filter_context_t" where
  "filter_process_char c context = (if \<not> is_vowel c \<and> length (filtered context) < BUFFER_SPACE - 1
     then context\<lparr>filtered := filtered context @ [c]\<rparr> else context)"

definition filter_prog :: "world \<Rightarrow> (nat option \<times> world) option" where
  "filter_prog w = after_input (read_and_process_chars filter_process_char \<lparr>filtered = []\<rparr> w)
     (\<lambda>(_, context) w. map_option (Pair 0)
        (print_world (CHR 0x0A # ''Filtered output:'' @ [CHR 0x0A] @ ''%s'' @ [CHR 0x0A]) [AStr (filtered context)] w))"

text \<open>\<^verbatim>\<open>loop\<close> never returns by itself: \<open>turns\<close> is how often it goes round before it is killed.\<close>

fun loop_turns :: "nat \<Rightarrow> int \<Rightarrow> int \<Rightarrow> world \<Rightarrow> world option" where
  "loop_turns 0 p time w = Some w"
| "loop_turns (Suc turns) p time w = do {
     w \<leftarrow> printfc_world 0x006FC8FF (''[loop %d] Proceso %d'' @ [CHR 0x0A]) [AInt p, AInt p] (tell (Wait_seconds (to_u64 time)) w);
     loop_turns turns p time w
   }"

definition loop :: "nat \<Rightarrow> string \<Rightarrow> world \<Rightarrow> world option" where
  "loop turns arg w = (let (a, w) = ask Getpid w; p = s32 (ret a); time = s32 (satoi (Some arg)) in
     if time \<le> 0 then print_world (''Error: time debe ser mayor que 0'' @ [CHR 0x0A]) [] w
     else do {
       w \<leftarrow> print_world (''[loop %d] iniciado. Intervalo: %d segundos'' @ [CHR 0x0A]) [AInt p, AInt time] w;
       loop_turns turns p time w
     })"

section \<open>The process listing\<close>

definition printHex :: "nat \<Rightarrow> world \<Rightarrow> world option" where
  "printHex v w = print_world ''%s'' [AStr (map (\<lambda>i. ''0123456789ABCDEF'' ! (v div 2 ^ (i * 4) mod 16)) [7, 6, 5, 4, 3, 2, 1, 0])] w"

definition table_line :: string where
  "table_line = ''+-----+-------------+------+----------+----+'' @ [CHR 0x0A]"

definition printHeader :: "world \<Rightarrow> world option" where
  "printHeader w = do {
     w \<leftarrow> print_world (CHR 0x0A # ''Procesos activos:'' @ [CHR 0x0A]) [] w;
     w \<leftarrow> print_world table_line [] w;
     w \<leftarrow> print_world (''| PID | NAME        | PRIO | STATE    | FG |'' @ [CHR 0x0A]) [] w;
     print_world table_line [] w
   }"

fun print_spaces :: "nat \<Rightarrow> world \<Rightarrow> world option" where
  "print_spaces 0 w = Some w"
| "print_spaces (Suc n) w = Option.bind (print_world '' '' [] w) (print_spaces n)"

fun state_name :: "State \<Rightarrow> string" where
  "state_name READY = ''READY''" | "state_name RUNNING = ''RUNNING''" | "state_name BLOCKED = ''BLOCKED''"
| "state_name ZOMBIE = ''ZOMBIE''" | "state_name EXITED = ''EXITED''" | "state_name KILLED = ''KILLED''"
| "state_name SEM_WAITING = ''WAITING''" | "state_name (Raw n) = ''UNKNOWN''"

definition printProcessInfo :: "PCB \<Rightarrow> world \<Rightarrow> world option" where
  "printProcessInfo p w = do {
     w \<leftarrow> print_world ''| '' [] w;
     w \<leftarrow> (if pid p < 10 then print_world '' '' [] w else Some w);
     w \<leftarrow> print_world ''%d'' [AInt (pid p)] w;
     w \<leftarrow> print_world ''  | '' [] w;
     w \<leftarrow> print_world ''%s'' [AStr (name p)] w;
     w \<leftarrow> print_spaces (11 - length (name p)) w;
     w \<leftarrow> print_world '' | '' [] w;
     w \<leftarrow> (if priority p < 10 then print_world '' '' [] w else Some w);
     w \<leftarrow> print_world ''%d'' [AInt (priority p)] w;
     w \<leftarrow> print_world ''   | '' [] w;
     w \<leftarrow> print_world ''%s'' [AStr (state_name (state p))] w;
     w \<leftarrow> print_spaces (8 - length (state_name (state p))) w;
     w \<leftarrow> print_world '' | '' [] w;
     w \<leftarrow> print_world ''%s'' [AStr (if foreground p \<noteq> 0 then ''Y'' else ''N'')] w;
     w \<leftarrow> print_world (''  |'' @ [CHR 0x0A]) [] w;
     w \<leftarrow> print_world ''|     | RSP=0x'' [] w;
     w \<leftarrow> printHex (u32 (rsp p)) w;
     w \<leftarrow> print_world (''            |'' @ [CHR 0x0A]) [] w;
     w \<leftarrow> print_world ''|     | RBP=0x'' [] w;
     w \<leftarrow> printHex (u32 (base p)) w;
     w \<leftarrow> print_world (''            |'' @ [CHR 0x0A]) [] w;
     print_world table_line [] w
   }"

section \<open>The line editor\<close>

fun readLine_loop :: "nat \<Rightarrow> string \<Rightarrow> string \<Rightarrow> nat \<Rightarrow> world \<Rightarrow> ((string \<times> nat) option \<times> world) option" where
  "readLine_loop len [] buff i w = Some (None, w\<lparr>input := []\<rparr>)"
| "readLine_loop len (c # cs) buff i w = (if c = CHR 0x0A \<or> \<not> i < sub64 len 1 then Some (Some (buff, i), w\<lparr>input := cs\<rparr>)
     else if c = CHR 0x08 then
       (if i > 0 then do { w \<leftarrow> print_world [CHR 0x08, CHR '' '', CHR 0x08] [] w; readLine_loop len cs buff (i - 1) w }
        else readLine_loop len cs buff i w)
     else if c \<noteq> NUL then
       (if i < length buff then do { w \<leftarrow> print_world ''%c'' [AInt (sc c)] w; readLine_loop len cs (buff[i := c]) (i + 1) w } else None)
     else readLine_loop len cs buff i w)"

text \<open>The result is the array with the number of characters read.\<close>

definition readLine :: "string \<Rightarrow> nat \<Rightarrow> world \<Rightarrow> ((string \<times> nat) option \<times> world) option" where
  "readLine buff len w = (if length buff < len then None
     else after_input (readLine_loop len (input w) (replicate len NUL @ drop len buff) 0 w)
       (\<lambda>(buff, i) w. if i < length buff then map_option (Pair (buff[i := NUL], i)) (print_world [CHR 0x0A] [] w) else None))"

section \<open>The argument parser\<close>

definition is_space :: "char \<Rightarrow> bool" where "is_space c \<longleftrightarrow> c = CHR '' ''"

fun copy_word :: "mem \<Rightarrow> addr \<Rightarrow> string \<Rightarrow> nat \<Rightarrow> nat \<Rightarrow> string \<times> nat \<times> mem" where
  "copy_word m a [] j max_size = ([], j, m)"
| "copy_word m a (c # cs) j max_size = (if \<not> is_space c \<and> j < max_size - 1
     then copy_word (m(a + j := c)) a cs (j + 1) max_size else (c # cs, j, m))"

lemma copy_word_eq:
  "copy_word m a s j max_size =
     (let x = take (max_size - 1 - j) (takeWhile (\<lambda>c. \<not> is_space c) s) in (drop (length x) s, j + length x, put m (a + j) x))"
proof (induction m a s j max_size rule: copy_word.induct)
  case (2 m a c cs j max_size)
  show ?case
  proof (cases "\<not> is_space c \<and> j < max_size - 1")
    case True
    then have "max_size - 1 - j = Suc (max_size - 1 - (j + 1))" by linarith
    with True 2 [OF True] show ?thesis by (simp only: copy_word.simps if_True takeWhile.simps take_Suc_Cons Let_def) (simp add: put_Cons)
  qed auto
qed simp

function parse_loop :: "mem \<Rightarrow> string \<Rightarrow> addr list \<Rightarrow> nat \<Rightarrow> nat \<Rightarrow> nat \<Rightarrow> (nat \<times> mem) option" where
  "parse_loop m s args arg_count max_args max_size = (if s = [] \<or> \<not> arg_count < max_args then Some (arg_count, m)
     else if length args \<le> arg_count then None
     else (case copy_word m (args ! arg_count) s 0 max_size of (s, j, m) \<Rightarrow>
       parse_loop (m(args ! arg_count + j := NUL)) (dropWhile is_space (dropWhile (\<lambda>c. \<not> is_space c) s)) args
         (if j > 0 then arg_count + 1 else arg_count) max_args max_size))"
  by pat_completeness auto
termination
proof (relation "measure (\<lambda>(m, s, _). length s)", goal_cases)
  case (2 m s args n mx ms t y j m')
  let ?x = "take (ms - 1) (takeWhile (\<lambda>c. \<not> is_space c) s)"
  have t: "t = drop (length ?x) s" using 2(3,4) by (auto simp: copy_word_eq Let_def)
  obtain c cs where s: "s = c # cs" using 2(1) by (cases s) auto
  have le: "length (dropWhile is_space (dropWhile (\<lambda>c. \<not> is_space c) ys)) \<le> length ys" for ys
    using length_dropWhile_le [of is_space] length_dropWhile_le [of "\<lambda>c. \<not> is_space c" ys] order_trans by blast
  show ?case
  proof (cases "?x = []")
    case True
    then have "t = c # cs" unfolding t s by (simp only: list.size drop_0)
    then show ?thesis using le [of cs] length_dropWhile_le [of is_space cs] length_dropWhile_le [of "\<lambda>c. \<not> is_space c" cs]
      by (auto simp: s le_imp_less_Suc)
  next
    case False
    then have "length t < length s" by (auto simp: t s)
    then show ?thesis using le [of t] by simp
  qed
qed simp

declare parse_loop.simps [simp del]

text \<open>\<open>args\<close> are the addresses of the rows; \<open>None\<close> is the pointer \<^verbatim>\<open>NULL\<close>.\<close>

definition parse_string :: "mem \<Rightarrow> string option \<Rightarrow> addr list \<Rightarrow> nat \<Rightarrow> nat \<Rightarrow> (int \<times> mem) option" where
  "parse_string m arg args max_args max_size = (case arg of None \<Rightarrow> Some (-1, m) | Some s \<Rightarrow> if s = [] then Some (-1, m)
     else map_option (\<lambda>(n, m). (int n, m)) (parse_loop m (dropWhile is_space s) args 0 max_args max_size))"

text \<open>The string in an array of \<open>n\<close> bytes.\<close>

definition cstr :: "mem \<Rightarrow> addr \<Rightarrow> nat \<Rightarrow> string" where
  "cstr m a n = takeWhile (\<lambda>c. c \<noteq> NUL) (bytes_at m a n)"

fun copy_args_back :: "mem \<Rightarrow> addr list \<Rightarrow> addr list \<Rightarrow> nat \<Rightarrow> mem" where
  "copy_args_back m (a # args) (t # temp_args) max_size =
     copy_args_back ((user_strncpy m a t max_size)(a + max_size - 1 := NUL)) args temp_args max_size"
| "copy_args_back m args temp_args max_size = m"

text \<open>\<open>temp_storage\<close> is the address of the local array of rows; \<^verbatim>\<open>strncpy\<close> into the local \<^verbatim>\<open>buffer\<close> leaves
  the first 1023 characters of the argument there.\<close>

definition analize_arg :: "mem \<Rightarrow> addr \<Rightarrow> string option \<Rightarrow> addr list \<Rightarrow> nat \<Rightarrow> nat \<Rightarrow> (int \<times> mem) option" where
  "analize_arg m temp_storage arg args expected_args max_size =
     (if arg = None \<or> arg = Some [] then Some (if expected_args = 0 then 0 else -1, m)
      else do {
        let buffer = take 1023 (the arg);
        let temp_args = map (\<lambda>i. temp_storage + max_size * i) [0..<expected_args + 2];
        (num_args, m) \<leftarrow> parse_string m (Some buffer) temp_args (expected_args + 2) max_size;
        if num_args < 0 then Some (-1, m) else do {
          let has_background = num_args > 0 \<and> strcmp (cstr m (temp_args ! nat (num_args - 1)) max_size) ''&'' = 0;
          let num_args = (if has_background then num_args - 1 else num_args);
          if num_args \<noteq> int expected_args then Some (-1, m)
          else if length args < expected_args then None
          else Some (if has_background then 1 else 0, copy_args_back m (take expected_args args) (take expected_args temp_args) max_size)
        }
      })"

end
