(* ===== verification/Shell_Functions.thy ===== *)
theory Shell_Functions
  imports User_Programs
begin

text \<open>
  The commands of the shell, \<^verbatim>\<open>Userland/SampleCodeModule/shell/shellfunctions.c\<close>: the handlers that
  start a process for a command, the small programs among them and the built-in commands.

  The addresses of the local arrays in which the handlers parse their argument are in the record
  \<open>frame\<close>, together with the contents of the stack at that moment.  A function pointer is the
  name of the function.
\<close>

record frame =
  stack :: mem
  arg_storage :: addr
  temp_storage :: addr
  past_end :: string

abbreviation nl :: string where "nl \<equiv> [CHR 0x0A]"

section \<open>Starting processes\<close>

definition create_simple_process :: "string \<Rightarrow> string \<Rightarrow> int \<Rightarrow> int \<Rightarrow> int \<Rightarrow> world \<Rightarrow> (int \<times> world) option" where
  "create_simple_process nm fn fg sin sout w = (let (a, w) = ask (Create nm fn Null 4 fg sin sout) w; p = s32 (ret a) in
     if p < 0 then map_option (Pair (-1)) (printferror_world (''Error al crear el proceso %s'' @ nl) [AStr nm] w)
     else Some (p, w))"

definition create_process_with_args :: "string \<Rightarrow> string \<Rightarrow> string list \<Rightarrow> nat \<Rightarrow> int \<Rightarrow> int \<Rightarrow> int \<Rightarrow> world \<Rightarrow> (int \<times> world) option" where
  "create_process_with_args nm fn args argc fg sin sout w = do {
     (argv, w) \<leftarrow> malloc_world ((argc + 1) * 8) w;
     if argv = 0 then map_option (Pair (-1)) (printferror_world (''Error al asignar memoria para los argumentos'' @ nl) [] w)
     else (let (a, w) = ask (Create nm fn (Argv (take argc args)) 5 fg sin sout) w; p = s32 (ret a); w = free_world argv w in
       if p < 0 then map_option (Pair (-1)) (printferror_world (''Error al crear el proceso %s'' @ nl) [AStr nm] w)
       else Some (p, w))
   }"

definition handle_process_with_args ::
    "frame \<Rightarrow> string \<Rightarrow> string \<Rightarrow> string \<Rightarrow> nat \<Rightarrow> string \<Rightarrow> int \<Rightarrow> int \<Rightarrow> bool \<Rightarrow> world \<Rightarrow> (int \<times> world) option" where
  "handle_process_with_args F nm fn arg expected_argc usage sin sout use_stdin w = do {
     let args = map (\<lambda>i. arg_storage F + 32 * i) [0..<if expected_argc > 0 then expected_argc else 1];
     (bg, m) \<leftarrow> analize_arg (stack F) (temp_storage F) (Some arg) args expected_argc 32;
     if bg = -1 then map_option (Pair (-1)) (printferror_world ''%s'' [AStr usage] w)
     else do {
       let fg = (if bg = 0 then 1 else 0);
       let inp = (if use_stdin then sin else -1);
       (p, w) \<leftarrow> (if expected_argc = 0 then create_simple_process nm fn fg inp sout w
         else create_process_with_args nm fn (map (\<lambda>a. cstr m a 32) args) expected_argc fg inp sout w);
       Some (if p < 0 then -1 else if fg \<noteq> 0 then p else 0, w)
     }
   }"

definition checkErrorInPid :: "nat \<Rightarrow> world \<Rightarrow> (bool \<times> world) option" where
  "checkErrorInPid p w = (if p = 1 then map_option (Pair True) (printferror_world (''Error: la shell no se toca'' @ nl) [] w)
     else if p = 0 then map_option (Pair True) (printferror_world (''Error: idle no se toca'' @ nl) [] w)
     else Some (False, w))"

definition clearBuffer :: "world \<Rightarrow> world" where
  "clearBuffer w = tell (Clear_pipe 0) w"

section \<open>The programs of the commands\<close>

fun print_lines :: "string list \<Rightarrow> world \<Rightarrow> world option" where
  "print_lines [] w = Some w"
| "print_lines (l # ls) w = Option.bind (print_world (l @ nl) [] w) (print_lines ls)"

definition doHelp :: "world \<Rightarrow> (nat \<times> world) option" where
  "doHelp w = map_option (Pair 0) (print_lines [
     CHR 0x0A # '' Lista de comandos disponibles:'',
     '' - help: muestra este menu de ayuda'',
     '' - echo <texto>: imprime el texto especificado'',
     '' - clear: borra la pantalla y comienza arriba'',
     '' - memInfo: muestra estado de memoria'',
     '' - ps: muestra todos los procesos con su informacion'',
     '' - loop <tiempo>: imprime su PID cada tiempo especificado'',
     '' - kill <pid>: mata el proceso con el PID especificado'',
     '' - nice <pid> <prioridad>: cambia la prioridad de un proceso (0-5)'',
     '' - block <pid>: bloquea el proceso con el PID especificado'',
     '' - unblock <pid>: desbloquea el proceso con el PID especificado'',
     '' - cat: muestra el input tal cual se recibe (usa Ctrl+D para terminar)'',
     '' - wc: cuenta la cantidad de lineas del input'',
     '' - filter: filtra las vocales del input'',
     '' - <comando> | <comando>: conecta dos procesos con un pipe'',
     '' - <comando> &: ejecuta el comando en background'',
     '' - test_mm <max_memory>: test de gestion de memoria'',
     '' - test_processes <max_processes>: test de creacion y manejo de procesos'',
     '' - test_prio <max_value>: test de prioridades.'',
     '' - test_sync <iterations> <use_sem>: test de sincronizacion (0=sin sem, 1=con sem)'',
     '' - test_malloc_free: test de malloc y free'',
     '' - mvar <writers> <readers>: lanza la simulacion MVar (background)'',
     '' - Ctrl + C: mata el proceso en foreground'',
     '' - Ctrl + D: envia EOF (fin de archivo) al proceso''] w)"

definition echo :: "string list \<Rightarrow> world \<Rightarrow> (nat \<times> world) option" where
  "echo argv w = (case argv of [] \<Rightarrow> Some (1, w) | a # _ \<Rightarrow> map_option (Pair 0) (print_world (''%s'' @ nl) [AStr a] w))"

definition clearScreen_prog :: "world \<Rightarrow> nat \<times> world" where
  "clearScreen_prog w = (0, tell Clear_screen w)"

text \<open>A field of the structure a call fills; reading one it did not fill is a fault.\<close>

definition out_val :: "answer \<Rightarrow> nat \<Rightarrow> nat option" where
  "out_val a i = (if i < length (outs a) then Some (outs a ! i) else None)"

definition showMemInfo :: "world \<Rightarrow> (nat \<times> world) option" where
  "showMemInfo w = do {
     w \<leftarrow> print_world (''[Memoria] Estado:'' @ nl) [] w;
     let (a, w) = ask Mem_info w;
     if ret a = -1 then map_option (Pair 1) (printferror_world (''Error al obtener el estado de memoria'' @ nl) [] w)
     else do {
       t \<leftarrow> out_val a 0; u \<leftarrow> out_val a 1; f \<leftarrow> out_val a 2;
       w \<leftarrow> print_world (''Memoria total: %l bytes'' @ nl) [AU64 t] w;
       w \<leftarrow> print_world (''Memoria usada: %l bytes'' @ nl) [AU64 u] w;
       w \<leftarrow> print_world (''Memoria libre: %l bytes'' @ nl) [AU64 f] w;
       Some (0, w)
     }
   }"

fun print_processes :: "PCB list \<Rightarrow> nat \<Rightarrow> world \<Rightarrow> world option" where
  "print_processes ps 0 w = Some w"
| "print_processes [] (Suc n) w = None"
| "print_processes (p # ps) (Suc n) w = Option.bind (printProcessInfo p w) (print_processes ps n)"

definition processInfo :: "world \<Rightarrow> (nat \<times> world) option" where
  "processInfo w = do {
     let (a, w) = ask Process_info w;
     cantProcesses \<leftarrow> out_val a 0;
     if cantProcesses = 0 \<or> to_u64 (ret a) = 0
     then map_option (Pair (to_u64 (-1))) (printferror_world (''No se encontraron procesos.'' @ nl) [] w)
     else do {
       w \<leftarrow> printHeader w;
       w \<leftarrow> print_processes (table a) cantProcesses w;
       Some (0, tell (Free (to_u64 (ret a))) w)
     }
   }"

definition nice :: "string list \<Rightarrow> world \<Rightarrow> (nat \<times> world) option" where
  "nice argv w = (case argv of a # b # _ \<Rightarrow> do {
       let p = to_u64 (satoi (Some a));
       let new_priority = s8 (satoi (Some b));
       (e, w) \<leftarrow> checkErrorInPid p w;
       if e then Some (1, w)
       else if new_priority < 0 \<or> new_priority > 5
       then map_option (Pair 1) (printferror_world (''Error: la prioridad debe estar entre 0 y 5'' @ nl) [] w)
       else do {
         let (r, w) = ask (Change_prio p new_priority) w;
         if s8 (ret r) = -1 then map_option (Pair 1) (printferror_world (''Error al cambiar la prioridad del proceso %l'' @ nl) [AU64 p] w)
         else map_option (Pair 0) (printfc_world 0x00FF6BE6 (''Prioridad del proceso %l cambiada a %d'' @ nl) [AU64 p, AInt new_priority] w)
       }
     } | _ \<Rightarrow> None)"

definition print_memory :: "string \<Rightarrow> world \<Rightarrow> world option" where
  "print_memory heading w = do {
     w \<leftarrow> print_world (heading @ nl) [] w;
     let (a, w) = ask Mem_info w;
     u \<leftarrow> out_val a 1; f \<leftarrow> out_val a 2;
     print_world (''Usada: %l, Libre: %l'' @ nl) [AU64 u, AU64 f] w
   }"

definition test_malloc_free :: "world \<Rightarrow> (nat \<times> world) option" where
  "test_malloc_free w = do {
     w \<leftarrow> print_memory ''Estado de memoria antes de malloc:'' w;
     let (ptr, w) = syscall_alloc w 1000;
     if ptr = 0 then map_option (Pair 1) (printferror_world (''Error al reservar memoria'' @ nl) [] w)
     else do {
       w \<leftarrow> print_memory ''Estado de memoria despues de malloc:'' w;
       w \<leftarrow> print_memory ''Estado de memoria despues de free:'' (tell (Free ptr) w);
       Some (0, w)
     }
   }"

section \<open>The handlers\<close>

type_synonym handler = "frame \<Rightarrow> addr \<Rightarrow> string \<Rightarrow> int \<Rightarrow> int \<Rightarrow> world \<Rightarrow> (int \<times> world) option"

text \<open>A handler gets the argument as the pointer and the string it points to.\<close>

definition handle_mvar :: handler where
  "handle_mvar F arg text sin sout w = handle_process_with_args F ''mvar'' ''mvar'' text 2 (''Uso: mvar <writers> <readers>'' @ nl) sin sout False w"

definition handle_help :: handler where
  "handle_help F arg text sin sout w = create_simple_process ''help'' ''doHelp'' 1 sin sout (free_world arg w)"

text \<open>\<^verbatim>\<open>&arg\<close> is an array of one pointer with nothing behind it.\<close>

definition handle_echo :: handler where
  "handle_echo F arg text sin sout w = (let (a, w) = ask (Create ''echo'' ''echo'' (Unterminated [text]) 1 1 (-1) sout) w in Some (s32 (ret a), w))"

definition handle_clear :: handler where
  "handle_clear F arg text sin sout w = create_simple_process ''clear'' ''clearScreen'' 1 sin sout (free_world arg w)"

definition handle_mem_info :: handler where
  "handle_mem_info F arg text sin sout w = (let (a, w) = ask (Create ''memInfo'' ''showMemInfo'' Null 1 1 sin sout) w in Some (s32 (ret a), w))"

definition handle_test_mm :: handler where
  "handle_test_mm F arg text sin sout w = handle_process_with_args F ''test_mm'' ''test_mm'' text 1 (''Uso: test_mm <max_memory>'' @ nl) sin sout False w"

definition handle_test_processes :: handler where
  "handle_test_processes F arg text sin sout w = handle_process_with_args F ''test_processes'' ''test_processes'' text 1
     (''Uso: test_processes <max_processes>'' @ nl) sin sout False w"

definition handle_test_prio :: handler where
  "handle_test_prio F arg text sin sout w = handle_process_with_args F ''test_prio'' ''test_prio'' text 1 (''Uso: test_prio <max_value>'' @ nl) sin sout False w"

definition handle_test_sync :: handler where
  "handle_test_sync F arg text sin sout w = handle_process_with_args F ''test_sync'' ''test_sync'' text 2
     (''Uso: test_sync <iterations> <use_sem>'' @ nl @ ''  iterations: numero de iteraciones por proceso'' @ nl
      @ ''  use_sem: 1 para usar semaforos, 0 para no usarlos'' @ nl) sin sout False w"

definition handle_ps :: handler where
  "handle_ps F arg text sin sout w = handle_process_with_args F ''ps'' ''processInfo'' text 0 (''Uso: ps'' @ nl) sin sout False w"

definition handle_loop :: handler where
  "handle_loop F arg text sin sout w = handle_process_with_args F ''loop'' ''loop'' text 1 (''Uso: loop <time>'' @ nl) sin sout False w"

definition handle_wc :: handler where
  "handle_wc F arg text sin sout w = handle_process_with_args F ''wc'' ''wc'' text 0 (''Uso: wc'' @ nl) sin sout True w"

definition handle_filter :: handler where
  "handle_filter F arg text sin sout w = handle_process_with_args F ''filter'' ''filter'' text 0 (''Uso: filter'' @ nl) sin sout True w"

definition handle_cat :: handler where
  "handle_cat F arg text sin sout w = handle_process_with_args F ''cat'' ''cat'' text 0 (''Uso: cat'' @ nl) sin sout True w"

definition handle_nice :: handler where
  "handle_nice F arg text sin sout w = handle_process_with_args F ''nice'' ''nice'' text 2 (''Uso: nice <pid> <new_priority>'' @ nl) sin sout False w"

definition handle_test_malloc_free :: handler where
  "handle_test_malloc_free F arg text sin sout w = create_simple_process ''test_malloc_free'' ''test_malloc_free'' 1 (-1) sout (free_world arg w)"

section \<open>Built-in commands\<close>

definition kill_cmd :: "string \<Rightarrow> world \<Rightarrow> world option" where
  "kill_cmd arg w = do {
     let p = to_u64 (satoi (Some arg));
     (e, w) \<leftarrow> checkErrorInPid p w;
     if e then Some w else do {
       let (a, w) = ask (Kill p) w;
       if to_u64 (ret a) = to_u64 (-1) then printferror_world (''Error al matar el proceso %l'' @ nl) [AU64 p] w
       else printfc_world 0x00C896FF (''Proceso %l finalizado'' @ nl) [AU64 p] w
     }
   }"

definition block_cmd :: "string \<Rightarrow> world \<Rightarrow> world option" where
  "block_cmd arg w = do {
     let p = to_u64 (satoi (Some arg));
     (e, w) \<leftarrow> checkErrorInPid p w;
     if e then Some w else do {
       let (a, w) = ask (Block p) w;
       if to_u64 (ret a) = to_u64 (-1) then printferror_world (''Error al bloquear el proceso %l'' @ nl) [AU64 p] w
       else printfc_world 0x00FFE66D (''Proceso %l bloqueado'' @ nl) [AU64 p] w
     }
   }"

definition unblock_cmd :: "string \<Rightarrow> world \<Rightarrow> world option" where
  "unblock_cmd arg w = do {
     let p = to_u64 (satoi (Some arg));
     (e, w) \<leftarrow> checkErrorInPid p w;
     if e then Some w else do {
       let (a, w) = ask (Unblock p) w;
       if to_u64 (ret a) = to_u64 (-1) then printferror_world (''Error al desbloquear el proceso %l'' @ nl) [AU64 p] w
       else printfc_world 0x00FFB6D9 (''Proceso %l desbloqueado'' @ nl) [AU64 p] w
     }
   }"

end
