(* ===== verification/Shell.thy ===== *)
theory Shell
  imports Shell_Functions
begin

text \<open>
  The shell, \<^verbatim>\<open>Userland/SampleCodeModule/shell/shell.c\<close>: reading a command line, finding the one or two
  commands in it, and running a command alone, through a pipe or inside the shell.

  The command structure of a round is a value beside the address it was allocated at.  The table
  of commands has 19 entries and the search looks at 20: \<open>past_end\<close> is the string it finds behind
  the table.  A call through an entry of the handler table that is not there is a fault.
\<close>

definition MAX_USERNAME_LENGTH :: nat where "MAX_USERNAME_LENGTH = 16"
definition CANT_INSTRUCTIONS :: nat where "CANT_INSTRUCTIONS = 21"

record command =
  instruction :: int
  arguments :: addr
  argtext :: string

record pipeCmd =
  cmd1 :: command
  cmd2 :: command

definition KILL_NUM :: int where "KILL_NUM = 16"
definition EXIT_NUM :: int where "EXIT_NUM = 19"

definition IS_BUILT_IN :: "int \<Rightarrow> bool" where
  "IS_BUILT_IN i \<longleftrightarrow> i \<ge> KILL_NUM \<and> i < EXIT_NUM"

section \<open>Tables\<close>

definition inst_list :: "string list" where
  "inst_list = [''help'', ''echo'', ''clear'', ''test_mm'', ''test_processes'', ''test_prio'', ''test_sync'', ''ps'', ''memInfo'', ''loop'',
     ''wc'', ''filter'', ''cat'', ''mvar'', ''test_malloc_free'', ''nice'', ''kill'', ''block'', ''unblock'']"

text \<open>The last two entries of the table of 18 are null pointers.\<close>

definition instruction_handlers :: "handler option list" where
  "instruction_handlers = map Some [handle_help, handle_echo, handle_clear, handle_test_mm, handle_test_processes, handle_test_prio,
     handle_test_sync, handle_ps, handle_mem_info, handle_loop, handle_wc, handle_filter, handle_cat, handle_mvar,
     handle_test_malloc_free, handle_nice] @ [None, None]"

definition built_in_handlers :: "(string \<Rightarrow> world \<Rightarrow> world option) list" where
  "built_in_handlers = [kill_cmd, block_cmd, unblock_cmd]"

text \<open>The call through the table of handlers.\<close>

definition run_handler :: "frame \<Rightarrow> command \<Rightarrow> int \<Rightarrow> int \<Rightarrow> world \<Rightarrow> (int \<times> world) option" where
  "run_handler F c sin sout w = (if 0 \<le> instruction c \<and> instruction c < int (length instruction_handlers)
     then (case instruction_handlers ! nat (instruction c) of None \<Rightarrow> None | Some h \<Rightarrow> h F (arguments c) (argtext c) sin sout w) else None)"

section \<open>Memory\<close>

definition safe_malloc :: "nat \<Rightarrow> string \<Rightarrow> world \<Rightarrow> (addr \<times> world) option" where
  "safe_malloc sz error_msg w = do {
     (ptr, w) \<leftarrow> malloc_world sz w;
     if ptr = 0 then map_option (Pair ptr) (printferror_world ''%s'' [AStr error_msg] w) else Some (ptr, w)
   }"

definition free_pipe_cmd :: "addr \<Rightarrow> pipeCmd \<Rightarrow> world \<Rightarrow> world" where
  "free_pipe_cmd ptr pc w = (if ptr = 0 then w
     else free_world ptr (free_world (arguments (cmd2 pc)) (free_world (arguments (cmd1 pc)) w)))"

definition error_and_cleanup :: "string \<Rightarrow> addr \<Rightarrow> pipeCmd \<Rightarrow> world \<Rightarrow> world option" where
  "error_and_cleanup error_msg ptr pc w = map_option (free_pipe_cmd ptr pc) (printferror_world ''%s'' [AStr error_msg] w)"

section \<open>Running commands\<close>

definition status_of :: "answer \<Rightarrow> int" where
  "status_of a = (case outs a of [] \<Rightarrow> 0 | v # _ \<Rightarrow> s32 (int v))"

definition handle_single_command :: "frame \<Rightarrow> addr \<Rightarrow> pipeCmd \<Rightarrow> world \<Rightarrow> (int \<times> world) option" where
  "handle_single_command F ptr pc w = do {
     (p, w) \<leftarrow> run_handler F (cmd1 pc) 0 1 w;
     w \<leftarrow> (if p < 0 then printferror_world (''No se pudo ejecutar el comando.'' @ nl) [] w
       else if p = 0 then print_world (''Proceso lanzado en background.'' @ nl) [] w
       else (let (a, w) = ask (Waitpid p) w in
         if status_of a \<noteq> 0 then print_world (''Proceso %d terminado con estado %d'' @ nl) [AInt p, AInt (status_of a)] w else Some w));
     Some (0, free_world ptr (free_world (arguments (cmd1 pc)) w))
   }"

definition handle_builtin_command :: "addr \<Rightarrow> pipeCmd \<Rightarrow> world \<Rightarrow> world option" where
  "handle_builtin_command ptr pc w = (if instruction (cmd1 pc) = -1 then error_and_cleanup (''Comando invalido.'' @ nl) ptr pc w
     else if IS_BUILT_IN (instruction (cmd1 pc)) then do {
       w \<leftarrow> (built_in_handlers ! nat (instruction (cmd1 pc) - KILL_NUM)) (argtext (cmd1 pc)) w;
       Some (free_world ptr (free_world (arguments (cmd1 pc)) w))
     } else Some w)"

definition handle_piped_commands :: "frame \<Rightarrow> addr \<Rightarrow> pipeCmd \<Rightarrow> world \<Rightarrow> world option" where
  "handle_piped_commands F ptr pc w =
     (if instruction (cmd1 pc) = -1 \<or> instruction (cmd2 pc) = -1 then error_and_cleanup (''Comando invalido.'' @ nl) ptr pc w
      else if IS_BUILT_IN (instruction (cmd1 pc)) \<or> IS_BUILT_IN (instruction (cmd2 pc))
      then error_and_cleanup (''No se pueden usar comandos built-in con pipes.'' @ nl) ptr pc w
      else do {
        let (a, w) = ask Open_pipe w;
        let pipe = s32 (ret a);
        if pipe < 0 then error_and_cleanup (''Error al abrir el pipe'' @ nl) ptr pc w
        else do {
          (p0, w) \<leftarrow> run_handler F (cmd1 pc) 0 pipe w;
          (p1, w) \<leftarrow> run_handler F (cmd2 pc) pipe 1 w;
          if p0 < 0 \<or> p1 < 0 then do {
            w \<leftarrow> printferror_world (''Error al crear los procesos del pipe'' @ nl) [] w;
            Some (free_pipe_cmd ptr pc (tell (Close_pipe pipe) w))
          } else do {
            let w = free_world (arguments (cmd1 pc)) (tell (Waitpid p0) w);
            let w = free_world (arguments (cmd2 pc)) (tell (Waitpid p1) w);
            Some (tell (Close_pipe pipe) (free_world ptr w))
          }
        }
      })"

section \<open>Reading commands\<close>

fun verify_loop :: "string list \<Rightarrow> int \<Rightarrow> string \<Rightarrow> int" where
  "verify_loop [] i word = -1"
| "verify_loop (x # xs) i word = (if strcmp x word = 0 then i else verify_loop xs (i + 1) word)"

definition verifyInstruction :: "frame \<Rightarrow> string \<Rightarrow> int" where
  "verifyInstruction F word = verify_loop (take (CANT_INSTRUCTIONS - 1) (inst_list @ [past_end F])) 0 word"

text \<open>The word up to a space or NUL, with what follows it; \<open>None\<close> reads behind the array.\<close>

fun scan_word :: "string \<Rightarrow> (string \<times> string) option" where
  "scan_word [] = None"
| "scan_word (c # cs) = (if c = CHR '' '' \<or> c = NUL then Some ([], cs) else map_option (apfst (Cons c)) (scan_word cs))"

fun scan_args :: "string \<Rightarrow> string option" where
  "scan_args [] = None"
| "scan_args (c # cs) = (if c = NUL \<or> c = CHR 0x0A then Some [] else map_option (Cons c) (scan_args cs))"

text \<open>\<open>buffer\<close> is the array from the pointer \<open>ptr\<close> on; the result is the number of the command and
  the string left in \<open>arguments\<close> (nothing, when there is no memory for the word).\<close>

definition getInstruction :: "frame \<Rightarrow> addr \<Rightarrow> string \<Rightarrow> addr \<Rightarrow> world \<Rightarrow> ((int \<times> string) \<times> world) option" where
  "getInstruction F ptr buffer args w = do {
     (instr, w) \<leftarrow> safe_malloc BUFFER_SPACE (''Error al asignar memoria para la instruccion.'' @ nl) w;
     if instr = 0 then Some ((-1, []), w)
     else do {
       (word, rest) \<leftarrow> scan_word buffer;
       if args = 0 then None else do {
         text \<leftarrow> scan_args rest;
         let w = free_world ptr w;
         let iNum = verifyInstruction F word;
         w \<leftarrow> (if iNum = -1 \<and> word \<noteq> [] then printferror_world (''Comando no reconocido: %s'' @ nl) [AStr word] w else Some w);
         Some ((iNum, text), free_world instr w)
       }
     }
   }"

text \<open>The second command, behind the bar at position \<open>p\<close> of the buffer.\<close>

definition second_command :: "frame \<Rightarrow> addr \<Rightarrow> string \<Rightarrow> nat \<Rightarrow> pipeCmd \<Rightarrow> world \<Rightarrow> ((string \<times> pipeCmd) \<times> world) option" where
  "second_command F buf b p pc w = (if p = 0 \<or> length b \<le> p + 1 then None
     else do {
       let b = b[p - 1 := NUL, p := NUL, p + 1 := NUL];
       (arg2, w) \<leftarrow> malloc_world BUFFER_SPACE w;
       ((i, text), w) \<leftarrow> getInstruction F (buf + p + 2) (drop (p + 2) b) arg2 w;
       Some ((b, pc\<lparr>cmd2 := \<lparr>instruction = i, arguments = arg2, argtext = text\<rparr>\<rparr>), w)
     })"

definition first_command :: "frame \<Rightarrow> addr \<Rightarrow> string \<Rightarrow> pipeCmd \<Rightarrow> world \<Rightarrow> (pipeCmd \<times> world) option" where
  "first_command F buf b pc w = do {
     (arg1, w) \<leftarrow> malloc_world BUFFER_SPACE w;
     ((i, text), w) \<leftarrow> getInstruction F buf b arg1 w;
     Some (pc\<lparr>cmd1 := \<lparr>instruction = i, arguments = arg1, argtext = text\<rparr>\<rparr>, w)
   }"

text \<open>The number of commands found, or -1 when the structure is already released.\<close>

definition count_commands :: "addr \<Rightarrow> pipeCmd \<Rightarrow> world \<Rightarrow> (int \<times> world) option" where
  "count_commands ptr pc w =
     (if IS_BUILT_IN (instruction (cmd1 pc)) \<and> IS_BUILT_IN (instruction (cmd2 pc)) then
        map_option (\<lambda>w. (-1, free_world ptr (free_world (arguments (cmd2 pc)) (free_world (arguments (cmd1 pc)) w))))
          (printferror_world (''No se pueden usar comandos built-in con pipes.'' @ nl) [] w)
      else if IS_BUILT_IN (instruction (cmd1 pc)) then Some (0, w)
      else Some ((if instruction (cmd1 pc) \<ge> 0 then 1 else 0) + (if instruction (cmd2 pc) \<ge> 0 then 1 else 0), w))"

definition bufferControl :: "frame \<Rightarrow> addr \<Rightarrow> pipeCmd \<Rightarrow> world \<Rightarrow> ((int \<times> pipeCmd) option \<times> world) option" where
  "bufferControl F ptr pc w = do {
     (buf, w) \<leftarrow> malloc_world BUFFER_SPACE w;
     if buf = 0 then map_option (Pair (Some (-1, pc))) (print_world (''Error al asignar memoria para el buffer.'' @ nl) [] w)
     else after_input (readLine (replicate BUFFER_SPACE NUL) BUFFER_SPACE w) (\<lambda>(b, _) w. do {
       ((b, pc), w) \<leftarrow> (case strstr (takeWhile (\<lambda>c. c \<noteq> NUL) b) ''|'' of None \<Rightarrow> Some ((b, pc), w)
         | Some p \<Rightarrow> second_command F buf b p pc w);
       (pc, w) \<leftarrow> first_command F buf b pc w;
       (n, w) \<leftarrow> count_commands ptr pc w;
       Some ((n, pc), w)
     })
   }"

section \<open>The shell\<close>

definition sizeof_pipeCmd :: nat where "sizeof_pipeCmd = 48"

definition no_command :: command where
  "no_command = \<lparr>instruction = -1, arguments = 0, argtext = []\<rparr>"

text \<open>The switch over the number of commands.\<close>

definition run_commands :: "frame \<Rightarrow> addr \<Rightarrow> int \<Rightarrow> pipeCmd \<Rightarrow> world \<Rightarrow> (nat option \<times> world) option" where
  "run_commands F ptr n pc w =
     (if n = 0 then map_option (Pair None) (handle_builtin_command ptr pc w)
      else if n = 1 then map_option (\<lambda>(r, w). (if r \<noteq> 0 then Some 0 else None, w)) (handle_single_command F ptr pc w)
      else if n = 2 then map_option (Pair None) (handle_piped_commands F ptr pc w)
      else Some (None, w))"

text \<open>One round of the loop: \<open>Some None\<close> goes on, \<open>Some (Some r)\<close> leaves the shell with \<open>r\<close>.\<close>

definition shell_round :: "frame \<Rightarrow> string \<Rightarrow> world \<Rightarrow> (nat option option \<times> world) option" where
  "shell_round F username w = do {
     w \<leftarrow> print_world ''%s@sh$ '' [AStr username] (clearBuffer w);
     (ptr, w) \<leftarrow> malloc_world sizeof_pipeCmd w;
     if ptr = 0 then map_option (Pair (Some (Some 1))) (printferror_world (''Error al asignar memoria para los argumentos.'' @ nl) [] w)
     else after_input (bufferControl F ptr \<lparr>cmd1 = no_command, cmd2 = no_command\<rparr> w) (\<lambda>(n, pc) w. run_commands F ptr n pc w)
   }"

text \<open>At most \<open>fuel\<close> rounds.  The outer option of the result is \<open>None\<close> while the shell waits for input
  or would go on.\<close>

fun shell_loop :: "nat \<Rightarrow> frame \<Rightarrow> string \<Rightarrow> world \<Rightarrow> (nat option \<times> world) option" where
  "shell_loop 0 F username w = Some (None, w)"
| "shell_loop (Suc fuel) F username w = (case shell_round F username w of None \<Rightarrow> None
     | Some (None, w) \<Rightarrow> Some (None, w)
     | Some (Some None, w) \<Rightarrow> shell_loop fuel F username w
     | Some (Some (Some r), w) \<Rightarrow> Some (Some r, if r = 0 then tell Clear_screen (tell (Wait_ticks 150) w) else w))"

definition banner :: "world \<Rightarrow> world option" where
  "banner w = do {
     w \<leftarrow> print_lines [[], ''  ========================================'', ''                                          '',
       ''         SHELL - Sistema Operativo                ''] (tell (Size_up 1) (tell Clear_screen w));
     w \<leftarrow> printfc_world 0x006BFFF6 (''               TP2 - Grupo 15                     '' @ nl) [] w;
     w \<leftarrow> print_lines [''                                           '', ''  ========================================'', []] w;
     w \<leftarrow> print_lines [''  > Bienvenido a la shell interactiva'', ''  > Escribe '' @ [CHR 0x27] @ ''help'' @ [CHR 0x27] @ '' para ver todos los comandos'', []]
       (tell (Size_down 1) w);
     print_world ''  Ingrese su nombre de usuario: '' [] w
   }"

definition shell :: "nat \<Rightarrow> frame \<Rightarrow> world \<Rightarrow> (nat option \<times> world) option" where
  "shell fuel F w = do {
     w \<leftarrow> banner w;
     (r, w) \<leftarrow> readLine (replicate MAX_USERNAME_LENGTH NUL) MAX_USERNAME_LENGTH w;
     case r of None \<Rightarrow> Some (None, w)
     | Some (b, _) \<Rightarrow> shell_loop fuel F (takeWhile (\<lambda>c. c \<noteq> NUL) b) (tell Clear_screen w)
   }"

end
