(* ===== verification/Program_Properties.thy ===== *)
theory Program_Properties
  imports User_Programs
begin

text \<open>
  Properties of the programs of the shell: what \<^verbatim>\<open>cat\<close>, \<^verbatim>\<open>wc\<close> and \<^verbatim>\<open>filter\<close> write for a given input,
  the line editor as an editor of lists, and the argument parser against a reference that
  splits a string into words.
\<close>

section \<open>Streams\<close>

abbreviation eof :: char where "eof \<equiv> CHR 0xFF"

text \<open>The characters a program gets to see: NUL is skipped.\<close>

abbreviation visible :: "string \<Rightarrow> string" where "visible cs \<equiv> filter (\<lambda>c. c \<noteq> NUL) cs"

abbreviation echoes :: "string \<Rightarrow> call list" where "echoes cs \<equiv> map (\<lambda>c. Write 1 [c]) cs"

lemma sc_eof: "sc c = EOF \<longleftrightarrow> c = eof"
proof -
  have "sc eof = -1" by (simp add: sc_def)
  then show ?thesis using sc_inj [of c eof] by (simp add: EOF_def)
qed

fun bump :: "string \<Rightarrow> int \<Rightarrow> int" where
  "bump [] n = n"
| "bump (c # cs) n = bump cs (s32 (n + 1))"

lemma process_loop_eof:
  "eof \<notin> set cs \<Longrightarrow> \<exists>w'. process_loop f (cs @ eof # rest) ctx n w = Some (Some (bump (visible cs) n, fold f (visible cs) ctx), w')
     \<and> input w' = rest \<and> calls w' = calls w @ echoes (visible cs)"
proof (induction cs arbitrary: ctx n w)
  case Nil
  then show ?case by (simp add: sc_eof)
next
  case (Cons c cs)
  show ?case
  proof (cases "c = NUL")
    case True
    then show ?thesis using Cons(1) [of ctx n w] Cons(2) by (simp add: sc_eof)
  next
    case False
    then show ?thesis using Cons(1) [of "f c ctx" "s32 (n + 1)" "tell (Write 1 [c]) w"] Cons(2)
      by (auto simp: sc_eof print_char)
  qed
qed

lemma process_loop_waits:
  "eof \<notin> set cs \<Longrightarrow> \<exists>w'. process_loop f cs ctx n w = Some (None, w') \<and> input w' = [] \<and> calls w' = calls w @ echoes (visible cs)"
proof (induction cs arbitrary: ctx n w)
  case (Cons c cs)
  show ?case
  proof (cases "c = NUL")
    case True
    then show ?thesis using Cons(1) [of ctx n w] Cons(2) by (simp add: sc_eof)
  next
    case False
    then show ?thesis using Cons(1) [of "f c ctx" "s32 (n + 1)" "tell (Write 1 [c]) w"] Cons(2)
      by (auto simp: sc_eof print_char)
  qed
qed simp

lemma fold_filter_process:
  "length (filtered ctx) \<le> 999 \<Longrightarrow> fold filter_process_char cs ctx = ctx\<lparr>filtered := take 999 (filtered ctx @ filter (\<lambda>c. \<not> is_vowel c) cs)\<rparr>"
proof (induction cs arbitrary: ctx)
  case (Cons c cs)
  have "filter_process_char c ctx = ctx\<lparr>filtered := take 999 (filtered ctx @ filter (\<lambda>c. \<not> is_vowel c) [c])\<rparr>"
    using Cons(2) by (auto simp: filter_process_char_def BUFFER_SPACE_def take_Cons')
  moreover have "take 999 (take 999 (filtered ctx @ filter (\<lambda>c. \<not> is_vowel c) [c]) @ filter (\<lambda>c. \<not> is_vowel c) cs)
      = take 999 (filtered ctx @ filter (\<lambda>c. \<not> is_vowel c) (c # cs))"
    using Cons(2) by (auto simp: take_append take_Cons' min_def)
  ultimately show ?case using Cons(1) [of "filter_process_char c ctx"] by (simp del: filter.simps)
qed simp

lemma fold_wc_process:
  "1 \<le> lines ctx \<Longrightarrow> lines ctx + int (length (filter (\<lambda>c. c = CHR 0x0A) cs)) < 2 ^ 31 \<Longrightarrow>
   lines (fold wc_process_char cs ctx) = lines ctx + int (length (filter (\<lambda>c. c = CHR 0x0A) cs))"
proof (induction cs arbitrary: ctx)
  case (Cons c cs)
  have "lines (wc_process_char c ctx) = lines ctx + (if c = CHR 0x0A then 1 else 0)"
    using Cons(2,3) by (auto simp: wc_process_char_def s32_small)
  then show ?case using Cons(1) [of "wc_process_char c ctx"] Cons(2,3) by (auto split: if_splits)
qed simp

lemma format_string:
  assumes "CHR ''%'' \<notin> set p" "length out + length p < 511" "CHR ''%'' \<notin> set q" "length q < 511"
  shows "format_loop (p @ CHR ''%'' # CHR ''s'' # q) (AStr s # as) out = Some (take 511 (out @ p @ s @ q))"
  using assms(1,2)
proof (induction p arbitrary: out)
  case Nil
  have *: "\<exists>r. format_loop q as out' = Some (out' @ r) \<and> r = take (511 - length out') q" if "length out' \<le> 511" for out'
    using assms(3) that
    by (induction q as out' rule: format_loop.induct) (auto simp: MAX_LENGTH_def take_Cons' Suc_diff_le)
  have "511 - length (out @ take (511 - length out) s) = 511 - (length out + length s)" by simp
  then show ?case using * [of "out @ take (511 - length out) s"] Nil
    by (auto simp: format_spec_def safe_string_copy_eq MAX_LENGTH_def)
next
  case (Cons c p)
  obtain d ds where d: "p @ CHR ''%'' # CHR ''s'' # q = d # ds" by (cases p) auto
  show ?case using Cons(1) [of "out @ [c]"] Cons(2,3) by (auto simp: d MAX_LENGTH_def)
qed


lemma print_string:
  assumes "CHR ''%'' \<notin> set p" "length p < 511" "CHR ''%'' \<notin> set q" "length q < 511"
  shows "print_world (p @ CHR ''%'' # CHR ''s'' # q) [AStr s] w = Some (tell (Write 1 (take 511 (p @ s @ q))) w)"
  using format_string [of p "[]" q s "[]"] assms
  by (simp add: print_world_def put_out_def user_printf_def format_printf_def)

lemma print_count:
  assumes "n < 2 ^ 31"
  shows "print_world (''Line count: %d'' @ [CHR 0x0A, CHR 0x0A]) [AInt (int n)] w
    = Some (tell (Write 1 (''Line count: '' @ u64_to_str n @ [CHR 0x0A, CHR 0x0A])) w)"
proof -
  have n: "int n < 2 ^ 31" using assms by (metis of_nat_less_iff of_nat_numeral of_nat_power)
  have "signedIntToStr (int n) = Some (u64_to_str n)"
    using n by (simp add: signedIntToStr_def u64_to_str_eq to_u64_nonneg uintToBase_eq)
  moreover have "length (u64_to_str n) \<le> 10"
    using digits_10 [of n] assms by (simp add: u64_to_str_eq)
  ultimately show ?thesis
    by (simp add: print_world_def put_out_def user_printf_def format_printf_def format_spec_def in_buffer_def MAX_INT_LENGTH_def
        MAX_LENGTH_def safe_string_copy_eq)
qed

text \<open>C22. \<^verbatim>\<open>wc\<close> and \<^verbatim>\<open>filter\<close> return at the end of the input, for any answers of the kernel, and leave
  the rest of the input unread.  Both echo every character; \<^verbatim>\<open>wc\<close> then reports the number of new
  lines, \<^verbatim>\<open>filter\<close> the input without its vowels, of which its array keeps 999 characters and \<^verbatim>\<open>printf\<close>
  writes 511 with the heading.  Without an end of input both are still waiting, with everything
  echoed.\<close>

theorem stream_programs_correct:
  assumes "eof \<notin> set cs" "length (filter (\<lambda>c. c = CHR 0x0A) cs) < 2 ^ 31 - 1"
  shows "(\<exists>w'. wc (w\<lparr>input := cs @ eof # rest\<rparr>) = Some (Some 0, w') \<and> input w' = rest
     \<and> calls w' = calls w @ echoes (visible cs) @ [Write 1 [CHR 0x0A],
          Write 1 (''Line count: '' @ u64_to_str (length (filter (\<lambda>c. c = CHR 0x0A) cs)) @ [CHR 0x0A, CHR 0x0A])])
   \<and> (\<exists>w'. filter_prog (w\<lparr>input := cs @ eof # rest\<rparr>) = Some (Some 0, w') \<and> input w' = rest
     \<and> calls w' = calls w @ echoes (visible cs) @ [Write 1 (take 511
          (CHR 0x0A # ''Filtered output:'' @ [CHR 0x0A] @ take 999 (filter (\<lambda>c. \<not> is_vowel c) (visible cs)) @ [CHR 0x0A]))])
   \<and> (\<exists>w1 w2. wc (w\<lparr>input := cs\<rparr>) = Some (None, w1) \<and> calls w1 = calls w @ echoes (visible cs)
     \<and> filter_prog (w\<lparr>input := cs\<rparr>) = Some (None, w2) \<and> calls w2 = calls w @ echoes (visible cs))"
proof (intro conjI)
  let ?nl = "length (filter (\<lambda>c. c = CHR 0x0A) cs)"
  have nl: "length (filter (\<lambda>c. c = CHR 0x0A) (visible cs)) = ?nl" by (induction cs) auto
  have cnt: "s32 (lines (fold wc_process_char (visible cs) \<lparr>lines = 1\<rparr>) - 1) = int ?nl"
    using fold_wc_process [of "\<lparr>lines = 1\<rparr>" "visible cs"] assms(2) by (simp add: nl s32_small del: filter_filter)
  obtain w1 where "process_loop wc_process_char (cs @ eof # rest) \<lparr>lines = 1\<rparr> 0 (w\<lparr>input := cs @ eof # rest\<rparr>)
      = Some (Some (bump (visible cs) 0, fold wc_process_char (visible cs) \<lparr>lines = 1\<rparr>), w1)"
    "input w1 = rest" "calls w1 = calls w @ echoes (visible cs)"
    using process_loop_eof [OF assms(1), of wc_process_char rest _ 0 "w\<lparr>input := cs @ eof # rest\<rparr>"] by fastforce
  then show "\<exists>w'. wc (w\<lparr>input := cs @ eof # rest\<rparr>) = Some (Some 0, w') \<and> input w' = rest
     \<and> calls w' = calls w @ echoes (visible cs) @ [Write 1 [CHR 0x0A],
          Write 1 (''Line count: '' @ u64_to_str ?nl @ [CHR 0x0A, CHR 0x0A])]"
    using print_count [of ?nl] assms(2)
    by (simp add: wc_def read_and_process_chars_def after_input_def cnt print_plain del: append.simps)
  obtain w2 where "process_loop filter_process_char (cs @ eof # rest) \<lparr>filtered = []\<rparr> 0 (w\<lparr>input := cs @ eof # rest\<rparr>)
      = Some (Some (bump (visible cs) 0, fold filter_process_char (visible cs) \<lparr>filtered = []\<rparr>), w2)"
    "input w2 = rest" "calls w2 = calls w @ echoes (visible cs)"
    using process_loop_eof [OF assms(1), of filter_process_char rest _ 0 "w\<lparr>input := cs @ eof # rest\<rparr>"] by fastforce
  then show "\<exists>w'. filter_prog (w\<lparr>input := cs @ eof # rest\<rparr>) = Some (Some 0, w') \<and> input w' = rest
     \<and> calls w' = calls w @ echoes (visible cs) @ [Write 1 (take 511
          (CHR 0x0A # ''Filtered output:'' @ [CHR 0x0A] @ take 999 (filter (\<lambda>c. \<not> is_vowel c) (visible cs)) @ [CHR 0x0A]))]"
    using print_string [of "CHR 0x0A # ''Filtered output:'' @ [CHR 0x0A]" "[CHR 0x0A]"]
    by (simp add: filter_prog_def read_and_process_chars_def after_input_def fold_filter_process del: filter_filter)
  show "\<exists>w1 w2. wc (w\<lparr>input := cs\<rparr>) = Some (None, w1) \<and> calls w1 = calls w @ echoes (visible cs)
     \<and> filter_prog (w\<lparr>input := cs\<rparr>) = Some (None, w2) \<and> calls w2 = calls w @ echoes (visible cs)"
    using process_loop_waits [OF assms(1), of wc_process_char "\<lparr>lines = 1\<rparr>" 0 "w\<lparr>input := cs\<rparr>"]
      process_loop_waits [OF assms(1), of filter_process_char "\<lparr>filtered = []\<rparr>" 0 "w\<lparr>input := cs\<rparr>"]
    by (auto simp: wc_def filter_prog_def read_and_process_chars_def after_input_def)
qed

theorem stream_programs_correct_witness:
  "\<exists>w'. wc \<lparr>reply = (\<lambda>_ _. \<lparr>ret = 0, outs = [], table = []\<rparr>), input = ''a'' @ [CHR 0x0A] @ eof # ''b'', trace = []\<rparr> = Some (Some 0, w')
     \<and> input w' = ''b''
     \<and> calls w' = [Write 1 ''a'', Write 1 [CHR 0x0A], Write 1 [CHR 0x0A], Write 1 (''Line count: '' @ u64_to_str 1 @ [CHR 0x0A, CHR 0x0A])]"
  using stream_programs_correct [of "''a'' @ [CHR 0x0A]" "''b''"
      "\<lparr>reply = (\<lambda>_ _. \<lparr>ret = 0, outs = [], table = []\<rparr>), input = [], trace = []\<rparr>"]
  by simp

lemma cat_loop_chars:
  "eof \<notin> set l \<Longrightarrow> CHR 0x0A \<notin> set l \<Longrightarrow> NUL \<notin> set l \<Longrightarrow> length b + length l \<le> 1000 \<Longrightarrow>
   \<exists>w'. cat_loop (l @ cs) b w = cat_loop cs (b @ l) w' \<and> input w' = input w \<and> calls w' = calls w @ echoes l"
proof (induction l arbitrary: b w)
  case (Cons c l)
  then show ?case using Cons(1) [of "b @ [c]" "tell (Write 1 [c]) w"]
    by (auto simp: sc_eof print_char BUFFER_SPACE_def)
qed auto

abbreviation cat_line :: "string \<Rightarrow> call list" where
  "cat_line l \<equiv> echoes (l @ [CHR 0x0A]) @ [Write 1 (take 511 (l @ [CHR 0x0A]))]"

text \<open>A line of text as \<^verbatim>\<open>cat\<close> receives it.\<close>

definition plain :: "string \<Rightarrow> bool" where
  "plain l \<longleftrightarrow> eof \<notin> set l \<and> CHR 0x0A \<notin> set l \<and> NUL \<notin> set l"

lemma cat_loop_line:
  assumes "plain l" "length l < 999"
  shows "\<exists>w'. cat_loop (l @ CHR 0x0A # cs) [] w = cat_loop cs [] w' \<and> input w' = input w \<and> calls w' = calls w @ cat_line l"
proof -
  obtain w1 where w1: "cat_loop (l @ CHR 0x0A # cs) [] w = cat_loop (CHR 0x0A # cs) l w1" "input w1 = input w"
    "calls w1 = calls w @ echoes l"
    using cat_loop_chars [of l "[]" "CHR 0x0A # cs" w] assms by (auto simp: plain_def)
  have "print_world ''%s'' [AStr (l @ [CHR 0x0A])] v = Some (tell (Write 1 (take 511 (l @ [CHR 0x0A]))) v)" for v
    using print_string [of "[]" "[]" "l @ [CHR 0x0A]" v] by simp
  then show ?thesis using w1 assms(2) by (auto simp: sc_eof print_char BUFFER_SPACE_def)
qed



section \<open>The line editor\<close>

text \<open>The reference: a backspace removes the last character of the line, NUL is ignored.\<close>

definition edit :: "char \<Rightarrow> string \<Rightarrow> string" where
  "edit c l = (if c = CHR 0x08 then butlast l else if c = NUL then l else l @ [c])"

lemma readLine_loop_safe:
  assumes "0 < len" "len < 2 ^ 64" "len \<le> length buff" "i < len"
  shows "\<exists>r w'. readLine_loop len cs buff i w = Some (r, w')
     \<and> (r = None \<or> (\<exists>b j. r = Some (b, j) \<and> j < len \<and> length b = length buff))"
  using assms(3,4)
proof (induction cs arbitrary: buff i w)
  case (Cons c cs)
  have sub: "sub64 len (Suc 0) = len - 1" using assms(1,2) by (simp add: sub64_le)
  consider "c = CHR 0x0A \<or> \<not> i < len - 1" | "c = CHR 0x08" "i < len - 1" "0 < i" | "c = CHR 0x08" "i < len - 1" "i = 0"
    | "c \<noteq> CHR 0x0A" "c \<noteq> CHR 0x08" "i < len - 1" "c \<noteq> NUL" | "c = NUL" "i < len - 1" by blast
  then show ?case
  proof cases
    case 1
    then show ?thesis using Cons(3) by (auto simp: sub)
  next
    case 2
    then show ?thesis using Cons(1) [of buff "i - 1" "tell (Write 1 [CHR 0x08, CHR '' '', CHR 0x08]) w"] Cons(2,3)
      by (simp add: sub print_plain)
  next
    case 4
    then show ?thesis using Cons(1) [of "buff[i := c]" "i + 1" "tell (Write 1 [c]) w"] Cons(2,3) by (auto simp: sub print_char)
  qed (use Cons in \<open>auto simp: sub\<close>)
qed simp

lemma readLine_loop_edit:
  assumes "len < 2 ^ 64" "CHR 0x0A \<notin> set cs" "i + length cs < len - 1" "len \<le> length buff" "take i buff = l" "NUL \<notin> set l"
  shows "\<exists>b j w'. readLine_loop len (cs @ CHR 0x0A # rest) buff i w = Some (Some (b, j), w') \<and> length b = length buff
     \<and> take j b = fold edit cs l \<and> j < len \<and> input w' = rest \<and> NUL \<notin> set (take j b)"
  using assms(2-)
proof (induction cs arbitrary: buff i l w)
  case (Cons c cs)
  have sub: "sub64 len (Suc 0) = len - 1" using assms(1) Cons(3) by (simp add: sub64_le)
  have i: "i < len - 1" "i < length buff" using Cons(3,4) by auto
  consider "c = CHR 0x08" "0 < i" | "c = CHR 0x08" "i = 0" | "c \<noteq> CHR 0x08" "c \<noteq> NUL" | "c = NUL" by blast
  then show ?case
  proof cases
    case 1
    have "take (i - 1) buff = butlast l" using Cons(5) i by (auto simp: butlast_take)
    moreover have "NUL \<notin> set (butlast l)" using Cons(6) by (auto dest: in_set_butlastD)
    moreover have "edit c l = butlast l" using 1 by (simp add: edit_def)
    ultimately show ?thesis using Cons(1) [of "i - 1" buff "butlast l" "tell (Write 1 [CHR 0x08, CHR '' '', CHR 0x08]) w"] Cons(2-) 1 i
      by (simp add: sub print_plain)
  next
    case 3
    have "take (i + 1) (buff[i := c]) = l @ [c]" using Cons(5) i by (simp add: take_Suc_conv_app_nth)
    then show ?thesis using Cons(1) [of "i + 1" "buff[i := c]" "l @ [c]" "tell (Write 1 [c]) w"] Cons(2-) 3 i
      by (auto simp: sub print_char edit_def)
  next
    case 2
    then show ?thesis using Cons(1) [of i buff l w] Cons(2-) i by (auto simp: sub edit_def)
  next
    case 4
    then show ?thesis using Cons(1) [of i buff l w] Cons(2-) i by (auto simp: sub edit_def)
  qed
qed (auto)

text \<open>C21. The line editor never leaves its array, whatever is typed: it returns, or waits with the
  input used up, and the array then holds a string shorter than its length.  A line that ends
  with the new line and was typed with fewer characters than the array has is what an editor of
  lists makes of the keys, backspaces included, and the rest of the input stays unread.\<close>

theorem readLine_correct:
  assumes "0 < len" "len < 2 ^ 64" "len \<le> length buff"
  shows "(\<exists>r w'. readLine buff len w = Some (r, w') \<and> (r = None \<or> (\<exists>b i. r = Some (b, i) \<and> i < len \<and> length b = length buff \<and> b ! i = NUL)))
     \<and> (CHR 0x0A \<notin> set cs \<and> length cs < len - 1 \<longrightarrow>
        (\<exists>b w'. readLine buff len (w\<lparr>input := cs @ CHR 0x0A # rest\<rparr>) = Some (Some (b, length (fold edit cs [])), w')
           \<and> takeWhile (\<lambda>c. c \<noteq> NUL) b = fold edit cs [] \<and> input w' = rest \<and> length b = length buff))"
proof (intro conjI impI)
  let ?b = "replicate len NUL @ drop len buff"
  have len: "len \<le> length ?b" "length ?b = length buff" using assms(3) by auto
  obtain r w1 where r: "readLine_loop len (input w) ?b 0 w = Some (r, w1)"
    "r = None \<or> (\<exists>b j. r = Some (b, j) \<and> j < len \<and> length b = length buff)"
    using readLine_loop_safe [OF assms(1,2) len(1) assms(1), of "input w" w] len(2) by auto
  then show "\<exists>r w'. readLine buff len w = Some (r, w')
      \<and> (r = None \<or> (\<exists>b i. r = Some (b, i) \<and> i < len \<and> length b = length buff \<and> b ! i = NUL))"
    using assms(3) by (auto simp: readLine_def after_input_def print_plain)
  assume cs: "CHR 0x0A \<notin> set cs \<and> length cs < len - 1"
  have "\<exists>b j w'. readLine_loop len (cs @ CHR 0x0A # rest) ?b 0 (w\<lparr>input := cs @ CHR 0x0A # rest\<rparr>) = Some (Some (b, j), w')
      \<and> length b = length ?b \<and> take j b = fold edit cs [] \<and> j < len \<and> input w' = rest \<and> NUL \<notin> set (take j b)"
    by (rule readLine_loop_edit) (use assms(2) cs len(1) in simp_all)
  then obtain b j w2 where b: "readLine_loop len (cs @ CHR 0x0A # rest) ?b 0 (w\<lparr>input := cs @ CHR 0x0A # rest\<rparr>) = Some (Some (b, j), w2)"
    "length b = length buff" "take j b = fold edit cs []" "j < len" "input w2 = rest" "NUL \<notin> set (take j b)"
    unfolding len(2) by blast
  have j: "j < length b" using b(2,4) assms(3) by simp
  then have "b[j := NUL] = fold edit cs [] @ NUL # drop (Suc j) b"
    using b(3) by (simp add: upd_conv_take_nth_drop)
  then have "takeWhile (\<lambda>c. c \<noteq> NUL) (b[j := NUL]) = fold edit cs []" using b(3,6) by (simp add: takeWhile_tail) (metis takeWhile_eq_all_conv)
  moreover have "j = length (fold edit cs [])" using b(3) j by (metis length_take min.absorb4)
  ultimately show "\<exists>b w'. readLine buff len (w\<lparr>input := cs @ CHR 0x0A # rest\<rparr>) = Some (Some (b, length (fold edit cs [])), w')
      \<and> takeWhile (\<lambda>c. c \<noteq> NUL) b = fold edit cs [] \<and> input w' = rest \<and> length b = length buff"
    using b(1,2,5) j assms(3) by (simp add: readLine_def after_input_def print_plain)
qed

theorem readLine_correct_witness:
  "\<exists>b w'. readLine (replicate 16 CHR ''x'') 16 \<lparr>reply = (\<lambda>_ _. \<lparr>ret = 0, outs = [], table = []\<rparr>),
       input = ''ax'' @ CHR 0x08 # ''b'' @ CHR 0x0A # ''c'', trace = []\<rparr> = Some (Some (b, length ''ab''), w')
     \<and> takeWhile (\<lambda>c. c \<noteq> NUL) b = ''ab'' \<and> input w' = ''c'' \<and> length b = 16"
  using readLine_correct [of 16 "replicate 16 CHR ''x''" "\<lparr>reply = (\<lambda>_ _. \<lparr>ret = 0, outs = [], table = []\<rparr>), input = [], trace = []\<rparr>"
      "''ax'' @ CHR 0x08 # ''b''" "''c''"]
  by (simp add: edit_def)

section \<open>Words\<close>

text \<open>The reference: the pieces between spaces, and the words, the pieces that are not empty.\<close>

fun pieces :: "string \<Rightarrow> string list" where
  "pieces [] = [[]]"
| "pieces (c # cs) = (if is_space c then [] # pieces cs else (c # hd (pieces cs)) # tl (pieces cs))"

definition words :: "string \<Rightarrow> string list" where
  "words s = filter (\<lambda>w. w \<noteq> []) (pieces s)"

lemma pieces_nonempty [simp]: "pieces s \<noteq> []"
  by (cases s) auto

lemma pieces_hd: "hd (pieces s) = takeWhile (\<lambda>c. \<not> is_space c) s"
  by (induction s) auto

lemma pieces_tl: "tl (pieces s) = (case dropWhile (\<lambda>c. \<not> is_space c) s of [] \<Rightarrow> [] | _ # r \<Rightarrow> pieces r)"
  by (induction s) auto

lemma words_space: "words (dropWhile is_space s) = words s"
  by (induction s) (auto simp: words_def)

lemma words_first:
  assumes "s \<noteq> []" "\<not> is_space (hd s)"
  shows "words s = takeWhile (\<lambda>c. \<not> is_space c) s # words (dropWhile is_space (dropWhile (\<lambda>c. \<not> is_space c) s))"
proof -
  have "words s = filter (\<lambda>w. w \<noteq> []) (hd (pieces s) # tl (pieces s))" by (simp add: words_def)
  moreover have "takeWhile (\<lambda>c. \<not> is_space c) s \<noteq> []" using assms by (cases s) auto
  moreover have "filter (\<lambda>w. w \<noteq> []) (tl (pieces s)) = words (dropWhile (\<lambda>c. \<not> is_space c) s)"
  proof (cases "dropWhile (\<lambda>c. \<not> is_space c) s")
    case (Cons c r)
    then have "is_space c" by (metis hd_dropWhile list.distinct(1) list.sel(1))
    then show ?thesis by (simp add: pieces_tl Cons words_def)
  next
    case Nil
    then show ?thesis by (simp only: pieces_tl Nil words_def) simp
  qed
  ultimately show ?thesis by (simp add: pieces_hd words_space)
qed

lemma words_Nil [simp]: "words [] = []"
  by (simp add: words_def)

section \<open>The argument parser\<close>

abbreviation row :: "addr \<Rightarrow> nat \<Rightarrow> nat \<Rightarrow> addr" where "row B ms i \<equiv> B + ms * i"

lemma string_at_terminated: "NUL \<notin> set x \<Longrightarrow> string_at ((put m a x)(a + length x := NUL)) a x"
  by (auto simp: string_at_def bytes_at_def put_def intro!: nth_equalityI simp: nth_append)

lemma string_at_cong: "string_at m a x \<Longrightarrow> (\<And>y. a \<le> y \<Longrightarrow> y \<le> a + length x \<Longrightarrow> m' y = m y) \<Longrightarrow> string_at m' a x"
  unfolding string_at_def by (metis (no_types, lifting) bytes_at_cong le_add1 less_Suc_eq_le nat_add_left_cancel_le)

lemma dropWhile_drop: "j \<le> length (takeWhile P s) \<Longrightarrow> dropWhile P (drop j s) = dropWhile P s"
proof (induction s arbitrary: j)
  case (Cons c s)
  then show ?case by (cases j) (auto split: if_splits)
qed simp

lemma parse_loop_words:
  assumes "2 \<le> ms" "mx \<le> k" "NUL \<notin> set s" "s = [] \<or> \<not> is_space (hd s)" "n \<le> mx"
  defines "ws \<equiv> take (mx - n) (words s)"
  shows "\<exists>m'. parse_loop m s (map (row B ms) [0..<k]) n mx ms = Some (n + length ws, m')
     \<and> (\<forall>i<length ws. string_at m' (row B ms (n + i)) (take (ms - 1) (ws ! i)))
     \<and> (\<forall>x. x < row B ms n \<or> row B ms mx \<le> x \<longrightarrow> m' x = m x)"
  using assms(3-5) unfolding ws_def
proof (induction "length s" arbitrary: m s n rule: less_induct)
  case less
  show ?case
  proof (cases "s = [] \<or> n = mx")
    case True
    then show ?thesis by (auto simp: parse_loop.simps [of m s])
  next
    case False
    let ?f = "takeWhile (\<lambda>c. \<not> is_space c) s" and ?r = "dropWhile (\<lambda>c. \<not> is_space c) s" and ?a = "row B ms n"
    let ?x = "take (ms - 1) ?f" and ?s' = "dropWhile is_space (dropWhile (\<lambda>c. \<not> is_space c) s)"
    have n: "n < mx" "n < k" using False less(4) assms(2) by auto
    have f: "?f \<noteq> []" using False less(3) by (cases s) auto
    then have x: "?x \<noteq> []" "length ?x < ms" using assms(1) by auto
    have nul: "NUL \<notin> set ?x" using less(2) by (meson in_set_takeD set_takeWhileD)
    have drop: "dropWhile (\<lambda>c. \<not> is_space c) (drop (length ?x) s) = ?r"
      by (rule dropWhile_drop) simp
    let ?m = "(put m ?a ?x)(?a + length ?x := NUL)"
    have step: "parse_loop m s (map (row B ms) [0..<k]) n mx ms = parse_loop ?m ?s' (map (row B ms) [0..<k]) (n + 1) mx ms"
      using False n x drop by (subst parse_loop.simps) (simp add: copy_word_eq Let_def)
    have sub: "set ?s' \<subseteq> set s" by (meson set_dropWhileD subsetI)
    have len: "length ?s' < length s"
      using False less(3) length_dropWhile_le [of is_space ?r] length_dropWhile_le [of "\<lambda>c. \<not> is_space c" "tl s"] by (cases s) auto
    have hd: "?s' = [] \<or> \<not> is_space (hd ?s')" using hd_dropWhile [of is_space ?r] by blast
    have wsx: "take (mx - n) (words s) = ?f # take (mx - (n + 1)) (words ?s')"
      using words_first [of s] False less(3) n(1) by (auto simp: take_Cons' diff_Suc)
    obtain m' where m': "parse_loop ?m ?s' (map (row B ms) [0..<k]) (n + 1) mx ms = Some (n + 1 + length (take (mx - (n + 1)) (words ?s')), m')"
      "\<forall>i<length (take (mx - (n + 1)) (words ?s')). string_at m' (row B ms (n + 1 + i)) (take (ms - 1) (take (mx - (n + 1)) (words ?s') ! i))"
      "\<forall>y. y < row B ms (n + 1) \<or> row B ms mx \<le> y \<longrightarrow> m' y = ?m y"
      using less(1) [OF len, of "n + 1" ?m] sub less(2) hd n(1) by auto
    have here: "string_at m' ?a ?x"
      using string_at_terminated [OF nul, of m ?a] x(2) m'(3) by (elim string_at_cong) auto
    have le: "row B ms (n + 1) \<le> row B ms mx" using n(1) by (intro add_left_mono mult_le_mono2) simp
    have out: "m' y = m y" if "y < ?a \<or> row B ms mx \<le> y" for y
    proof -
      have "m' y = ?m y" using m'(3) that by auto
      moreover have "y < ?a \<or> ?a + ms \<le> y" using that le by auto
      ultimately show ?thesis using x(2) by (auto simp: put_apply_out)
    qed
    show ?thesis unfolding step wsx using m'(1,2) here out by (auto simp: less_Suc_eq_0_disj)
  qed
qed

lemma bytes_at_add: "bytes_at m a (n + k) = bytes_at m a n @ bytes_at m (a + n) k"
  by (induction n arbitrary: a) (auto simp: bytes_at_Suc, simp add: bytes_at_def)

lemma cstr_string_at:
  assumes "string_at m a w" "length w < n"
  shows "cstr m a n = w"
proof -
  obtain k where n: "n = Suc (length w) + k" using assms(2) by (metis add_Suc less_iff_Suc_add)
  have "takeWhile (\<lambda>c. c \<noteq> NUL) (w @ NUL # ys) = w" if "NUL \<notin> set w" for ys
    using that by (induction w) auto
  then show ?thesis using assms(1) unfolding cstr_def n bytes_at_add string_at_def by simp
qed

text \<open>Strings in consecutive rows.\<close>

fun rows_hold :: "mem \<Rightarrow> addr \<Rightarrow> nat \<Rightarrow> string list \<Rightarrow> bool" where
  "rows_hold m B ms [] = True"
| "rows_hold m B ms (v # vs) \<longleftrightarrow> string_at m B v \<and> length v < ms \<and> rows_hold m (B + ms) ms vs"

lemma rows_hold_nth: "rows_hold m B ms vs \<longleftrightarrow> (\<forall>i<length vs. string_at m (row B ms i) (vs ! i) \<and> length (vs ! i) < ms)"
  by (induction vs arbitrary: B) (auto simp: less_Suc_eq_0_disj add.assoc)

lemma rows_hold_cong:
  "rows_hold m B ms vs \<Longrightarrow> (\<And>y. B \<le> y \<Longrightarrow> y < B + ms * length vs \<Longrightarrow> m' y = m y) \<Longrightarrow> rows_hold m' B ms vs"
proof (induction vs arbitrary: B)
  case (Cons v vs)
  then have "string_at m' B v" using string_at_cong [of m B v m'] by auto
  moreover have "rows_hold m' (B + ms) ms vs" using Cons(1) [of "B + ms"] Cons(2,3) by (auto simp: add.assoc)
  ultimately show ?case using Cons(2) by simp
qed simp

lemma rows_Suc: "map (row A ms) [0..<Suc n] = A # map (row (A + ms) ms) [0..<n]"
  by (simp add: upt_conv_Cons map_Suc_upt [symmetric] comp_def add.assoc del: upt_Suc map_Suc_upt)

text \<open>One row copied with \<^verbatim>\<open>strncpy\<close> and closed again: the byte behind the row is cleared too.\<close>

lemma copy_row:
  assumes "string_at m t v" "length v < ms" "a + ms < t \<or> t + ms \<le> a"
  defines "m' \<equiv> (user_strncpy m a t ms)(a + ms - 1 := NUL)"
  shows "string_at m' a v" "m' (a + ms) = NUL" "x < a \<or> a + ms < x \<Longrightarrow> m' x = m x"
proof -
  have cp: "user_strncpy m a t ms = (put m a (bytes_at m t ms))(a + ms := NUL)"
    using assms(3) by (auto simp: user_strncpy_def memcpy_bytes_put)
  show "m' (a + ms) = NUL" "x < a \<or> a + ms < x \<Longrightarrow> m' x = m x"
    using assms(2) by (auto simp: m'_def cp put_apply_out)
  have nth: "m (t + i) = (v @ [NUL]) ! i" if "i \<le> length v" for i
    using assms(1) that nth_map [of i "[0..<Suc (length v)]" "\<lambda>i. m (t + i)"]
    by (auto simp: string_at_def bytes_at_def simp del: upt_Suc)
  have eq: "m' (a + i) = m (t + i)" if "i \<le> length v" for i
  proof (cases "i = ms - 1")
    case True
    then have "i = length v" using that assms(2) by simp
    then show ?thesis using nth [of i] True assms(2) by (auto simp: m'_def)
  next
    case False
    then show ?thesis using that assms(2) by (auto simp: m'_def cp put_def bytes_at_def)
  qed
  have "bytes_at m' a (Suc (length v)) = bytes_at m t (Suc (length v))"
    unfolding bytes_at_def by (intro map_cong) (auto intro: eq)
  then show "string_at m' a v" using assms(1) by (simp add: string_at_def)
qed

text \<open>Copying the rows back: the last row is followed by one more NUL.\<close>

lemma copy_args_back_rows:
  assumes "rows_hold m T ms vs" "A + ms * length vs < T \<or> T + ms * length vs \<le> A"
  defines "m' \<equiv> copy_args_back m (map (row A ms) [0..<length vs]) (map (row T ms) [0..<length vs]) ms"
  shows "rows_hold m' A ms vs \<and> (\<forall>x. x < A \<or> A + ms * length vs < x \<longrightarrow> m' x = m x) \<and> (vs \<noteq> [] \<longrightarrow> m' (A + ms * length vs) = NUL)"
  using assms(1,2) unfolding m'_def
proof (induction vs arbitrary: m A T)
  case (Cons v vs)
  define m1 where "m1 = (user_strncpy m A T ms)(A + ms - 1 := NUL)"
  have v: "string_at m T v" "length v < ms" "A + ms < T \<or> T + ms \<le> A" using Cons(2,3) by auto
  note row = copy_row [OF v, folded m1_def]
  have "rows_hold m1 (T + ms) ms vs"
  proof (rule rows_hold_cong [of m])
    fix y assume "T + ms \<le> y" "y < T + ms + ms * length vs"
    then have "y < A \<or> A + ms < y" using Cons(3) by auto
    then show "m1 y = m y" by (rule row(3))
  qed (use Cons(2) in simp)
  note IH = Cons(1) [OF this, of "A + ms"]
  let ?q = "copy_args_back m1 (map (row (A + ms) ms) [0..<length vs]) (map (row (T + ms) ms) [0..<length vs]) ms"
  have IH': "rows_hold ?q (A + ms) ms vs" "\<And>x. x < A + ms \<or> A + ms + ms * length vs < x \<Longrightarrow> ?q x = m1 x"
    "vs \<noteq> [] \<Longrightarrow> ?q (A + ms + ms * length vs) = NUL" using IH Cons(3) by auto
  have "string_at ?q A v" using string_at_cong [OF row(1), of ?q] IH'(2) v(2) by auto
  moreover have "?q (A + ms + ms * length vs) = NUL" using IH'(3) row(2) by (cases vs) auto
  moreover have "?q x = m x" if "x < A \<or> A + ms + ms * length vs < x" for x
    using IH'(2) [of x] row(3) [of x] that by auto
  ultimately show ?case using IH'(1) v(2) unfolding length_Cons rows_Suc copy_args_back.simps m1_def [symmetric] by (simp add: add.assoc)
qed simp

text \<open>The reference for the parser: the words of the argument, without a trailing ampersand.\<close>

definition background :: "string \<Rightarrow> bool" where
  "background arg \<longleftrightarrow> words arg \<noteq> [] \<and> last (words arg) = ''&''"

definition arguments_of :: "string \<Rightarrow> string list" where
  "arguments_of arg = (if background arg then butlast (words arg) else words arg)"

lemma take_amp: "take 31 w = ''&'' \<longleftrightarrow> w = ''&''"
  by (cases w; cases "tl w") auto

lemma parse_string_words:
  fixes k :: nat
  assumes "NUL \<notin> set arg" "arg \<noteq> []"
  defines "ws \<equiv> map (take 31) (take k (words arg))"
  shows "\<exists>m'. parse_string m (Some arg) (map (row T 32) [0..<k]) k 32 = Some (int (length ws), m') \<and> rows_hold m' T 32 ws
     \<and> (\<forall>x. x < T \<or> T + 32 * k \<le> x \<longrightarrow> m' x = m x)"
proof -
  let ?s = "dropWhile is_space arg"
  have "NUL \<notin> set ?s" using assms(1) by (meson set_dropWhileD)
  moreover have "?s = [] \<or> \<not> is_space (hd ?s)" using hd_dropWhile by blast
  ultimately obtain m' where m': "parse_loop m ?s (map (row T 32) [0..<k]) 0 k 32 = Some (length ws, m')"
    "\<forall>i<length ws. string_at m' (row T 32 i) (ws ! i)" "\<forall>x. x < T \<or> T + 32 * k \<le> x \<longrightarrow> m' x = m x"
    using parse_loop_words [of 32 k k ?s 0 m T] unfolding words_space by (auto simp: ws_def)
  have "rows_hold m' T 32 ws" using m'(2) by (auto simp: rows_hold_nth ws_def)
  then show ?thesis using m' assms(2) by (auto simp: parse_string_def)
qed

lemma take_arguments:
  fixes n :: nat and arg :: string
  defines "us \<equiv> take (n + 2) (words arg)"
  defines "c \<equiv> us \<noteq> [] \<and> last us = ''&''"
  shows "length us - (if c then 1 else 0) = n \<longleftrightarrow> length (arguments_of arg) = n"
    and "length (arguments_of arg) = n \<Longrightarrow> (c \<longleftrightarrow> background arg) \<and> take n us = arguments_of arg"
proof -
  have short: "length (words arg) < n + 2 \<Longrightarrow> us = words arg \<and> c = background arg"
    by (simp add: us_def c_def background_def)
  have long: "n + 2 \<le> length (words arg) \<Longrightarrow> length us = n + 2 \<and> length (arguments_of arg) \<ge> n + 1"
    by (auto simp: us_def arguments_of_def)
  show "length us - (if c then 1 else 0) = n \<longleftrightarrow> length (arguments_of arg) = n"
    using short long by (cases "length (words arg) < n + 2") (auto simp: arguments_of_def)
  assume n: "length (arguments_of arg) = n"
  then have "length (words arg) < n + 2" using long by fastforce
  then show "(c \<longleftrightarrow> background arg) \<and> take n us = arguments_of arg"
    using short n by (auto simp: arguments_of_def butlast_conv_take)
qed

text \<open>C16. The argument parser agrees with a reference that splits the argument at its spaces: it
  accepts exactly when the number of words, without a trailing ampersand, is the expected one,
  says whether the ampersand was there, and leaves the words, cut to 31 characters, in the rows
  of the caller.  Outside the rows and its own temporary array it writes one byte: the NUL of
  the last \<^verbatim>\<open>strncpy\<close> lands behind the caller's array.\<close>

theorem analize_arg_correct:
  assumes "NUL \<notin> set arg" "length arg \<le> 1023" "A + 32 * n < T \<or> T + 32 * (n + 2) \<le> A"
  shows "\<exists>m'. analize_arg m T (Some arg) (map (row A 32) [0..<n]) n 32
       = Some (if length (arguments_of arg) = n then if background arg then 1 else 0 else -1, m')
     \<and> (length (arguments_of arg) = n \<longrightarrow> (\<forall>i<n. string_at m' (row A 32 i) (take 31 (arguments_of arg ! i)))
          \<and> (0 < n \<longrightarrow> m' (row A 32 n) = NUL))
     \<and> (\<forall>x. (x < A \<or> A + 32 * n < x) \<and> (x < T \<or> T + 32 * (n + 2) \<le> x) \<longrightarrow> m' x = m x)"
proof (cases "arg = []")
  case True
  then show ?thesis by (simp add: analize_arg_def arguments_of_def background_def)
next
  case False
  let ?us = "take (n + 2) (words arg)"
  let ?ws = "map (take 31) ?us"
  let ?c = "?us \<noteq> [] \<and> last ?us = ''&''"
  obtain m1 where m1: "parse_string m (Some arg) (map (row T 32) [0..<n + 2]) (n + 2) 32 = Some (int (length ?us), m1)"
    "rows_hold m1 T 32 ?ws" "\<And>x. x < T \<or> T + 32 * (n + 2) \<le> x \<Longrightarrow> m1 x = m x"
    using parse_string_words [OF assms(1) False, of m T "n + 2"] by auto
  have bg: "0 < length ?us \<and> strcmp (cstr m1 (row T 32 (length ?us - 1)) 32) ''&'' = 0 \<longleftrightarrow> ?c"
  proof (cases "?us = []")
    case False
    let ?w = "take 31 (last ?us)"
    have "string_at m1 (row T 32 (length ?us - 1)) (?ws ! (length ?us - 1))" "?ws ! (length ?us - 1) = ?w"
      using m1(2) False by (auto simp: rows_hold_nth last_conv_nth simp del: length_take)
    then have "cstr m1 (row T 32 (length ?us - 1)) 32 = ?w" "NUL \<notin> set ?w" by (auto intro: cstr_string_at simp: string_at_def)
    then show ?thesis using False strcmp_zero [of ?w "''&''"] by (simp add: take_amp del: length_take)
  qed simp
  have hb: "0 < int (length ?us) \<and> strcmp (cstr m1 (map (row T 32) [0..<n + 2] ! nat (int (length ?us) - 1)) 32) ''&'' = 0 \<longleftrightarrow> ?c"
  proof (cases "?us = []")
    case False
    then have "map (row T 32) [0..<n + 2] ! nat (int (length ?us) - 1) = row T 32 (length ?us - 1)" by (subst nth_map) (auto simp: nat_diff_distrib' simp del: upt_Suc)
    then show ?thesis using bg by (simp only: of_nat_0_less_iff)
  qed simp
  have len: "int (length ?us) - (if ?c then 1 else 0) = int n \<longleftrightarrow> length (arguments_of arg) = n"
  proof -
    have "int L - (if 0 < L \<and> c then 1 else 0) = int n \<longleftrightarrow> L - (if 0 < L \<and> c then 1 else 0) = n" for c L by auto
    from this [of "length ?us" "last ?us = ''&''"] have "int (length ?us) - (if ?c then 1 else 0) = int n \<longleftrightarrow> length ?us - (if ?c then 1 else 0) = n"
      by (simp only: length_greater_0_conv)
    then show ?thesis by (simp only: take_arguments(1))
  qed
  have rows: "take n (map (row A 32) [0..<n]) = map (row A 32) [0..<n]" "take n (map (row T 32) [0..<n + 2]) = map (row T 32) [0..<n]"
    by (simp_all add: take_map)
  have num: "analize_arg m T (Some arg) (map (row A 32) [0..<n]) n 32 = (if length (arguments_of arg) = n
      then Some (if ?c then 1 else 0, copy_args_back m1 (map (row A 32) [0..<n]) (map (row T 32) [0..<n]) 32) else Some (-1, m1))"
    unfolding analize_arg_def Let_def option.sel using False assms(2)
    by (simp only: take_all m1(1) hb rows length_map length_upt bind.bind_lunit split_conv) (use len in \<open>auto simp del: length_take upt_Suc\<close>)
  show ?thesis
  proof (cases "length (arguments_of arg) = n")
    case False
    then show ?thesis using num m1(3) by auto
  next
    case True
    note args = take_arguments(2) [OF True]
    let ?vs = "map (take 31) (arguments_of arg)"
    have "?vs = take n ?ws" using args by (simp add: take_map)
    then have "rows_hold m1 T 32 ?vs" using m1(2) by (auto simp: rows_hold_nth simp del: length_map)
    from copy_args_back_rows [OF this, of A] show ?thesis
      using num args m1(3) True assms(3) by (auto simp: rows_hold_nth)
  qed
qed

theorem analize_arg_correct_witness:
  "\<exists>m'. analize_arg (\<lambda>_. CHR ''?'') 4096 (Some '' 12  7 &'') [512, 544] 2 32 = Some (1, m')
     \<and> string_at m' 512 ''12'' \<and> string_at m' 544 ''7'' \<and> m' 576 = NUL"
proof -
  have w: "words '' 12  7 &'' = [''12'', ''7'', ''&'']" by (simp add: words_def is_space_def)
  have a: "arguments_of '' 12  7 &'' = [''12'', ''7'']" "background '' 12  7 &''" by (simp_all add: arguments_of_def background_def w)
  have r: "[0..<2] = [0, 1::nat]" by (simp add: upt_rec)
  obtain m' where "analize_arg (\<lambda>_. CHR ''?'') 4096 (Some '' 12  7 &'') (map (row 512 32) [0..<2]) 2 32 = Some (1, m')"
    "\<forall>i<2. string_at m' (row 512 32 i) (take 31 (arguments_of '' 12  7 &'' ! i))" "m' (row 512 32 2) = NUL"
    using analize_arg_correct [of "'' 12  7 &''" 512 2 4096 "\<lambda>_. CHR ''?''"] by (auto simp: a)
  then show ?thesis by (auto simp: a r All_less_Suc numeral_2_eq_2)
qed

end
