(* ===== verification/Shell_Properties.thy ===== *)
theory Shell_Properties
  imports Shell Program_Properties
begin

text \<open>
  Properties of the shell: a typed line is taken apart into its command and arguments, every
  round gives back the memory it took (or one block twice), a pipeline is wired through one
  pipe, and the inputs on which the shell calls outside its tables or runs erased text.
\<close>

section \<open>Worlds\<close>

text \<open>The memory taken and given back so far.\<close>

abbreviation taken :: "world \<Rightarrow> addr multiset" where "taken w \<equiv> allocated (trace w)"
abbreviation given :: "world \<Rightarrow> addr multiset" where "given w \<equiv> released (trace w)"

text \<open>A kernel that has memory; the exit status -2^31, which \<^verbatim>\<open>printf\<close> cannot write, is left out.\<close>

definition obliging :: "world \<Rightarrow> bool" where
  "obliging w \<longleftrightarrow> has_memory w \<and> (\<forall>ts p. status_of (reply w ts (Waitpid p)) \<noteq> - (2 ^ 31))"

lemma obliging_cong: "reply w' = reply w \<Longrightarrow> obliging w' = obliging w"
  by (simp add: obliging_def has_memory_def)

lemma obliging_tell [simp]: "obliging (tell c w) = obliging w"
  by (simp add: obliging_def has_memory_def)

lemma obliging_input [simp]: "obliging (w\<lparr>input := i\<rparr>) = obliging w"
  by (simp add: obliging_def has_memory_def)

text \<open>Between \<open>w\<close> and \<open>w'\<close> only text was written.\<close>

definition only_writes :: "world \<Rightarrow> world \<Rightarrow> bool" where
  "only_writes w w' \<longleftrightarrow> reply w' = reply w \<and> (\<exists>ts. trace w' = trace w @ ts \<and> (\<forall>t\<in>set ts. \<exists>fd s. fst t = Write fd s \<and> fd < 3))"

lemma only_writes_refl [simp]: "only_writes w w"
  by (simp add: only_writes_def)

lemma only_writes_trans: "only_writes w w' \<Longrightarrow> only_writes w' w'' \<Longrightarrow> only_writes w w''"
  unfolding only_writes_def by (metis (no_types, lifting) Un_iff append.assoc set_append)

lemma only_writes_tell: "fd < 3 \<Longrightarrow> only_writes w w' \<Longrightarrow> only_writes w (tell (Write fd s) w')"
  by (rule only_writes_trans) (auto simp: only_writes_def)

lemma only_writes_first: "only_writes (tell (Write 1 s) w) w' \<Longrightarrow> only_writes w w'"
  by (rule only_writes_trans [OF only_writes_tell]) simp_all

lemma only_writes_input [simp]: "only_writes w (w'\<lparr>input := i\<rparr>) = only_writes w w'" "only_writes (w\<lparr>input := i\<rparr>) w' = only_writes w w'"
  by (simp_all add: only_writes_def)

lemma only_writes_memory:
  assumes "only_writes w w'"
  shows "taken w' = taken w" "given w' = given w" "obliging w' = obliging w" "reply w' = reply w" "acts w' = acts w"
proof -
  obtain ts where ts: "trace w' = trace w @ ts" "\<forall>t\<in>set ts. \<exists>fd s. fst t = Write fd s \<and> fd < 3" "reply w' = reply w"
    using assms by (auto simp: only_writes_def)
  have "allocated ts = {#} \<and> released ts = {#}" using ts(2) by (induction ts) (auto simp: trace_simps)
  then show "taken w' = taken w" "given w' = given w" using ts(1) by (simp_all add: measures_append)
  have "filter is_act (map fst ts) = []" using ts(2) by (induction ts) (auto simp: is_act_def)
  then show "acts w' = acts w" using ts(1) by simp
  show "obliging w' = obliging w" "reply w' = reply w" using ts(3) by (simp_all add: obliging_def has_memory_def)
qed

lemma malloc_obliging:
  assumes "obliging w" "0 < n"
  obtains p where "malloc_world n w = Some (p, tell (Alloc n) w)" "p \<noteq> 0" "taken (tell (Alloc n) w) = taken w + {#p#}"
  using malloc_memory [of w n] assms by (auto simp: obliging_def)

section \<open>The handlers\<close>

text \<open>\<open>spent w w' M\<close>: what a run took it gave back, and the blocks \<open>M\<close> besides.\<close>

definition spent :: "world \<Rightarrow> world \<Rightarrow> addr multiset \<Rightarrow> bool" where
  "spent w w' M \<longleftrightarrow> reply w' = reply w \<and> input w' = input w \<and> given w' + taken w = taken w' + given w + M"

lemma spent_refl [simp]: "spent w w {#}"
  by (simp add: spent_def)

lemma spent_trans: "spent w w' M \<Longrightarrow> spent w' w'' N \<Longrightarrow> spent w w'' (M + N)"
proof -
  assume a: "spent w w' M" "spent w' w'' N"
  then have "(given w' + taken w) + (given w'' + taken w') = (taken w' + given w + M) + (taken w'' + given w' + N)"
    by (simp only: spent_def)
  then have "given w'' + taken w = taken w'' + given w + (M + N)" by (simp add: ac_simps)
  then show ?thesis using a by (simp add: spent_def)
qed

lemma spent_tell: "(case c of Alloc n \<Rightarrow> False | Free p \<Rightarrow> False | _ \<Rightarrow> True) \<Longrightarrow> spent w (tell c w) {#}"
  by (cases c) (auto simp: spent_def trace_simps)

lemma spent_free: "p \<noteq> 0 \<Longrightarrow> spent w (free_world p w) {#p#}"
  by (auto simp: spent_def trace_simps free_tell)

lemma spent_obliging: "spent w w' M \<Longrightarrow> obliging w' = obliging w"
  by (simp add: spent_def obliging_def has_memory_def)

lemma s32_greater: "- (2 ^ 31) \<le> s32 n"
proof -
  have "0 \<le> v \<Longrightarrow> - (2 ^ 31) \<le> (if v < 2 ^ 31 then v else v - 2 ^ 32 :: int)" for v by auto
  from this [of "n mod 2 ^ 32"] pos_mod_sign [of "2 ^ 32" n] show ?thesis unfolding s32_def Let_def by fastforce
qed

lemma create_simple_spent:
  "\<exists>p w'. create_simple_process nm fn fg sin sout w = Some (p, w') \<and> spent w w' {#} \<and> p < 2 ^ 31"
proof -
  let ?c = "Create nm fn Null 4 fg sin sout"
  obtain s where "printferror_world (''Error al crear el proceso %s'' @ nl) [AStr nm] (tell ?c w) = Some (tell (Write 2 s) (tell ?c w))"
    using print_some(2) by force
  then show ?thesis
    using spent_trans [OF spent_tell [of ?c w] spent_tell [of "Write 2 s" "tell ?c w"]] spent_tell [of ?c w] s32_less
    by (auto simp: create_simple_process_def ask_eq Let_def)
qed

lemma create_args_spent:
  assumes "obliging w"
  shows "\<exists>p w'. create_process_with_args nm fn args argc fg sin sout w = Some (p, w') \<and> spent w w' {#} \<and> p < 2 ^ 31"
proof -
  define n where "n = (argc + 1) * 8"
  obtain q where q: "malloc_world n w = Some (q, tell (Alloc n) w)" "q \<noteq> 0"
    "taken (tell (Alloc n) w) = taken w + {#q#}" using malloc_obliging [OF assms, of n] by (auto simp: n_def)
  let ?c = "Create nm fn (Argv (take argc args)) 5 fg sin sout"
  let ?w = "free_world q (tell ?c (tell (Alloc n) w))"
  have sp: "spent w ?w {#}" using q by (simp add: spent_def free_tell trace_simps del: mult_Suc)
  obtain s where s: "printferror_world (''Error al crear el proceso %s'' @ nl) [AStr nm] ?w = Some (tell (Write 2 s) ?w)"
    using print_some(2) by force
  show ?thesis using q(2) s sp spent_trans [OF sp spent_tell [of "Write 2 s"]] s32_less
    unfolding create_process_with_args_def n_def [symmetric] by (auto simp: q(1) ask_eq Let_def)
qed

text \<open>The two local arrays of a handler do not overlap; the largest handler has two rows.\<close>

definition frame_ok :: "frame \<Rightarrow> bool" where
  "frame_ok F \<longleftrightarrow> arg_storage F + 64 < temp_storage F \<or> temp_storage F + 128 \<le> arg_storage F"

lemma handle_args_spent:
  assumes "obliging w" "frame_ok F" "n \<le> 2" "NUL \<notin> set arg" "length arg \<le> 1023"
  shows "\<exists>p w'. handle_process_with_args F nm fn arg n usage sin sout us w = Some (p, w') \<and> spent w w' {#} \<and> p < 2 ^ 31"
proof -
  let ?rows = "map (\<lambda>i. arg_storage F + 32 * i) [0..<if n > 0 then n else 1]"
  have "\<exists>bg m. analize_arg (stack F) (temp_storage F) (Some arg) ?rows n 32 = Some (bg, m)"
  proof (cases "n = 0")
    case True
    have "analize_arg (stack F) (temp_storage F) (Some arg) ?rows 0 32 = analize_arg (stack F) (temp_storage F) (Some arg) [] 0 32"
      by (cases "parse_string (stack F) (Some (take 1023 arg)) (map (\<lambda>i. temp_storage F + 32 * i) [0..<0 + 2]) (0 + 2) 32")
        (auto simp: analize_arg_def Let_def simp del: upt_Suc)
    then show ?thesis using analize_arg_correct [OF assms(4,5), of "arg_storage F" 0 "temp_storage F" "stack F"] assms(2) True
      by (auto simp: frame_ok_def)
  next
    case False
    then show ?thesis using analize_arg_correct [OF assms(4,5), of "arg_storage F" n "temp_storage F" "stack F"] assms(2,3)
      by (fastforce simp: frame_ok_def)
  qed
  then obtain bg m where a: "analize_arg (stack F) (temp_storage F) (Some arg) ?rows n 32 = Some (bg, m)" by blast
  obtain s where s: "printferror_world ''%s'' [AStr usage] w = Some (tell (Write 2 s) w)" using print_some(2) by force
  have sp: "spent w (tell (Write 2 s) w) {#}" by (rule spent_tell) simp
  let ?inp = "if us then sin else -1" and ?fg = "if bg = 0 then 1 else 0"
  obtain p1 w1 where 1: "create_simple_process nm fn ?fg ?inp sout w = Some (p1, w1)" "spent w w1 {#}" "p1 < 2 ^ 31"
    using create_simple_spent by blast
  obtain p2 w2 where 2: "create_process_with_args nm fn (map (\<lambda>a. cstr m a 32) ?rows) n ?fg ?inp sout w = Some (p2, w2)"
    "spent w w2 {#}" "p2 < 2 ^ 31" using create_args_spent [OF assms(1)] by blast
  show ?thesis unfolding handle_process_with_args_def Let_def a using s sp 1 2 by (auto simp del: upt_Suc)
qed

text \<open>The commands whose handler releases the argument that the shell releases again.\<close>

definition frees_argument :: "int \<Rightarrow> bool" where
  "frees_argument i \<longleftrightarrow> i = 0 \<or> i = 2 \<or> i = 14"

lemma run_handler_cases:
  assumes "0 \<le> instruction c" "instruction c < 16"
    and args: "\<And>nm fn n usage us. n \<le> 2 \<Longrightarrow> \<not> frees_argument (instruction c) \<Longrightarrow>
       P (handle_process_with_args F nm fn (argtext c) n usage sin sout us w)"
    and simple: "\<And>nm fn inp. inp \<in> {sin, -1} \<Longrightarrow> frees_argument (instruction c) \<Longrightarrow>
       P (create_simple_process nm fn 1 inp sout (free_world (arguments c) w))"
    and direct: "\<And>nm fn av pr inp. inp \<in> {sin, -1} \<Longrightarrow> \<not> frees_argument (instruction c) \<Longrightarrow>
       P (case ask (Create nm fn av pr 1 inp sout) w of (a, w) \<Rightarrow> Some (s32 (ret a), w))"
  shows "P (run_handler F c sin sout w)"
proof -
  define i where "i = nat (instruction c)"
  have ic: "instruction c = int i" "i < 16" using assms by (simp_all add: i_def)
  then have cases: "i = 15 \<or> i = 14 \<or> i = 13 \<or> i = 12 \<or> i = 11 \<or> i = 10 \<or> i = 9 \<or> i = 8 \<or> i = 7 \<or> i = 6 \<or> i = 5 \<or> i = 4
      \<or> i = 3 \<or> i = 2 \<or> i = 1 \<or> i = 0" by presburger
  have run: "run_handler F c sin sout w = (case instruction_handlers ! i of None \<Rightarrow> None
      | Some h \<Rightarrow> h F (arguments c) (argtext c) sin sout w)" using ic by (simp add: run_handler_def instruction_handlers_def)
  note defs = instruction_handlers_def Let_def handle_help_def handle_echo_def handle_clear_def handle_mem_info_def
    handle_test_mm_def handle_test_processes_def handle_test_prio_def handle_test_sync_def handle_ps_def handle_loop_def handle_wc_def
    handle_filter_def handle_cat_def handle_nice_def handle_test_malloc_free_def handle_mvar_def
  from cases show ?thesis unfolding run
    by (elim disjE; simp add: defs) ((rule args | rule simple | rule direct); simp add: frees_argument_def ic(1))+
qed

lemma run_handler_spent:
  assumes "obliging w" "frame_ok F" "0 \<le> instruction c" "instruction c < 16" "NUL \<notin> set (argtext c)" "length (argtext c) \<le> 1023"
    "arguments c \<noteq> 0"
  shows "\<exists>p w'. run_handler F c sin sout w = Some (p, w') \<and> p < 2 ^ 31
     \<and> spent w w' (if frees_argument (instruction c) then {#arguments c#} else {#})"
proof -
  have simple: "\<exists>p w'. create_simple_process nm fn 1 inp sout (free_world (arguments c) w) = Some (p, w') \<and> p < 2 ^ 31 \<and> spent w w' {#arguments c#}"
    for nm fn inp using create_simple_spent [of nm fn 1 inp sout "free_world (arguments c) w"] spent_trans [OF spent_free [OF assms(7), of w]]
    by (metis add.right_neutral)
  have direct: "spent w (tell (Create nm fn av pr 1 inp sout) w) {#}" for nm fn av pr inp by (rule spent_tell) simp
  show ?thesis
  proof (rule run_handler_cases [OF assms(3,4)])
    fix nm fn n usage us
    assume h: "(n :: nat) \<le> 2" "\<not> frees_argument (instruction c)"
    show "\<exists>p w'. handle_process_with_args F nm fn (argtext c) n usage sin sout us w = Some (p, w') \<and> p < 2 ^ 31
        \<and> spent w w' (if frees_argument (instruction c) then {#arguments c#} else {#})"
      using handle_args_spent [OF assms(1,2) h(1) assms(5,6), of nm fn usage sin sout us] h(2) by auto
  qed (use simple direct s32_less in \<open>auto simp: ask_eq\<close>)
qed

section \<open>Typed lines\<close>

text \<open>Characters that are typed as they are.\<close>

definition typed :: "string \<Rightarrow> bool" where
  "typed l \<longleftrightarrow> (\<forall>c\<in>set l. c \<noteq> NUL \<and> c \<noteq> CHR 0x0A \<and> c \<noteq> CHR 0x08)"

lemma takeWhile_typed: "typed l \<Longrightarrow> takeWhile (\<lambda>c. c \<noteq> NUL) (l @ NUL # xs) = l"
  by (induction l) (auto simp: typed_def)

lemma type_loop:
  assumes "len < 2 ^ 64" "typed cs" "i + length cs < len" "len \<le> length buff"
  shows "\<exists>w'. readLine_loop len (cs @ rest) buff i w
      = readLine_loop len rest (take i buff @ cs @ drop (i + length cs) buff) (i + length cs) w' \<and> only_writes w w'"
  using assms(2-4)
proof (induction cs arbitrary: i buff w)
  case (Cons c cs)
  have sub: "sub64 len (Suc 0) = len - 1" using assms(1) Cons(3) by (simp add: sub64_le)
  have "take (i + 1) (buff[i := c]) @ cs @ drop (i + 1 + length cs) (buff[i := c]) = take i buff @ (c # cs) @ drop (i + length (c # cs)) buff"
    using Cons(3,4) by (simp add: take_Suc_conv_app_nth)
  then show ?case using Cons(1) [of "i + 1" "buff[i := c]" "tell (Write 1 [c]) w"] Cons(2-4) only_writes_first
    by (fastforce simp: typed_def sub print_char)
qed auto

lemma erase_loop:
  assumes "len < 2 ^ 64" "n \<le> i" "i < len - 1"
  shows "\<exists>w'. readLine_loop len (replicate n CHR 0x08 @ rest) buff i w = readLine_loop len rest buff (i - n) w' \<and> only_writes w w'"
  using assms(2,3)
proof (induction n arbitrary: i w)
  case (Suc n)
  have sub: "sub64 len (Suc 0) = len - 1" using assms(1) Suc(3) by (simp add: sub64_le)
  then show ?case using Suc(1) [of "i - 1" "tell (Write 1 [CHR 0x08, CHR '' '', CHR 0x08]) w"] Suc(2,3)
      only_writes_first
    by (fastforce simp: print_plain)
qed auto

text \<open>Typing \<open>cs\<close> and erasing the last \<open>n\<close> characters again: they stay in the array.\<close>

lemma readLine_typed:
  assumes "typed cs" "length cs < 999" "n \<le> length cs"
  shows "\<exists>w'. readLine (replicate 1000 NUL) 1000 (w\<lparr>input := cs @ replicate n CHR 0x08 @ CHR 0x0A # rest\<rparr>)
      = Some (Some ((cs @ replicate (1000 - length cs) NUL)[length cs - n := NUL], length cs - n), w') \<and> only_writes w w' \<and> input w' = rest"
proof -
  let ?w = "w\<lparr>input := cs @ replicate n CHR 0x08 @ CHR 0x0A # rest\<rparr>" and ?b = "cs @ replicate (1000 - length cs) NUL"
  obtain w1 where 1: "readLine_loop 1000 (cs @ replicate n CHR 0x08 @ CHR 0x0A # rest) (replicate 1000 NUL) 0 ?w
      = readLine_loop 1000 (replicate n CHR 0x08 @ CHR 0x0A # rest) ?b (length cs) w1" "only_writes ?w w1"
    using type_loop [of 1000 cs 0 "replicate 1000 NUL" "replicate n CHR 0x08 @ CHR 0x0A # rest" ?w] assms by auto
  obtain w2 where 2: "readLine_loop 1000 (replicate n CHR 0x08 @ CHR 0x0A # rest) ?b (length cs) w1
      = readLine_loop 1000 (CHR 0x0A # rest) ?b (length cs - n) w2" "only_writes w1 w2"
    using erase_loop [of 1000 n "length cs" "CHR 0x0A # rest" ?b w1] assms by auto
  have "readLine (replicate 1000 NUL) 1000 ?w
      = Some (Some (?b[length cs - n := NUL], length cs - n), tell (Write 1 [CHR 0x0A]) (w2\<lparr>input := rest\<rparr>))"
    using 1(1) 2(1) assms(2) by (simp add: readLine_def after_input_def print_plain)
  moreover have "only_writes w (tell (Write 1 [CHR 0x0A]) (w2\<lparr>input := rest\<rparr>))"
    using only_writes_trans [OF 1(2) 2(2)] by (auto intro: only_writes_tell)
  ultimately show ?thesis by fastforce
qed

lemma verify_loop_eq:
  "NUL \<notin> set word \<Longrightarrow> \<forall>x\<in>set xs. NUL \<notin> set x \<Longrightarrow> verify_loop xs i word
     = (if word \<in> set xs then i + int (length (takeWhile (\<lambda>x. x \<noteq> word) xs)) else -1)"
  by (induction xs arbitrary: i) (auto simp: strcmp_zero)

text \<open>The number of a command: its place in the table.\<close>

definition command_number :: "string \<Rightarrow> int" where
  "command_number word = (if word \<in> set inst_list then int (length (takeWhile (\<lambda>x. x \<noteq> word) inst_list)) else -1)"

lemma takeWhile_less: "x \<in> set xs \<Longrightarrow> length (takeWhile (\<lambda>y. y \<noteq> x) xs) < length xs"
  by (induction xs) auto

lemma command_number_less: "command_number word < 19"
proof (cases "word \<in> set inst_list")
  case True
  then have "length (takeWhile (\<lambda>x. x \<noteq> word) inst_list) < length inst_list" by (rule takeWhile_less)
  then show ?thesis by (simp add: command_number_def inst_list_def)
qed (simp add: command_number_def)

lemma verifyInstruction_eq:
  assumes "NUL \<notin> set word" "NUL \<notin> set (past_end F)" "word \<noteq> past_end F"
  shows "verifyInstruction F word = command_number word"
proof -
  have "\<forall>x\<in>set inst_list. NUL \<notin> set x" by (simp add: inst_list_def)
  then have "verify_loop (inst_list @ [past_end F]) 0 word = command_number word"
    using verify_loop_eq [OF assms(1), of "inst_list @ [past_end F]" 0] assms(2,3)
    by (auto simp: command_number_def takeWhile_append)
  moreover have "take (CANT_INSTRUCTIONS - 1) (inst_list @ [past_end F]) = inst_list @ [past_end F]"
    by (simp add: CANT_INSTRUCTIONS_def inst_list_def)
  ultimately show ?thesis by (simp add: verifyInstruction_def)
qed

lemma scan_word_eq: "\<forall>c\<in>set word. c \<noteq> CHR '' '' \<and> c \<noteq> NUL \<Longrightarrow> d = CHR '' '' \<or> d = NUL \<Longrightarrow> scan_word (word @ d # rest) = Some (word, rest)"
  by (induction word) auto

lemma scan_args_eq: "\<forall>c\<in>set as. c \<noteq> NUL \<and> c \<noteq> CHR 0x0A \<Longrightarrow> d = NUL \<or> d = CHR 0x0A \<Longrightarrow> scan_args (as @ d # rest) = Some as"
  by (induction as) auto

text \<open>\<open>nets w w' A M\<close>: the blocks \<open>A\<close> were taken and kept, the blocks \<open>M\<close> given back, and nothing else
  was done but writing text.\<close>

definition nets :: "world \<Rightarrow> world \<Rightarrow> addr multiset \<Rightarrow> addr multiset \<Rightarrow> bool" where
  "nets w w' A M \<longleftrightarrow> reply w' = reply w \<and> acts w' = acts w \<and> given w' + taken w + A = taken w' + given w + M"

lemma nets_trans: "nets w w' A M \<Longrightarrow> nets w' w'' B N \<Longrightarrow> nets w w'' (A + B) (M + N)"
proof -
  assume a: "nets w w' A M" "nets w' w'' B N"
  then have "(given w' + taken w + A) + (given w'' + taken w' + B) = (taken w' + given w + M) + (taken w'' + given w' + N)"
    by (simp only: nets_def)
  then have "given w'' + taken w + (A + B) = taken w'' + given w + (M + N)" by (simp add: ac_simps)
  then show ?thesis using a by (simp add: nets_def)
qed

lemma nets_writes: "only_writes w w' \<Longrightarrow> nets w w' {#} {#}"
  using only_writes_memory [of w w'] by (simp add: nets_def ac_simps)

lemma nets_alloc: "taken (tell (Alloc n) w) = taken w + {#p#} \<Longrightarrow> nets w (tell (Alloc n) w) {#p#} {#}"
  by (simp add: nets_def trace_simps ac_simps is_act_def)

lemma nets_input [simp]: "nets (w\<lparr>input := i\<rparr>) w' A M = nets w w' A M"
  by (simp add: nets_def)

lemma nets_obliging: "nets w w' A M \<Longrightarrow> obliging w' = obliging w"
  by (simp add: nets_def obliging_def has_memory_def)

lemma getInstruction_eq:
  assumes "obliging w" "ptr \<noteq> 0" "args \<noteq> 0" "\<forall>c\<in>set word. c \<noteq> CHR '' '' \<and> c \<noteq> NUL" "d = CHR '' '' \<or> d = NUL"
    "scan_args rest = Some text"
  shows "\<exists>w'. getInstruction F ptr (word @ d # rest) args w = Some ((verifyInstruction F word, text), w')
     \<and> nets w w' {#} {#ptr#} \<and> input w' = input w"
proof -
  obtain q where q: "malloc_world BUFFER_SPACE w = Some (q, tell (Alloc BUFFER_SPACE) w)" "q \<noteq> 0"
    "taken (tell (Alloc BUFFER_SPACE) w) = taken w + {#q#}" using malloc_obliging [OF assms(1), of BUFFER_SPACE] by (auto simp: BUFFER_SPACE_def)
  let ?w = "free_world ptr (tell (Alloc BUFFER_SPACE) w)"
  obtain s where s: "printferror_world (''Comando no reconocido: %s'' @ nl) [AStr word] ?w = Some (tell (Write 2 s) ?w)"
    using print_some(2) by force
  have "nets w (free_world q (tell (Write 2 s) ?w)) {#} {#ptr#}" "nets w (free_world q ?w) {#} {#ptr#}"
    using q(2,3) assms(2) by (simp_all add: nets_def free_tell trace_simps is_act_def)
  then show ?thesis
    using q s assms(2,3) by (auto simp: getInstruction_def safe_malloc_def scan_word_eq [OF assms(4,5)] assms(6) Let_def free_tell)
qed

text \<open>The word and the rest of a command.\<close>

definition word_of :: "string \<Rightarrow> string" where "word_of l = takeWhile (\<lambda>c. c \<noteq> CHR '' '') l"
definition rest_of :: "string \<Rightarrow> string" where "rest_of l = drop 1 (dropWhile (\<lambda>c. c \<noteq> CHR '' '') l)"

lemma word_rest: "l = word_of l \<and> rest_of l = [] \<or> l = word_of l @ CHR '' '' # rest_of l"
  by (induction l) (auto simp: word_of_def rest_of_def)

lemma typed_parts:
  assumes "typed l"
  shows "(\<forall>c\<in>set (word_of l). c \<noteq> CHR '' '' \<and> c \<noteq> NUL) \<and> (\<forall>c\<in>set (rest_of l). c \<noteq> NUL \<and> c \<noteq> CHR 0x0A)"
proof -
  have "set (rest_of l) \<subseteq> set l" by (auto simp: rest_of_def dest!: in_set_dropD set_dropWhileD)
  then show ?thesis using assms by (auto simp: typed_def word_of_def dest!: set_takeWhileD)
qed

text \<open>A typed command at the start of a zeroed array.\<close>

lemma getInstruction_typed:
  assumes "obliging w" "ptr \<noteq> 0" "args \<noteq> 0" "typed l"
  shows "\<exists>w'. getInstruction F ptr (l @ NUL # NUL # zs) args w = Some ((verifyInstruction F (word_of l), rest_of l), w')
     \<and> nets w w' {#} {#ptr#} \<and> input w' = input w"
proof -
  note parts = typed_parts [OF assms(4)]
  consider "l = word_of l" "rest_of l = []" | "l = word_of l @ CHR '' '' # rest_of l" using word_rest by blast
  then show ?thesis
  proof cases
    case 1
    then show ?thesis using getInstruction_eq [OF assms(1-3), of "word_of l" NUL "NUL # zs" "[]" F] parts by simp
  next
    case 2
    have "scan_args (rest_of l @ NUL # NUL # zs) = Some (rest_of l)" using parts by (intro scan_args_eq) auto
    then show ?thesis using getInstruction_eq [OF assms(1-3), of "word_of l" "CHR '' ''" "rest_of l @ NUL # NUL # zs" "rest_of l" F] parts
      by (subst 2) simp
  qed
qed

lemma strstr_char: "strstr_loop h [b] i = (if b \<in> set h then Some (i + length (takeWhile (\<lambda>c. c \<noteq> b) h)) else None)"
proof (induction h arbitrary: i)
  case (Cons c h)
  have "needle_rest h [] = []" by (cases h) auto
  then show ?case using Cons by auto
qed simp

text \<open>What lies behind the table of commands is no command.\<close>

definition table_ok :: "frame \<Rightarrow> string \<Rightarrow> bool" where
  "table_ok F l \<longleftrightarrow> NUL \<notin> set (past_end F) \<and> word_of l \<noteq> past_end F"

lemma verify_word: "typed l \<Longrightarrow> table_ok F l \<Longrightarrow> verifyInstruction F (word_of l) = command_number (word_of l)"
  using typed_parts [of l] by (intro verifyInstruction_eq) (auto simp: table_ok_def)

lemma first_command_typed:
  assumes "obliging w" "buf \<noteq> 0" "typed l" "table_ok F l"
  shows "\<exists>a w'. first_command F buf (l @ NUL # NUL # zs) pc w
       = Some (pc\<lparr>cmd1 := \<lparr>instruction = command_number (word_of l), arguments = a, argtext = rest_of l\<rparr>\<rparr>, w')
     \<and> a \<noteq> 0 \<and> nets w w' {#a#} {#buf#} \<and> input w' = input w"
proof -
  obtain a where a: "malloc_world BUFFER_SPACE w = Some (a, tell (Alloc BUFFER_SPACE) w)" "a \<noteq> 0"
    "taken (tell (Alloc BUFFER_SPACE) w) = taken w + {#a#}" using malloc_obliging [OF assms(1), of BUFFER_SPACE] by (auto simp: BUFFER_SPACE_def)
  obtain w' where w': "getInstruction F buf (l @ NUL # NUL # zs) a (tell (Alloc BUFFER_SPACE) w)
      = Some ((command_number (word_of l), rest_of l), w')" "nets (tell (Alloc BUFFER_SPACE) w) w' {#} {#buf#}" "input w' = input w"
    using getInstruction_typed [of "tell (Alloc BUFFER_SPACE) w" buf a l F zs] assms a(2) verify_word [OF assms(3,4)] by auto
  show ?thesis using a w' nets_trans [OF nets_alloc [OF a(3)] w'(2)] by (auto simp: first_command_def)
qed

lemma bufferControl_typed:
  assumes "obliging w" "typed l" "CHR ''|'' \<notin> set l" "length l < 999" "table_ok F l"
  shows "\<exists>a w'. bufferControl F ptr pc (w\<lparr>input := l @ CHR 0x0A # rest\<rparr>)
       = map_option (\<lambda>(n, w). (Some (n, pc\<lparr>cmd1 := \<lparr>instruction = command_number (word_of l), arguments = a, argtext = rest_of l\<rparr>\<rparr>), w))
           (count_commands ptr (pc\<lparr>cmd1 := \<lparr>instruction = command_number (word_of l), arguments = a, argtext = rest_of l\<rparr>\<rparr>) w')
     \<and> a \<noteq> 0 \<and> nets w w' {#a#} {#} \<and> input w' = rest"
proof -
  let ?w = "w\<lparr>input := l @ CHR 0x0A # rest\<rparr>"
  obtain buf where buf: "malloc_world BUFFER_SPACE ?w = Some (buf, tell (Alloc BUFFER_SPACE) ?w)" "buf \<noteq> 0"
    "taken (tell (Alloc BUFFER_SPACE) ?w) = taken ?w + {#buf#}"
    using malloc_obliging [of ?w BUFFER_SPACE] assms(1) by (auto simp: BUFFER_SPACE_def)
  have inp: "tell (Alloc BUFFER_SPACE) ?w = (tell (Alloc BUFFER_SPACE) w)\<lparr>input := l @ CHR 0x0A # rest\<rparr>"
    by (simp add: tell_def ask_def Let_def)
  let ?b = "l @ replicate (1000 - length l) NUL"
  have rep: "(replicate n NUL)[0 := NUL] = replicate n NUL" for n by (cases n) simp_all
  obtain w1 where w1: "readLine (replicate 1000 NUL) 1000 (tell (Alloc BUFFER_SPACE) ?w) = Some (Some (?b, length l), w1)"
    "only_writes (tell (Alloc BUFFER_SPACE) w) w1" "input w1 = rest"
    using readLine_typed [OF assms(2,4), of 0 rest "tell (Alloc BUFFER_SPACE) w"] assms(4) unfolding inp by (auto simp: list_update_append rep)
  define k where "k = 998 - length l"
  have "1000 - length l = Suc (Suc k)" using assms(4) by (simp add: k_def)
  then have b: "?b = l @ NUL # NUL # replicate k NUL" by simp
  have "takeWhile (\<lambda>c. c \<noteq> NUL) ?b = l" unfolding b by (rule takeWhile_typed [OF assms(2)])
  then have bar: "strstr (takeWhile (\<lambda>c. c \<noteq> NUL) ?b) ''|'' = None" using assms(3) by (simp add: strstr_def strstr_char)
  have "obliging w1" using only_writes_memory(3) [OF w1(2)] assms(1) by simp
  then obtain a w2 where w2: "first_command F buf ?b pc w1
      = Some (pc\<lparr>cmd1 := \<lparr>instruction = command_number (word_of l), arguments = a, argtext = rest_of l\<rparr>\<rparr>, w2)"
    "a \<noteq> 0" "nets w1 w2 {#a#} {#buf#}" "input w2 = input w1"
    using first_command_typed [OF _ buf(2) assms(2,5), of w1 "replicate k NUL" pc] unfolding b by blast
  have "nets w (tell (Alloc BUFFER_SPACE) w) {#buf#} {#}" using buf(3) unfolding inp by (intro nets_alloc) simp
  from nets_trans [OF nets_trans [OF this nets_writes [OF w1(2)]] w2(3)] have "nets w w2 {#a#} {#}" by (simp add: nets_def ac_simps)
  then show ?thesis using buf(1,2) w1(1,3) w2 bar
    by (intro exI [of _ a] exI [of _ w2])
      (cases "count_commands ptr (pc\<lparr>cmd1 := \<lparr>instruction = command_number (word_of l), arguments = a, argtext = rest_of l\<rparr>\<rparr>) w2";
       auto simp: bufferControl_def BUFFER_SPACE_def after_input_def)
qed

lemma rest_of_ok:
  assumes "typed l" "length l < 999"
  shows "NUL \<notin> set (rest_of l)" "length (rest_of l) \<le> 1023"
proof -
  show "NUL \<notin> set (rest_of l)" using typed_parts [OF assms(1)] by blast
  show "length (rest_of l) \<le> 1023" using assms(2) length_dropWhile_le [of "\<lambda>c. c \<noteq> CHR '' ''" l] by (simp add: rest_of_def)
qed

section \<open>A round of the shell\<close>

lemma checkErrorInPid_spent: "\<exists>e w'. checkErrorInPid p w = Some (e, w') \<and> spent w w' {#}"
  using spent_tell [of "Write 2 (''Error: la shell no se toca'' @ nl)" w] spent_tell [of "Write 2 (''Error: idle no se toca'' @ nl)" w]
  by (auto simp: checkErrorInPid_def print_plain)

text \<open>The last step of a built-in command: the call and its message.\<close>

lemma report_spent:
  assumes "(case c of Alloc n \<Rightarrow> False | Free p \<Rightarrow> False | _ \<Rightarrow> True)" "fits f1 a1" "fits f2 a2"
  shows "\<exists>w'. (if b then printferror_world f1 a1 (tell c w) else printfc_world col f2 a2 (tell c w)) = Some w' \<and> spent w w' {#}"
proof -
  obtain s1 where s1: "printferror_world f1 a1 (tell c w) = Some (tell (Write 2 s1) (tell c w))" using print_some(2) [OF assms(2)] by blast
  obtain s2 where s2: "printfc_world col f2 a2 (tell c w) = Some (tell (Write_color col s2) (tell c w))" using print_some(3) [OF assms(3)] by blast
  have "spent w (tell (Write 2 s1) (tell c w)) {#}" "spent w (tell (Write_color col s2) (tell c w)) {#}"
    using spent_trans [OF spent_tell [OF assms(1)] spent_tell [of "Write 2 s1"], of w]
      spent_trans [OF spent_tell [OF assms(1)] spent_tell [of "Write_color col s2"], of w] by simp_all
  then show ?thesis using s1 s2 by auto
qed

lemma built_in_spent:
  assumes "f \<in> set built_in_handlers"
  shows "\<exists>w'. f arg w = Some w' \<and> spent w w' {#}"
proof -
  let ?p = "to_u64 (satoi (Some arg))"
  obtain e w1 where 1: "checkErrorInPid ?p w = Some (e, w1)" "spent w w1 {#}" using checkErrorInPid_spent by blast
  have step: "\<exists>w'. (if b then printferror_world f1 a1 (tell c w1) else printfc_world col f2 a2 (tell c w1)) = Some w' \<and> spent w w' {#}"
    if "(case c of Alloc n \<Rightarrow> False | Free p \<Rightarrow> False | _ \<Rightarrow> True)" "fits f1 a1" "fits f2 a2" for b c col f1 a1 f2 a2
    using report_spent [OF that, of b w1 col] spent_trans [OF 1(2)] by fastforce
  have "f = kill_cmd \<or> f = block_cmd \<or> f = unblock_cmd" using assms by (auto simp: built_in_handlers_def)
  then show ?thesis
  proof (elim disjE)
    assume f: "f = kill_cmd"
    show ?thesis using step [of "Kill ?p" "''Error al matar el proceso %l'' @ nl" "[AU64 ?p]" "''Proceso %l finalizado'' @ nl" "[AU64 ?p]"] 1 to_u64_less
      by (auto simp: f kill_cmd_def ask_eq Let_def)
  next
    assume f: "f = block_cmd"
    show ?thesis using step [of "Block ?p" "''Error al bloquear el proceso %l'' @ nl" "[AU64 ?p]" "''Proceso %l bloqueado'' @ nl" "[AU64 ?p]"] 1 to_u64_less
      by (auto simp: f block_cmd_def ask_eq Let_def)
  next
    assume f: "f = unblock_cmd"
    show ?thesis using step [of "Unblock ?p" "''Error al desbloquear el proceso %l'' @ nl" "[AU64 ?p]" "''Proceso %l desbloqueado'' @ nl" "[AU64 ?p]"] 1 to_u64_less
      by (auto simp: f unblock_cmd_def ask_eq Let_def)
  qed
qed

lemma builtin_command_spent:
  assumes "ptr \<noteq> 0" "arguments (cmd1 pc) \<noteq> 0" "cmd2 pc = no_command" "instruction (cmd1 pc) = -1 \<or> IS_BUILT_IN (instruction (cmd1 pc))"
  shows "\<exists>w'. handle_builtin_command ptr pc w = Some w' \<and> spent w w' {#arguments (cmd1 pc), ptr#}"
proof (cases "instruction (cmd1 pc) = -1")
  case True
  obtain s where s: "printferror_world ''%s'' [AStr (''Comando invalido.'' @ nl)] w = Some (tell (Write 2 s) w)" using print_some(2) by force
  have "spent w (free_world ptr (free_world (arguments (cmd1 pc)) (tell (Write 2 s) w))) {#arguments (cmd1 pc), ptr#}"
    using assms(1,2) by (simp add: spent_def free_tell trace_simps)
  moreover have "free_world 0 v = v" for v by (simp add: free_world_def user_free_def)
  ultimately show ?thesis using s assms(1) True
    by (simp add: handle_builtin_command_def error_and_cleanup_def free_pipe_cmd_def assms(3) no_command_def)
next
  case False
  then have b: "IS_BUILT_IN (instruction (cmd1 pc))" using assms(4) by blast
  then have "nat (instruction (cmd1 pc) - KILL_NUM) < length built_in_handlers"
    by (auto simp: IS_BUILT_IN_def KILL_NUM_def EXIT_NUM_def built_in_handlers_def)
  then obtain w1 where 1: "(built_in_handlers ! nat (instruction (cmd1 pc) - KILL_NUM)) (argtext (cmd1 pc)) w = Some w1" "spent w w1 {#}"
    using built_in_spent [OF nth_mem] by blast
  have "spent w1 (free_world ptr (free_world (arguments (cmd1 pc)) w1)) {#arguments (cmd1 pc), ptr#}"
    using assms(1,2) by (simp add: spent_def free_tell trace_simps)
  from spent_trans [OF 1(2) this] show ?thesis using 1(1) False b by (simp add: handle_builtin_command_def)
qed

lemma status_bounds: "obliging w \<Longrightarrow> - (2 ^ 31) < status_of (reply w ts (Waitpid p)) \<and> status_of (reply w ts (Waitpid p)) < 2 ^ 31"
proof -
  assume "obliging w"
  then have "status_of (reply w ts (Waitpid p)) \<noteq> - (2 ^ 31)" by (simp add: obliging_def has_memory_def)
  moreover have "- (2 ^ 31) \<le> status_of a \<and> status_of a < 2 ^ 31" for a
    using s32_less s32_greater by (auto simp: status_of_def split: list.split)
  ultimately show ?thesis by (metis order_le_less)
qed

lemma single_command_spent:
  assumes "obliging w" "frame_ok F" "0 \<le> instruction (cmd1 pc)" "instruction (cmd1 pc) < 16" "NUL \<notin> set (argtext (cmd1 pc))"
    "length (argtext (cmd1 pc)) \<le> 1023" "arguments (cmd1 pc) \<noteq> 0" "ptr \<noteq> 0"
  shows "\<exists>w'. handle_single_command F ptr pc w = Some (0, w') \<and> spent w w'
     ((if frees_argument (instruction (cmd1 pc)) then {#arguments (cmd1 pc)#} else {#}) + {#arguments (cmd1 pc), ptr#})"
proof -
  let ?M = "if frees_argument (instruction (cmd1 pc)) then {#arguments (cmd1 pc)#} else {#}"
  obtain p w1 where 1: "run_handler F (cmd1 pc) 0 1 w = Some (p, w1)" "p < 2 ^ 31" "spent w w1 ?M"
    using run_handler_spent [OF assms(1-7)] by blast
  let ?st = "status_of (reply w1 (trace w1) (Waitpid p))" and ?w = "tell (Waitpid p) w1"
  have st: "- (2 ^ 31) < ?st" "?st < 2 ^ 31" using status_bounds spent_obliging [OF 1(3)] assms(1) by blast+
  have sw: "spent w1 ?w {#}" by (rule spent_tell) simp
  have "\<exists>w2. (if p < 0 then printferror_world (''No se pudo ejecutar el comando.'' @ nl) [] w1
      else if p = 0 then print_world (''Proceso lanzado en background.'' @ nl) [] w1
      else if ?st \<noteq> 0 then print_world (''Proceso %d terminado con estado %d'' @ nl) [AInt p, AInt ?st] ?w else Some ?w) = Some w2
      \<and> spent w1 w2 {#}"
  proof (cases "p \<le> 0")
    case True
    then show ?thesis using spent_tell [of "Write 2 (''No se pudo ejecutar el comando.'' @ nl)" w1]
        spent_tell [of "Write 1 (''Proceso lanzado en background.'' @ nl)" w1] by (auto simp: print_plain)
  next
    case False
    then obtain s where s: "print_world (''Proceso %d terminado con estado %d'' @ nl) [AInt p, AInt ?st] ?w = Some (tell (Write 1 s) ?w)"
      using print_some(1) [of "''Proceso %d terminado con estado %d'' @ nl" "[AInt p, AInt ?st]" ?w] st 1(2) by auto
    then show ?thesis using False sw spent_trans [OF sw spent_tell [of "Write 1 s"]] by auto
  qed
  then obtain w2 where 2: "(if p < 0 then printferror_world (''No se pudo ejecutar el comando.'' @ nl) [] w1
      else if p = 0 then print_world (''Proceso lanzado en background.'' @ nl) [] w1
      else if ?st \<noteq> 0 then print_world (''Proceso %d terminado con estado %d'' @ nl) [AInt p, AInt ?st] ?w else Some ?w) = Some w2"
    "spent w1 w2 {#}" by blast
  have "spent w2 (free_world ptr (free_world (arguments (cmd1 pc)) w2)) {#arguments (cmd1 pc), ptr#}"
    using assms(7,8) by (simp add: spent_def free_tell trace_simps)
  from spent_trans [OF spent_trans [OF 1(3) 2(2)] this] show ?thesis
    unfolding handle_single_command_def 1(1) ask_eq Let_def bind.bind_lunit prod.case 2(1) by simp
qed

text \<open>The commands found in a typed line without a bar.\<close>

lemma count_one:
  assumes "instruction (cmd1 pc) < 19" "-1 \<le> instruction (cmd1 pc)" "cmd2 pc = no_command"
  shows "count_commands ptr pc w = Some (if 0 \<le> instruction (cmd1 pc) \<and> instruction (cmd1 pc) < 16 then 1 else 0, w)"
  using assms by (auto simp: count_commands_def no_command_def IS_BUILT_IN_def KILL_NUM_def EXIT_NUM_def)

text \<open>A line that is typed without a bar is taken apart as it stands: the first word selects the
  command by its place in the table, everything behind the space after it is its argument, the
  rest of the input is not touched, and the shell knows whether it has a program to start (1) or
  a built-in or unknown command (0).  All memory but the argument is given back.\<close>

theorem command_line_parsed:
  assumes "obliging w" "typed l" "CHR ''|'' \<notin> set l" "length l < 999" "table_ok F l"
  shows "\<exists>a w'. bufferControl F ptr \<lparr>cmd1 = no_command, cmd2 = no_command\<rparr> (w\<lparr>input := l @ CHR 0x0A # rest\<rparr>)
       = Some (Some (if 0 \<le> command_number (word_of l) \<and> command_number (word_of l) < 16 then 1 else 0,
           \<lparr>cmd1 = \<lparr>instruction = command_number (word_of l), arguments = a, argtext = rest_of l\<rparr>, cmd2 = no_command\<rparr>), w')
     \<and> a \<noteq> 0 \<and> given w' + taken w + {#a#} = taken w' + given w \<and> input w' = rest"
proof -
  have n: "command_number (word_of l) < 19" "-1 \<le> command_number (word_of l)"
    using command_number_less by (auto simp: command_number_def)
  show ?thesis using bufferControl_typed [OF assms, of ptr "\<lparr>cmd1 = no_command, cmd2 = no_command\<rparr>" rest] n
    by (auto simp: count_one nets_def)
qed

text \<open>The answers of a kernel that always has memory, at ever new addresses.\<close>

definition ex_world :: world where
  "ex_world = \<lparr>reply = (\<lambda>ts c. \<lparr>ret = 4096 * (1 + int (length ts mod 1000)), outs = [], table = []\<rparr>), input = [], trace = []\<rparr>"

definition ex_frame :: frame where
  "ex_frame = \<lparr>stack = (\<lambda>_. NUL), arg_storage = 4096, temp_storage = 8192, past_end = ''%d''\<rparr>"

lemma ex_obliging: "obliging ex_world"
proof -
  have "to_u64 (4096 * (1 + int (n mod 1000))) = 4096 * (1 + n mod 1000)" for n by (simp add: to_u64_def nat_mult_distrib nat_add_distrib)
  then show ?thesis by (simp add: obliging_def has_memory_def ex_world_def status_of_def)
qed

theorem command_line_parsed_witness:
  "\<exists>a w'. bufferControl ex_frame 64 \<lparr>cmd1 = no_command, cmd2 = no_command\<rparr> \<lparr>reply = reply ex_world, input = ''nice 3 1'' @ [CHR 0x0A], trace = []\<rparr>
       = Some (Some (1, \<lparr>cmd1 = \<lparr>instruction = 15, arguments = a, argtext = ''3 1''\<rparr>, cmd2 = no_command\<rparr>), w') \<and> a \<noteq> 0"
proof -
  have "command_number (word_of ''nice 3 1'') = 15" "rest_of ''nice 3 1'' = ''3 1''" "typed ''nice 3 1''" "table_ok ex_frame ''nice 3 1''"
    by (simp_all add: command_number_def word_of_def rest_of_def inst_list_def typed_def table_ok_def ex_frame_def)
  moreover have "ex_world\<lparr>input := ''nice 3 1'' @ [CHR 0x0A]\<rparr> = \<lparr>reply = reply ex_world, input = ''nice 3 1'' @ [CHR 0x0A], trace = []\<rparr>"
    by (simp add: ex_world_def)
  ultimately show ?thesis using command_line_parsed [OF ex_obliging, of "''nice 3 1''" ex_frame 64 "[]"] by auto
qed

abbreviation no_commands :: pipeCmd where "no_commands \<equiv> \<lparr>cmd1 = no_command, cmd2 = no_command\<rparr>"

lemma tell_input: "tell c (w\<lparr>input := i\<rparr>) = (tell c w)\<lparr>input := i\<rparr>"
  by (simp add: tell_def ask_def Let_def)

text \<open>The prompt and the allocation of the command structure.\<close>

lemma round_start:
  assumes "obliging w"
  obtains ptr v where "ptr \<noteq> 0" "obliging v" "reply v = reply w" "acts v = acts w @ [Clear_pipe 0]" "given v + taken w + {#ptr#} = taken v + given w"
    "\<And>i. shell_round F username (w\<lparr>input := i\<rparr>)
       = after_input (bufferControl F ptr no_commands (v\<lparr>input := i\<rparr>)) (\<lambda>(n, pc) w. run_commands F ptr n pc w)"
proof -
  obtain r where "format_loop ''%s@sh$ '' [AStr username] [] = Some r" using format_loop_ok [of "''%s@sh$ ''" "[AStr username]" "[]"] by auto
  then have s: "print_world ''%s@sh$ '' [AStr username] u = Some (tell (Write 1 r) u)" for u
    by (simp add: print_world_def put_out_def user_printf_def format_printf_def)
  let ?u = "tell (Write 1 r) (clearBuffer w)"
  let ?p = "to_u64 (ret (reply ?u (trace ?u) (Alloc sizeof_pipeCmd)))" and ?v = "tell (Alloc sizeof_pipeCmd) ?u"
  have p: "?p \<noteq> 0" using assms by (simp add: obliging_def has_memory_def clearBuffer_def)
  show thesis
  proof (rule that [of ?p ?v])
    show "shell_round F username (w\<lparr>input := i\<rparr>)
       = after_input (bufferControl F ?p no_commands (?v\<lparr>input := i\<rparr>)) (\<lambda>(n, pc) w. run_commands F ?p n pc w)" for i
      using p by (simp add: shell_round_def s clearBuffer_def tell_input malloc_world_def malloc_def syscall_alloc_def ask_eq sizeof_pipeCmd_def)
  qed (use p assms in \<open>simp_all add: clearBuffer_def trace_simps is_act_def\<close>)
qed



section \<open>Pipelines\<close>

lemma malloc_input:
  assumes "obliging w"
  shows "\<exists>p. malloc_world BUFFER_SPACE (w\<lparr>input := i\<rparr>) = Some (p, (tell (Alloc BUFFER_SPACE) w)\<lparr>input := i\<rparr>) \<and> p \<noteq> 0
     \<and> taken (tell (Alloc BUFFER_SPACE) w) = taken w + {#p#}"
proof -
  have "obliging (w\<lparr>input := i\<rparr>)" "0 < BUFFER_SPACE" using assms by (simp_all add: BUFFER_SPACE_def)
  then show ?thesis by (rule malloc_obliging) (auto simp: tell_input)
qed

lemma second_command_typed:
  assumes "obliging w" "buf \<noteq> 0" "typed l2" "table_ok F l2" "p = length l1 + 1"
  shows "\<exists>a w'. second_command F buf (l1 @ CHR '' '' # CHR ''|'' # CHR '' '' # l2 @ NUL # NUL # zs) p pc w
       = Some ((l1 @ NUL # NUL # NUL # l2 @ NUL # NUL # zs,
           pc\<lparr>cmd2 := \<lparr>instruction = command_number (word_of l2), arguments = a, argtext = rest_of l2\<rparr>\<rparr>), w')
     \<and> a \<noteq> 0 \<and> nets w w' {#a#} {#buf + p + 2#} \<and> input w' = input w"
proof -
  obtain a where a: "malloc_world BUFFER_SPACE w = Some (a, tell (Alloc BUFFER_SPACE) w)" "a \<noteq> 0"
    "taken (tell (Alloc BUFFER_SPACE) w) = taken w + {#a#}" using malloc_obliging [OF assms(1), of BUFFER_SPACE] by (auto simp: BUFFER_SPACE_def)
  obtain w' where w': "getInstruction F (buf + p + 2) (l2 @ NUL # NUL # zs) a (tell (Alloc BUFFER_SPACE) w)
      = Some ((command_number (word_of l2), rest_of l2), w')" "nets (tell (Alloc BUFFER_SPACE) w) w' {#} {#buf + p + 2#}" "input w' = input w"
    using getInstruction_typed [of "tell (Alloc BUFFER_SPACE) w" "buf + p + 2" a l2 F zs] assms(1-4) a(2) verify_word [OF assms(3,4)] by auto
  have b: "(l1 @ CHR '' '' # CHR ''|'' # CHR '' '' # l2 @ NUL # NUL # zs)[p - 1 := NUL, p := NUL, p + 1 := NUL]
      = l1 @ NUL # NUL # NUL # l2 @ NUL # NUL # zs"
    by (simp add: assms(5) list_update_append)
  have d: "drop (p + 2) (l1 @ NUL # NUL # NUL # l2 @ NUL # NUL # zs) = l2 @ NUL # NUL # zs" by (simp add: assms(5))
  show ?thesis using a w' nets_trans [OF nets_alloc [OF a(3)] w'(2)] unfolding second_command_def Let_def b d
    by (auto simp: assms(5))
qed

text \<open>Two commands with a bar between two spaces; the pointer released for the second one is
  inside the buffer.\<close>

lemma bufferControl_piped:
  assumes "obliging w" "typed l1" "typed l2" "CHR ''|'' \<notin> set l1" "length l1 + length l2 < 996" "table_ok F l1" "table_ok F l2"
  shows "\<exists>a1 a2 q w'. let pc' = \<lparr>cmd1 = \<lparr>instruction = command_number (word_of l1), arguments = a1, argtext = rest_of l1\<rparr>,
         cmd2 = \<lparr>instruction = command_number (word_of l2), arguments = a2, argtext = rest_of l2\<rparr>\<rparr> in
       bufferControl F ptr pc (w\<lparr>input := l1 @ '' | '' @ l2 @ CHR 0x0A # rest\<rparr>)
         = map_option (\<lambda>(n, w). (Some (n, pc'), w)) (count_commands ptr pc' w')
       \<and> a1 \<noteq> 0 \<and> a2 \<noteq> 0 \<and> nets w w' {#a1, a2#} {#q#} \<and> input w' = rest"
proof -
  define c1 where "c1 a = \<lparr>instruction = command_number (word_of l1), arguments = a, argtext = rest_of l1\<rparr>" for a
  define c2 where "c2 a = \<lparr>instruction = command_number (word_of l2), arguments = a, argtext = rest_of l2\<rparr>" for a
  let ?l = "l1 @ '' | '' @ l2"
  let ?w = "w\<lparr>input := ?l @ CHR 0x0A # rest\<rparr>" and ?u = "tell (Alloc BUFFER_SPACE) w"
  obtain buf where buf: "malloc_world BUFFER_SPACE ?w = Some (buf, ?u\<lparr>input := ?l @ CHR 0x0A # rest\<rparr>)" "buf \<noteq> 0" "taken ?u = taken w + {#buf#}"
    using malloc_input [OF assms(1)] by blast
  define k where "k = 995 - (length l1 + length l2)"
  have k: "1000 - length ?l = Suc (Suc k)" using assms(5) by (simp add: k_def)
  have ty: "typed ?l" "length ?l < 999" using assms(2,3,5) by (auto simp: typed_def)
  have rep: "(replicate n NUL)[0 := NUL] = replicate n NUL" for n by (cases n) simp_all
  obtain w1 where w1: "readLine (replicate 1000 NUL) 1000 (?u\<lparr>input := ?l @ CHR 0x0A # rest\<rparr>)
      = Some (Some (?l @ NUL # NUL # replicate k NUL, length ?l), w1)" "only_writes ?u w1" "input w1 = rest"
    using readLine_typed [OF ty, of 0 rest ?u] unfolding k by (auto simp: list_update_append rep)
  have bar: "strstr (takeWhile (\<lambda>c. c \<noteq> NUL) (?l @ NUL # NUL # replicate k NUL)) ''|'' = Some (length l1 + 1)"
    unfolding takeWhile_typed [OF ty(1)] using assms(4) by (auto simp: strstr_def strstr_char takeWhile_append)
  have "obliging w1" using only_writes_memory(3) [OF w1(2)] assms(1) by simp
  then obtain a2 w2 where 2: "second_command F buf (?l @ NUL # NUL # replicate k NUL) (length l1 + 1) pc w1
      = Some ((l1 @ NUL # NUL # NUL # l2 @ NUL # NUL # replicate k NUL,
           pc\<lparr>cmd2 := c2 a2\<rparr>), w2)"
    "a2 \<noteq> 0" "nets w1 w2 {#a2#} {#buf + (length l1 + 1) + 2#}" "input w2 = input w1"
    using second_command_typed [OF _ buf(2) assms(3,7) refl, of w1 l1 "replicate k NUL" pc] by (auto simp: c2_def)
  obtain a1 w3 where 3: "first_command F buf (l1 @ NUL # NUL # NUL # l2 @ NUL # NUL # replicate k NUL)
        (pc\<lparr>cmd2 := c2 a2\<rparr>) w2
      = Some (\<lparr>cmd1 = c1 a1, cmd2 = c2 a2\<rparr>, w3)"
    "a1 \<noteq> 0" "nets w2 w3 {#a1#} {#buf#}" "input w3 = input w2"
  proof -
    have pc: "pc\<lparr>cmd2 := y, cmd1 := x\<rparr> = \<lparr>cmd1 = x, cmd2 = y\<rparr>" for x y by (cases pc) simp
    have "obliging w2" using nets_obliging [OF 2(3)] \<open>obliging w1\<close> by simp
    from first_command_typed [OF this buf(2) assms(2,6), of "NUL # l2 @ NUL # NUL # replicate k NUL"] show ?thesis
      using that unfolding pc [symmetric] c1_def by blast
  qed
  from nets_trans [OF nets_trans [OF nets_trans [OF nets_alloc [OF buf(3)] nets_writes [OF w1(2)]] 2(3)] 3(3)]
  have "nets w w3 {#a1, a2#} {#buf + (length l1 + 1) + 2#}" by (simp add: nets_def ac_simps)
  moreover have "readLine (replicate BUFFER_SPACE NUL) BUFFER_SPACE (?u\<lparr>input := ?l @ CHR 0x0A # rest\<rparr>)
      = Some (Some (?l @ NUL # NUL # replicate k NUL, length ?l), w1)" using w1(1) by (simp add: BUFFER_SPACE_def)
  then have "bufferControl F ptr pc ?w = map_option (\<lambda>(n, w). (Some (n, \<lparr>cmd1 = c1 a1, cmd2 = c2 a2\<rparr>), w)) (count_commands ptr \<lparr>cmd1 = c1 a1, cmd2 = c2 a2\<rparr> w3)"
    unfolding bufferControl_def buf(1) bind.bind_lunit prod.case if_not_P [OF buf(2)] after_input_def
    by (simp only: option.case prod.case bar 2(1) 3(1) bind.bind_lunit)
      (cases "count_commands ptr \<lparr>cmd1 = c1 a1, cmd2 = c2 a2\<rparr> w3"; auto)
  ultimately show ?thesis using 3(2,4) 2(2,4) w1(3) unfolding Let_def c1_def [symmetric] c2_def [symmetric] by (intro exI [of _ a1] exI [of _ a2] exI [of _ "buf + (length l1 + 1) + 2"] exI [of _ w3]) simp
qed

text \<open>At most one process is started, with its standard output at \<open>sout\<close> and its standard input at
  \<open>sin\<close> or closed; without a process the result is an error.\<close>

definition starts :: "call list \<Rightarrow> int \<Rightarrow> int \<Rightarrow> int \<Rightarrow> bool" where
  "starts cs sin sout p \<longleftrightarrow> cs = [] \<and> p < 0 \<or> (\<exists>nm fn av pr fg inp. cs = [Create nm fn av pr fg inp sout] \<and> (inp = sin \<or> inp = -1))"

lemma create_simple_acts:
  "create_simple_process nm fn fg sin sout w = Some (p, w') \<Longrightarrow> acts w' = acts w @ [Create nm fn Null 4 fg sin sout]"
  by (auto simp: create_simple_process_def ask_eq Let_def is_act_def dest!: print_acts(2) split: if_splits)

lemma create_args_acts:
  assumes "obliging w" "create_process_with_args nm fn args argc fg sin sout w = Some (p, w')"
  shows "acts w' = acts w @ [Create nm fn (Argv (take argc args)) 5 fg sin sout]"
proof -
  define n where "n = (argc + 1) * 8"
  obtain q where q: "malloc_world n w = Some (q, tell (Alloc n) w)" "q \<noteq> 0" using malloc_obliging [OF assms(1), of n] by (auto simp: n_def)
  show ?thesis using assms(2) unfolding create_process_with_args_def n_def [symmetric] q(1) bind.bind_lunit prod.case if_not_P [OF q(2)]
    by (auto simp: ask_eq Let_def is_act_def free_tell [OF q(2)] dest!: print_acts(2) split: if_splits)
qed

lemma handle_args_acts:
  assumes "obliging w" "handle_process_with_args F nm fn arg n usage sin sout us w = Some (p, w')"
  shows "\<exists>cs. acts w' = acts w @ cs \<and> starts cs sin sout p"
proof -
  let ?rows = "map (\<lambda>i. arg_storage F + 32 * i) [0..<if n > 0 then n else 1]"
  obtain bg m where a: "analize_arg (stack F) (temp_storage F) (Some arg) ?rows n 32 = Some (bg, m)"
    using assms(2) unfolding handle_process_with_args_def Let_def by (cases "analize_arg (stack F) (temp_storage F) (Some arg) ?rows n 32") auto
  show ?thesis
  proof (cases "bg = -1")
    case True
    then have "acts w' = acts w \<and> p = -1"
      using assms(2) unfolding handle_process_with_args_def Let_def a by (auto dest: print_acts(2) simp del: upt_Suc)
    then show ?thesis by (auto simp: starts_def)
  next
    case False
    let ?inp = "if us then sin else -1" and ?fg = "if bg = 0 then 1 else 0 :: int"
    obtain p' where "n = 0 \<and> create_simple_process nm fn ?fg ?inp sout w = Some (p', w')
        \<or> n \<noteq> 0 \<and> create_process_with_args nm fn (map (\<lambda>a. cstr m a 32) ?rows) n ?fg ?inp sout w = Some (p', w')"
      using assms(2) False unfolding handle_process_with_args_def Let_def a
      by (cases "n = 0"; cases "create_simple_process nm fn ?fg ?inp sout w";
          cases "create_process_with_args nm fn (map (\<lambda>a. cstr m a 32) ?rows) n ?fg ?inp sout w") (auto simp del: upt_Suc)
    then have "\<exists>av pr. acts w' = acts w @ [Create nm fn av pr ?fg ?inp sout]"
      using create_simple_acts create_args_acts [OF assms(1)] by blast
    then show ?thesis by (auto simp: starts_def)
  qed
qed

lemma run_handler_acts:
  assumes "obliging w" "run_handler F c sin sout w = Some (p, w')" "0 \<le> instruction c" "instruction c < 16" "arguments c \<noteq> 0"
  shows "\<exists>cs. acts w' = acts w @ cs \<and> starts cs sin sout p"
proof -
  have one: "starts [Create nm fn av pr fg inp sout] sin sout p" if "inp \<in> {sin, -1}" for nm fn av pr fg inp
    using that by (auto simp: starts_def)
  have "run_handler F c sin sout w = Some (p, w') \<longrightarrow> (\<exists>cs. acts w' = acts w @ cs \<and> starts cs sin sout p)"
  proof (rule run_handler_cases [OF assms(3,4)])
    fix nm fn n usage us
    show "handle_process_with_args F nm fn (argtext c) n usage sin sout us w = Some (p, w') \<longrightarrow> (\<exists>cs. acts w' = acts w @ cs \<and> starts cs sin sout p)"
      using handle_args_acts [OF assms(1)] by blast
  next
    fix nm fn inp
    assume "inp \<in> {sin, -1}"
    from one [OF this] show "create_simple_process nm fn 1 inp sout (free_world (arguments c) w) = Some (p, w')
        \<longrightarrow> (\<exists>cs. acts w' = acts w @ cs \<and> starts cs sin sout p)"
      using create_simple_acts [of nm fn 1 inp sout "free_world (arguments c) w" p w'] assms(5) by (auto simp: free_tell is_act_def)
  next
    fix nm fn av pr inp
    assume "inp \<in> {sin, -1}"
    from one [OF this] show "(case ask (Create nm fn av pr 1 inp sout) w of (a, w) \<Rightarrow> Some (s32 (ret a), w)) = Some (p, w')
        \<longrightarrow> (\<exists>cs. acts w' = acts w @ cs \<and> starts cs sin sout p)"
      by (auto simp: ask_eq is_act_def)
  qed
  then show ?thesis using assms(2) by blast
qed

text \<open>The pipe that is opened is closed on every path, after both processes were awaited.\<close>

definition piped_acts :: "int \<Rightarrow> int \<Rightarrow> int \<Rightarrow> call list \<Rightarrow> call list \<Rightarrow> call list" where
  "piped_acts pipe p0 p1 cs1 cs2 = Open_pipe # (if pipe < 0 then [] else cs1 @ cs2
     @ (if p0 < 0 \<or> p1 < 0 then [] else [Waitpid p0, Waitpid p1]) @ [Close_pipe pipe])"

lemma piped_commands_acts:
  assumes "obliging w" "frame_ok F" "ptr \<noteq> 0"
    and c: "\<forall>c\<in>{cmd1 pc, cmd2 pc}. 0 \<le> instruction c \<and> instruction c < 16 \<and> NUL \<notin> set (argtext c) \<and> length (argtext c) \<le> 1023 \<and> arguments c \<noteq> 0"
  shows "\<exists>w' pipe p0 p1 cs1 cs2. handle_piped_commands F ptr pc w = Some w' \<and> input w' = input w
     \<and> acts w' = acts w @ piped_acts pipe p0 p1 cs1 cs2 \<and> starts cs1 0 pipe p0 \<and> starts cs2 pipe 1 p1"
proof -
  let ?w = "tell Open_pipe w" and ?pipe = "s32 (ret (reply w (trace w) Open_pipe))"
  have nb: "instruction (cmd1 pc) \<noteq> -1" "instruction (cmd2 pc) \<noteq> -1" "\<not> IS_BUILT_IN (instruction (cmd1 pc))" "\<not> IS_BUILT_IN (instruction (cmd2 pc))"
    using c by (auto simp: IS_BUILT_IN_def KILL_NUM_def)
  obtain p0 w1 where 1: "run_handler F (cmd1 pc) 0 ?pipe ?w = Some (p0, w1)" "spent ?w w1 (if frees_argument (instruction (cmd1 pc)) then {#arguments (cmd1 pc)#} else {#})"
    using run_handler_spent [of ?w F "cmd1 pc" 0 ?pipe] assms(1,2) c by auto
  have ob: "obliging w1" using spent_obliging [OF 1(2)] assms(1) by simp
  obtain p1 w2 where 2: "run_handler F (cmd2 pc) ?pipe 1 w1 = Some (p1, w2)" "spent w1 w2 (if frees_argument (instruction (cmd2 pc)) then {#arguments (cmd2 pc)#} else {#})"
    using run_handler_spent [of w1 F "cmd2 pc" ?pipe 1] ob assms(2) c by auto
  obtain cs1 where cs1: "acts w1 = acts w @ [Open_pipe] @ cs1" "starts cs1 0 ?pipe p0"
    using run_handler_acts [OF _ 1(1)] assms(1) c by (auto simp: is_act_def)
  obtain cs2 where cs2: "acts w2 = acts w1 @ cs2" "starts cs2 ?pipe 1 p1" using run_handler_acts [OF ob 2(1)] c by auto
  have inp: "input w1 = input w" "input w2 = input w" using 1(2) 2(2) by (simp_all add: spent_def)
  obtain s where s: "printferror_world ''%s'' [AStr (''Error al abrir el pipe'' @ nl)] ?w = Some (tell (Write 2 s) ?w)" using print_some(2) by force
  have fr: "input (free_world p v) = input v" "acts (free_world p v) = acts v" for p v by (simp_all add: free_world_def user_free_def is_act_def)
  have "\<exists>w'. handle_piped_commands F ptr pc w = Some w' \<and> input w' = input w \<and> acts w' = acts w @ piped_acts ?pipe p0 p1 cs1 cs2"
  proof (cases "?pipe < 0")
    case True
    then show ?thesis using nb s by (simp add: handle_piped_commands_def error_and_cleanup_def free_pipe_cmd_def fr ask_eq piped_acts_def is_act_def)
  next
    case False
    then show ?thesis using nb 1(1) 2(1) cs1(1) cs2(1) inp
      by (simp add: handle_piped_commands_def free_pipe_cmd_def fr ask_eq Let_def piped_acts_def is_act_def print_plain)
  qed
  then show ?thesis using cs1(2) cs2(2) by blast
qed



text \<open>C38. When the first of two commands is unknown and the second is known, the shell counts one command
  and runs the first: it calls through entry -1 of its table of handlers.\<close>

theorem bad_first_command_faults:
  assumes "obliging w" "typed l1" "typed l2" "CHR ''|'' \<notin> set l1" "length l1 + length l2 < 996" "table_ok F l1" "table_ok F l2"
    "word_of l1 \<notin> set inst_list" "word_of l2 \<in> set inst_list"
  shows "shell_round F username (w\<lparr>input := l1 @ '' | '' @ l2 @ CHR 0x0A # rest\<rparr>) = None"
proof -
  obtain ptr v where v: "obliging v"
    "\<And>i. shell_round F username (w\<lparr>input := i\<rparr>) = after_input (bufferControl F ptr no_commands (v\<lparr>input := i\<rparr>)) (\<lambda>(n, pc) w. run_commands F ptr n pc w)"
    by (rule round_start [OF assms(1), of F username]) blast
  have n: "command_number (word_of l1) = -1" "0 \<le> command_number (word_of l2)" using assms(8,9) by (simp_all add: command_number_def)
  obtain a1 a2 w1 where 1: "bufferControl F ptr no_commands (v\<lparr>input := l1 @ '' | '' @ l2 @ CHR 0x0A # rest\<rparr>)
       = map_option (\<lambda>(n, w). (Some (n, \<lparr>cmd1 = \<lparr>instruction = -1, arguments = a1, argtext = rest_of l1\<rparr>,
         cmd2 = \<lparr>instruction = command_number (word_of l2), arguments = a2, argtext = rest_of l2\<rparr>\<rparr>), w))
           (count_commands ptr \<lparr>cmd1 = \<lparr>instruction = -1, arguments = a1, argtext = rest_of l1\<rparr>,
         cmd2 = \<lparr>instruction = command_number (word_of l2), arguments = a2, argtext = rest_of l2\<rparr>\<rparr> w1)"
    using bufferControl_piped [OF v(1) assms(2-7), of ptr no_commands rest] unfolding Let_def n(1) by blast
  show ?thesis unfolding v(2) 1
    by (simp add: count_commands_def n(2) IS_BUILT_IN_def KILL_NUM_def after_input_def run_commands_def handle_single_command_def run_handler_def)
qed

theorem bad_first_command_faults_witness:
  "shell_round ex_frame ''me'' (ex_world\<lparr>input := ''foo | wc'' @ [CHR 0x0A]\<rparr>) = None"
proof -
  have "word_of ''foo'' \<notin> set inst_list" "word_of ''wc'' \<in> set inst_list" "typed ''foo''" "typed ''wc''"
    "table_ok ex_frame ''foo''" "table_ok ex_frame ''wc''"
    by (simp_all add: word_of_def inst_list_def typed_def table_ok_def ex_frame_def)
  then show ?thesis using bad_first_command_faults [OF ex_obliging, of "''foo''" "''wc''" ex_frame "''me''" "[]"] by simp
qed

text \<open>Text that was typed behind a command and erased again is still run: the line on the screen is
  the bare command, and the shell passes the erased text to it as its argument, because the
  editor leaves it in the array behind the NUL and the parser skips that NUL.\<close>

theorem erased_text_runs:
  assumes "obliging w" "typed l" "CHR '' '' \<notin> set l" "CHR ''|'' \<notin> set l" "typed a" "length l + length a < 997" "table_ok F l"
  defines "keys \<equiv> l @ CHR '' '' # a @ replicate (length a + 1) CHR 0x08"
  shows "fold edit keys [] = l
    \<and> (\<exists>b w' n. bufferControl F ptr no_commands (w\<lparr>input := keys @ CHR 0x0A # rest\<rparr>)
         = Some (Some (n, \<lparr>cmd1 = \<lparr>instruction = command_number l, arguments = b, argtext = a\<rparr>, cmd2 = no_command\<rparr>), w'))"
proof -
  let ?u = "tell (Alloc BUFFER_SPACE) w"
  have ed: "fold edit cs ys = ys @ cs" if "typed cs" for cs ys
    using that by (induction cs arbitrary: ys) (auto simp: typed_def edit_def)
  have er: "fold edit (replicate n CHR 0x08) ys = take (length ys - n) ys" for n ys
    by (induction n arbitrary: ys) (auto simp: edit_def butlast_conv_take min_def)
  have ty: "typed (l @ CHR '' '' # a)" "length (l @ CHR '' '' # a) < 999" using assms(2,5,6) by (auto simp: typed_def)
  have "fold edit keys [] = fold edit (replicate (length a + 1) CHR 0x08) (fold edit (l @ CHR '' '' # a) [])" by (simp add: keys_def)
  then have 0: "fold edit keys [] = l" unfolding ed [OF ty(1)] er by simp
  define k where "k = 997 - (length l + length a)"
  have k: "1000 - length (l @ CHR '' '' # a) = Suc (Suc k)" using assms(6) by (simp add: k_def)
  obtain buf where buf: "malloc_world BUFFER_SPACE (w\<lparr>input := keys @ CHR 0x0A # rest\<rparr>) = Some (buf, ?u\<lparr>input := keys @ CHR 0x0A # rest\<rparr>)"
    "buf \<noteq> 0" using malloc_input [OF assms(1)] by blast
  obtain w1 where w1: "readLine (replicate BUFFER_SPACE NUL) BUFFER_SPACE (?u\<lparr>input := keys @ CHR 0x0A # rest\<rparr>)
      = Some (Some (l @ NUL # a @ NUL # NUL # replicate k NUL, length l), w1)" "only_writes ?u w1"
    using readLine_typed [OF ty, of "length a + 1" rest ?u] unfolding k keys_def BUFFER_SPACE_def by (auto simp: list_update_append)
  have bar: "strstr (takeWhile (\<lambda>c. c \<noteq> NUL) (l @ NUL # a @ NUL # NUL # replicate k NUL)) ''|'' = None"
    unfolding takeWhile_typed [OF assms(2)] using assms(4) by (simp add: strstr_def strstr_char)
  have ob: "obliging w1" using only_writes_memory(3) [OF w1(2)] assms(1) by simp
  obtain b where b: "malloc_world BUFFER_SPACE w1 = Some (b, tell (Alloc BUFFER_SPACE) w1)" "b \<noteq> 0"
    using malloc_obliging [OF ob, of BUFFER_SPACE] by (auto simp: BUFFER_SPACE_def)
  have wl: "word_of l = l" using assms(3) by (induction l) (auto simp: word_of_def)
  have vl: "verifyInstruction F l = command_number l" using verify_word [OF assms(2,7)] wl by simp
  have sa: "scan_args (a @ NUL # NUL # replicate k NUL) = Some a" using assms(5) by (intro scan_args_eq) (auto simp: typed_def)
  obtain w2 where w2: "getInstruction F buf (l @ NUL # a @ NUL # NUL # replicate k NUL) b (tell (Alloc BUFFER_SPACE) w1) = Some ((command_number l, a), w2)"
    using getInstruction_eq [of "tell (Alloc BUFFER_SPACE) w1" buf b l NUL "a @ NUL # NUL # replicate k NUL" a F] ob buf(2) b(2) sa assms(2,3)
    unfolding vl by (auto simp: typed_def)
  let ?pc = "\<lparr>cmd1 = \<lparr>instruction = command_number l, arguments = b, argtext = a\<rparr>, cmd2 = no_command\<rparr>"
  have n: "count_commands ptr ?pc w2 = Some (if 0 \<le> command_number l \<and> command_number l < 16 then 1 else 0, w2)"
    using command_number_less [of l] by (intro trans [OF count_one]) (auto simp: command_number_def)
  have "bufferControl F ptr no_commands (w\<lparr>input := keys @ CHR 0x0A # rest\<rparr>)
      = Some (Some (if 0 \<le> command_number l \<and> command_number l < 16 then 1 else 0, ?pc), w2)"
    unfolding bufferControl_def buf(1) bind.bind_lunit prod.case if_not_P [OF buf(2)] w1(1) after_input_def option.case bar first_command_def b(1) w2
    by (simp add: n)
  then show ?thesis using 0 by blast
qed

theorem erased_text_runs_witness:
  "\<exists>b w' n. bufferControl ex_frame 64 no_commands (ex_world\<lparr>input := ''kill 3'' @ [CHR 0x08, CHR 0x08, CHR 0x0A]\<rparr>)
     = Some (Some (n, \<lparr>cmd1 = \<lparr>instruction = command_number ''kill'', arguments = b, argtext = ''3''\<rparr>, cmd2 = no_command\<rparr>), w')"
proof -
  have "typed ''kill''" "typed ''3''" "table_ok ex_frame ''kill''" by (simp_all add: typed_def table_ok_def word_of_def ex_frame_def)
  then show ?thesis using erased_text_runs [OF ex_obliging, of "''kill''" "''3''" ex_frame 64 "[]"] by simp
qed

end
