(* ===== verification/MVar.thy ===== *)
theory MVar
  imports User_World Pipe
begin

text \<open>
  The MVar simulation, \<^verbatim>\<open>Userland/SampleCodeModule/shell/haskell.c\<close>: any number of writers and readers
  share one place for a character, built from two pipes.  The token pipe holds one byte when
  the place is empty; a writer takes the token and writes its character to the data pipe, a
  reader takes the character, prints it and gives the token back.

  The loops are a step relation: a state holds the contents of the two pipes and the position of
  every process, and a step is one system call of one process.  A read of an empty pipe and a
  write to a full one have no step, as in \<^verbatim>\<open>pipeRead\<close> and \<^verbatim>\<open>pipeWrite\<close>, which block there.  The calls
  return the number of bytes, 1; the library returns errors as huge unsigned numbers, so the test
  \<^verbatim>\<open><= 0\<close> is true only for the result 0.  The program \<^verbatim>\<open>mvar\<close> that opens the pipes and starts the
  processes is a function on \<open>world\<close>.
\<close>

section \<open>The processes\<close>

definition MAX_READER_COLORS :: nat where "MAX_READER_COLORS = 7"

definition reader_colors :: "nat list" where
  "reader_colors = [0x00FF6B6B, 0x0098D8C8, 0x006FC8FF, 0x00FFE66D, 0x00FF6BE6, 0x006BFFF6, 0x00FFB66B]"

text \<open>The number of times \<^verbatim>\<open>active_wait_random\<close> gives the processor away.\<close>

definition active_wait_random :: "nat \<Rightarrow> nat" where
  "active_wait_random seed = (seed mod 5 + 1) * 50"

datatype writer_pc = WWait nat | WToken | WData | WGiveBack

record writer =
  wval :: char
  wseed :: nat
  wpc :: writer_pc

datatype reader_pc = RWait nat | RData | RPrint char | RToken

record reader =
  rcolor :: nat
  rseed :: nat
  rpc :: reader_pc

text \<open>The start of a writer and of a reader: its arguments are parsed; \<open>None\<close> for too few of them
  or a color index outside the palette.\<close>

definition mvar_writer_entry :: "string list \<Rightarrow> (writer \<times> int \<times> int) option" where
  "mvar_writer_entry argv = (if length argv < 4 \<or> argv ! 0 = [] then None
     else let seed = to_u64 (satoi (Some (argv ! 3))) in
       Some (\<lparr>wval = hd (argv ! 0), wseed = seed, wpc = WWait (active_wait_random seed)\<rparr>,
         s32 (satoi (Some (argv ! 1))), s32 (satoi (Some (argv ! 2)))))"

definition mvar_reader_entry :: "string list \<Rightarrow> (reader \<times> int \<times> int) option" where
  "mvar_reader_entry argv = (if length argv < 4 then None
     else let color_idx = s32 (satoi (Some (argv ! 0))); seed = to_u64 (satoi (Some (argv ! 3))) in
       if color_idx < 0 then None
       else Some (\<lparr>rcolor = reader_colors ! nat (color_idx mod int MAX_READER_COLORS), rseed = seed,
           rpc = RWait (active_wait_random (u64 (seed + 7)))\<rparr>,
         s32 (satoi (Some (argv ! 1))), s32 (satoi (Some (argv ! 2)))))"

text \<open>What a process does after a call: \<open>r\<close> is the result of the call.  After an error it yields once
  more before the next turn.\<close>

definition writer_next :: "writer \<Rightarrow> nat \<Rightarrow> writer" where
  "writer_next x r = x\<lparr>wpc := (case wpc x of
       WWait n \<Rightarrow> if n = 0 then WToken else WWait (n - 1)
     | WToken \<Rightarrow> if r \<le> 0 then WWait (Suc (active_wait_random (wseed x))) else WData
     | WData \<Rightarrow> if r \<le> 0 then WGiveBack else WWait (active_wait_random (wseed x))
     | WGiveBack \<Rightarrow> WWait (Suc (active_wait_random (wseed x))))\<rparr>"

definition reader_next :: "reader \<Rightarrow> nat \<Rightarrow> char \<Rightarrow> reader" where
  "reader_next x r v = x\<lparr>rpc := (case rpc x of
       RWait n \<Rightarrow> if n = 0 then RData else RWait (n - 1)
     | RData \<Rightarrow> if r \<le> 0 then RWait (Suc (active_wait_random (u64 (rseed x + 7)))) else RPrint v
     | RPrint _ \<Rightarrow> RToken
     | RToken \<Rightarrow> RWait (if r \<le> 0 then Suc (active_wait_random (u64 (rseed x + 7))) else active_wait_random (u64 (rseed x + 7))))\<rparr>"

section \<open>Steps\<close>

record mvar_state =
  data_pipe :: string
  token_pipe :: string
  mwriters :: "writer list"
  mreaders :: "reader list"
  put_chars :: string
  printed :: "(nat \<times> char) list"

definition one :: char where "one = CHR 0x01"

text \<open>A step of writer \<open>i\<close>, \<open>None\<close> when it is blocked.\<close>

definition writer_step :: "nat \<Rightarrow> mvar_state \<Rightarrow> mvar_state option" where
  "writer_step i s = (if length (mwriters s) \<le> i then None else
     let x = mwriters s ! i; s' = s\<lparr>mwriters := (mwriters s)[i := writer_next x 1]\<rparr> in
     case wpc x of
       WWait n \<Rightarrow> Some s'
     | WToken \<Rightarrow> (case token_pipe s of [] \<Rightarrow> None | _ # ts \<Rightarrow> Some (s'\<lparr>token_pipe := ts\<rparr>))
     | WData \<Rightarrow> if length (data_pipe s) < PIPE_BUFFER_SIZE
         then Some (s'\<lparr>data_pipe := data_pipe s @ [wval x], put_chars := put_chars s @ [wval x]\<rparr>) else None
     | WGiveBack \<Rightarrow> if length (token_pipe s) < PIPE_BUFFER_SIZE then Some (s'\<lparr>token_pipe := token_pipe s @ [one]\<rparr>) else None)"

definition reader_step :: "nat \<Rightarrow> mvar_state \<Rightarrow> mvar_state option" where
  "reader_step j s = (if length (mreaders s) \<le> j then None else
     let x = mreaders s ! j in
     case rpc x of
       RWait n \<Rightarrow> Some (s\<lparr>mreaders := (mreaders s)[j := reader_next x 1 NUL]\<rparr>)
     | RData \<Rightarrow> (case data_pipe s of [] \<Rightarrow> None
         | v # vs \<Rightarrow> Some (s\<lparr>mreaders := (mreaders s)[j := reader_next x 1 v], data_pipe := vs\<rparr>))
     | RPrint v \<Rightarrow> Some (s\<lparr>mreaders := (mreaders s)[j := reader_next x 1 v], printed := printed s @ [(rcolor x, v)]\<rparr>)
     | RToken \<Rightarrow> if length (token_pipe s) < PIPE_BUFFER_SIZE
         then Some (s\<lparr>mreaders := (mreaders s)[j := reader_next x 1 NUL], token_pipe := token_pipe s @ [one]\<rparr>) else None)"

inductive mvar_step :: "mvar_state \<Rightarrow> mvar_state \<Rightarrow> bool" where
  step_writer: "writer_step i s = Some s' \<Longrightarrow> mvar_step s s'"
| step_reader: "reader_step j s = Some s' \<Longrightarrow> mvar_step s s'"

definition mvar_start :: "writer list \<Rightarrow> reader list \<Rightarrow> mvar_state" where
  "mvar_start ws rs = \<lparr>data_pipe = [], token_pipe = [one], mwriters = ws, mreaders = rs, put_chars = [], printed = []\<rparr>"

section \<open>The program mvar\<close>

text \<open>The number as text in a new block, and the pointer check of the block itself.\<close>

definition number_arg :: "nat \<Rightarrow> nat \<Rightarrow> world \<Rightarrow> (string \<times> world) option" where
  "number_arg sz n w = do {
     (p, w) \<leftarrow> malloc_world sz w;
     if p = 0 then None else do { s \<leftarrow> in_buffer sz (uint64ToStr n); Some (s, w) }
   }"

definition spawn_writer :: "nat \<Rightarrow> nat \<Rightarrow> nat \<Rightarrow> world \<Rightarrow> world option" where
  "spawn_writer i dp tp w = do {
     (pargv, w) \<leftarrow> malloc_world (5 * 8) w;
     if pargv = 0 then Some w else do {
       (p, w) \<leftarrow> malloc_world 2 w;
       if p = 0 then None else do {
         let c = char_of (65 + i mod 26);
         (a1, w) \<leftarrow> number_arg 32 dp w;
         (a2, w) \<leftarrow> number_arg 32 tp w;
         (a3, w) \<leftarrow> number_arg 32 (i + 1) w;
         Some (tell (Create (''writer_'' @ [c]) ''mvar_writer_entry'' (Argv [[c], a1, a2, a3]) 1 0 (-1) 1) w)
       }
     }
   }"

definition spawn_reader :: "nat \<Rightarrow> nat \<Rightarrow> nat \<Rightarrow> world \<Rightarrow> world option" where
  "spawn_reader i dp tp w = do {
     (pargv, w) \<leftarrow> malloc_world (5 * 8) w;
     if pargv = 0 then Some w else do {
       (a0, w) \<leftarrow> number_arg 16 i w;
       (a1, w) \<leftarrow> number_arg 32 dp w;
       (a2, w) \<leftarrow> number_arg 32 tp w;
       (a3, w) \<leftarrow> number_arg 32 (i + 10) w;
       nm \<leftarrow> in_buffer 25 (uint64ToStr (i + 1));
       Some (tell (Create (''reader_'' @ nm) ''mvar_reader_entry'' (Argv [a0, a1, a2, a3]) 1 0 (-1) 1) w)
     }
   }"

fun spawn_from :: "(nat \<Rightarrow> world \<Rightarrow> world option) \<Rightarrow> nat \<Rightarrow> nat \<Rightarrow> world \<Rightarrow> world option" where
  "spawn_from f i 0 w = Some w"
| "spawn_from f i (Suc n) w = Option.bind (f i w) (spawn_from f (i + 1) n)"

definition mvar :: "string list \<Rightarrow> world \<Rightarrow> (nat \<times> world) option" where
  "mvar argv w = (if length argv \<noteq> 2 then Some (to_u64 (-1), w) else do {
     let num_writers = s32 (satoi (Some (argv ! 0)));
     let num_readers = s32 (satoi (Some (argv ! 1)));
     let nl = [CHR 0x0A];
     if num_writers \<le> 0 \<or> num_writers > 26
     then map_option (Pair (to_u64 (-1))) (print_world (''Error: num_writers debe estar entre 1 y 26.'' @ nl) [] w)
     else if num_readers \<le> 0 \<or> num_readers > int MAX_READER_COLORS
     then map_option (Pair (to_u64 (-1))) (print_world (''Error: num_readers debe estar entre 1 y %d.'' @ nl) [AInt (int MAX_READER_COLORS)] w)
     else do {
       let (a, w) = ask Open_pipe w;
       let dp = s32 (ret a);
       if dp < 0 then map_option (Pair (to_u64 (-1))) (print_world (''Error: no se pudo crear el pipe de datos.'' @ nl) [] w)
       else do {
         let (b, w) = ask Open_pipe w;
         let tp = s32 (ret b);
         if tp < 0 then map_option (Pair (to_u64 (-1))) (print_world (''Error: no se pudo crear el pipe token.'' @ nl) [] w)
         else do {
           let (c, w) = ask (Write (nat tp) [one]) w;
           w \<leftarrow> (if to_u64 (ret c) \<le> 0 then print_world (''Warning: no se pudo inicializar token pipe.'' @ nl) [] w else Some w);
           w \<leftarrow> spawn_from (\<lambda>i. spawn_writer i (nat dp) (nat tp)) 0 (nat num_writers) w;
           w \<leftarrow> spawn_from (\<lambda>i. spawn_reader i (nat dp) (nat tp)) 0 (nat num_readers) w;
           w \<leftarrow> print_world (''MVar: %d escritores creados, %d lectores creados.'' @ nl) [AInt num_writers, AInt num_readers] w;
           w \<leftarrow> print_world (''Usa '' @ [CHR 0x27] @ ''ps'' @ [CHR 0x27] @ '' para ver PIDs y controlar los procesos con kill/nice'' @ nl) [] w;
           Some (0, w)
         }
       }
     }
   })"

section \<open>The invariant\<close>

text \<open>The share of a process in the one token: a writer that has taken it and not yet written, a reader that
  has taken the character and not yet given the token back.\<close>

definition writer_holds :: "writer \<Rightarrow> nat" where
  "writer_holds x = (case wpc x of WData \<Rightarrow> 1 | WGiveBack \<Rightarrow> 1 | _ \<Rightarrow> 0)"

definition reader_holds :: "reader \<Rightarrow> nat" where
  "reader_holds x = (case rpc x of RPrint _ \<Rightarrow> 1 | RToken \<Rightarrow> 1 | _ \<Rightarrow> 0)"

text \<open>The characters taken out and not yet printed.\<close>

definition in_hand :: "reader list \<Rightarrow> string" where
  "in_hand rs = concat (map (\<lambda>x. case rpc x of RPrint v \<Rightarrow> [v] | _ \<Rightarrow> []) rs)"

definition wsum :: "writer list \<Rightarrow> nat" where "wsum ws = sum_list (map writer_holds ws)"
definition rsum :: "reader list \<Rightarrow> nat" where "rsum rs = sum_list (map reader_holds rs)"

definition mvar_inv :: "mvar_state \<Rightarrow> bool" where
  "mvar_inv s \<longleftrightarrow> length (token_pipe s) + length (data_pipe s) + wsum (mwriters s) + rsum (mreaders s) = 1
     \<and> put_chars s = map snd (printed s) @ in_hand (mreaders s) @ data_pipe s"

lemma sum_list_upd:
  "i < length xs \<Longrightarrow> sum_list (map f (xs[i := y])) + f (xs ! i) = sum_list (map f xs) + (f y :: nat)"
proof (induction xs arbitrary: i)
  case (Cons x xs)
  then show ?case by (cases i) auto
qed simp

lemma wsum_upd: "i < length ws \<Longrightarrow> wsum (ws[i := y]) + writer_holds (ws ! i) = wsum ws + writer_holds y"
  unfolding wsum_def by (rule sum_list_upd)

lemma rsum_upd: "i < length rs \<Longrightarrow> rsum (rs[i := y]) + reader_holds (rs ! i) = rsum rs + reader_holds y"
  unfolding rsum_def by (rule sum_list_upd)

lemma rsum_ge: "i < length rs \<Longrightarrow> reader_holds (rs ! i) \<le> rsum rs"
  unfolding rsum_def by (metis elem_le_sum_list length_map nth_map)

lemma in_hand_none: "\<forall>x\<in>set rs. reader_holds x = 0 \<Longrightarrow> in_hand rs = []"
  by (induction rs) (auto simp: in_hand_def reader_holds_def split: reader_pc.splits)

lemma in_hand_append: "in_hand (xs @ ys) = in_hand xs @ in_hand ys"
  by (simp add: in_hand_def)

text \<open>When one reader accounts for all that is held, the others hold no character.\<close>

lemma in_hand_upd:
  assumes "j < length rs" "rsum rs \<le> reader_holds (rs ! j)"
  shows "in_hand (rs[j := x]) = (case rpc x of RPrint v \<Rightarrow> [v] | _ \<Rightarrow> [])"
proof -
  have "rs = take j rs @ rs ! j # drop (Suc j) rs" using assms(1) by (simp add: id_take_nth_drop)
  then have "rsum rs = rsum (take j rs) + reader_holds (rs ! j) + rsum (drop (Suc j) rs)"
    unfolding rsum_def by (metis (no_types, lifting) add.assoc list.simps(9) map_append sum_list.Cons sum_list.append)
  then have "rsum (take j rs) = 0" "rsum (drop (Suc j) rs) = 0" using assms(2) by linarith+
  then have "in_hand (take j rs) = []" "in_hand (drop (Suc j) rs) = []" by (auto simp: rsum_def intro!: in_hand_none)
  then show ?thesis using assms(1) by (simp add: upd_conv_take_nth_drop in_hand_append) (simp add: in_hand_def)
qed

lemma in_hand_same:
  assumes "j < length rs" "(case rpc x of RPrint v \<Rightarrow> [v] | _ \<Rightarrow> []) = (case rpc (rs ! j) of RPrint v \<Rightarrow> [v] | _ \<Rightarrow> [])"
  shows "in_hand (rs[j := x]) = in_hand rs"
proof -
  have "rs = take j rs @ rs ! j # drop (Suc j) rs" using assms(1) by (simp add: id_take_nth_drop)
  then have "in_hand rs = in_hand (take j rs) @ (case rpc (rs ! j) of RPrint v \<Rightarrow> [v] | _ \<Rightarrow> []) @ in_hand (drop (Suc j) rs)"
    by (metis (no_types, lifting) append_Cons append_Nil concat.simps(2) in_hand_append in_hand_def list.simps(9))
  then show ?thesis using assms by (simp add: upd_conv_take_nth_drop in_hand_append) (simp add: in_hand_def)
qed

lemma wsum_ge: "i < length ws \<Longrightarrow> writer_holds (ws ! i) \<le> wsum ws"
  unfolding wsum_def by (metis elem_le_sum_list length_map nth_map)

text \<open>A process that holds the token: both pipes are empty and nobody else holds it.\<close>

lemma holder_alone:
  assumes "mvar_inv s"
  shows "1 \<le> wsum (mwriters s) \<Longrightarrow> token_pipe s = [] \<and> data_pipe s = [] \<and> wsum (mwriters s) = 1 \<and> rsum (mreaders s) = 0"
    "1 \<le> rsum (mreaders s) \<Longrightarrow> token_pipe s = [] \<and> data_pipe s = [] \<and> wsum (mwriters s) = 0 \<and> rsum (mreaders s) = 1"
    "data_pipe s \<noteq> [] \<Longrightarrow> token_pipe s = [] \<and> length (data_pipe s) = 1 \<and> wsum (mwriters s) = 0 \<and> rsum (mreaders s) = 0"
    "token_pipe s \<noteq> [] \<Longrightarrow> length (token_pipe s) = 1 \<and> data_pipe s = [] \<and> wsum (mwriters s) = 0 \<and> rsum (mreaders s) = 0"
proof -
  have t: "length (token_pipe s) + length (data_pipe s) + wsum (mwriters s) + rsum (mreaders s) = 1" using assms by (simp add: mvar_inv_def)
  have z: "xs \<noteq> [] \<Longrightarrow> 1 \<le> length xs" for xs :: string by (cases xs) auto
  have n: "length xs = 0 \<Longrightarrow> xs = []" for xs :: string by simp
  show "1 \<le> wsum (mwriters s) \<Longrightarrow> token_pipe s = [] \<and> data_pipe s = [] \<and> wsum (mwriters s) = 1 \<and> rsum (mreaders s) = 0"
    using t by (intro conjI n) linarith+
  show "1 \<le> rsum (mreaders s) \<Longrightarrow> token_pipe s = [] \<and> data_pipe s = [] \<and> wsum (mwriters s) = 0 \<and> rsum (mreaders s) = 1"
    using t by (intro conjI n) linarith+
  show "data_pipe s \<noteq> [] \<Longrightarrow> token_pipe s = [] \<and> length (data_pipe s) = 1 \<and> wsum (mwriters s) = 0 \<and> rsum (mreaders s) = 0"
    using t z [of "data_pipe s"] by (intro conjI n) linarith+
  show "token_pipe s \<noteq> [] \<Longrightarrow> length (token_pipe s) = 1 \<and> data_pipe s = [] \<and> wsum (mwriters s) = 0 \<and> rsum (mreaders s) = 0"
    using t z [of "token_pipe s"] by (intro conjI n) linarith+
qed

lemma writer_step_inv:
  assumes "mvar_inv s" "writer_step i s = Some s'"
  shows "mvar_inv s'"
proof -
  let ?x = "mwriters s ! i"
  have i: "i < length (mwriters s)" using assms(2) by (auto simp: writer_step_def split: if_splits)
  note upd = wsum_upd [OF i, of "writer_next ?x 1"] and defs = writer_step_def mvar_inv_def writer_next_def writer_holds_def Let_def
  show ?thesis
  proof (cases "wpc ?x")
    case (WWait n)
    then have "wsum ((mwriters s)[i := writer_next ?x 1]) = wsum (mwriters s)" using upd by (simp add: writer_next_def writer_holds_def)
    then show ?thesis using assms i WWait by (auto simp: writer_step_def mvar_inv_def Let_def)
  next
    case WToken
    then obtain c cs where c: "token_pipe s = c # cs" using assms(2) i by (auto simp: writer_step_def Let_def split: list.splits)
    then show ?thesis using assms i WToken upd holder_alone(4) [OF assms(1)] by (auto simp: defs)
  next
    case WData
    then have z: "token_pipe s = [] \<and> data_pipe s = [] \<and> wsum (mwriters s) = 1 \<and> rsum (mreaders s) = 0"
      using holder_alone(1) [OF assms(1)] wsum_ge [OF i] by (simp add: writer_holds_def)
    then show ?thesis using assms i WData upd by (auto simp: defs split: if_splits)
  next
    case WGiveBack
    then have z: "token_pipe s = [] \<and> data_pipe s = [] \<and> wsum (mwriters s) = 1 \<and> rsum (mreaders s) = 0"
      using holder_alone(1) [OF assms(1)] wsum_ge [OF i] by (simp add: writer_holds_def)
    then show ?thesis using assms i WGiveBack upd by (auto simp: defs split: if_splits)
  qed
qed

lemma reader_step_inv:
  assumes "mvar_inv s" "reader_step j s = Some s'"
  shows "mvar_inv s'"
proof -
  let ?x = "mreaders s ! j"
  have j: "j < length (mreaders s)" using assms(2) by (auto simp: reader_step_def split: if_splits)
  note upd = rsum_upd [OF j] and defs = reader_step_def mvar_inv_def reader_next_def reader_holds_def Let_def
  show ?thesis
  proof (cases "rpc ?x")
    case (RWait n)
    have "in_hand ((mreaders s)[j := reader_next ?x 1 NUL]) = in_hand (mreaders s)"
      by (rule in_hand_same [OF j]) (simp add: RWait reader_next_def)
    moreover have "rsum ((mreaders s)[j := reader_next ?x 1 NUL]) = rsum (mreaders s)"
      using upd [of "reader_next ?x 1 NUL"] RWait by (simp add: reader_next_def reader_holds_def)
    ultimately show ?thesis using assms RWait j by (auto simp: reader_step_def mvar_inv_def Let_def)
  next
    case RData
    then obtain v vs where d: "data_pipe s = v # vs" using assms(2) j by (auto simp: reader_step_def split: list.splits)
    then have z: "rsum (mreaders s) = 0" "vs = []" using holder_alone(3) [OF assms(1)] by auto
    then have "in_hand (mreaders s) = []" by (auto simp: rsum_def intro!: in_hand_none)
    then show ?thesis using assms d z RData j upd [of "reader_next ?x 1 v"] in_hand_upd [OF j, of "reader_next ?x 1 v"] holder_alone(3) [OF assms(1)]
      by (auto simp: defs)
  next
    case (RPrint v)
    then have z: "token_pipe s = []" "data_pipe s = []" "wsum (mwriters s) = 0" "rsum (mreaders s) = 1"
      using holder_alone(2) [OF assms(1)] rsum_ge [OF j] by (simp_all add: reader_holds_def)
    moreover have "in_hand (mreaders s) = [v]" using in_hand_upd [OF j, of ?x] z(4) RPrint by (simp add: reader_holds_def)
    ultimately show ?thesis using assms RPrint j upd [of "reader_next ?x 1 v"] in_hand_upd [OF j, of "reader_next ?x 1 v"]
      by (auto simp: defs)
  next
    case RToken
    then have z: "token_pipe s = []" "data_pipe s = []" "wsum (mwriters s) = 0" "rsum (mreaders s) = 1"
      using holder_alone(2) [OF assms(1)] rsum_ge [OF j] by (simp_all add: reader_holds_def)
    moreover have "in_hand (mreaders s) = []" using in_hand_upd [OF j, of ?x] z(4) RToken by (simp add: reader_holds_def)
    ultimately show ?thesis using assms RToken j upd [of "reader_next ?x 1 NUL"] in_hand_upd [OF j, of "reader_next ?x 1 NUL"]
      by (auto simp: defs split: if_splits)
  qed
qed

abbreviation mvar_steps :: "mvar_state \<Rightarrow> mvar_state \<Rightarrow> bool" where "mvar_steps \<equiv> mvar_step\<^sup>*\<^sup>*"

text \<open>All processes are before their first call.\<close>

definition fresh :: "writer list \<Rightarrow> reader list \<Rightarrow> bool" where
  "fresh ws rs \<longleftrightarrow> (\<forall>x\<in>set ws. writer_holds x = 0) \<and> (\<forall>x\<in>set rs. reader_holds x = 0)"

lemma mvar_start_inv: "fresh ws rs \<Longrightarrow> mvar_inv (mvar_start ws rs)"
  by (simp add: fresh_def mvar_inv_def mvar_start_def wsum_def rsum_def in_hand_none)

lemma mvar_step_keeps:
  assumes "mvar_step s s'" "mvar_inv s"
  shows "mvar_inv s' \<and> length (mwriters s') = length (mwriters s) \<and> length (mreaders s') = length (mreaders s)"
  using assms
proof cases
  case (step_writer i)
  then have "length (mwriters s') = length (mwriters s) \<and> mreaders s' = mreaders s"
    by (auto simp: writer_step_def Let_def split: if_splits writer_pc.splits list.splits)
  then show ?thesis using writer_step_inv [OF assms(2) step_writer] by simp
next
  case (step_reader j)
  then have "length (mreaders s') = length (mreaders s) \<and> mwriters s' = mwriters s"
    by (auto simp: reader_step_def Let_def split: if_splits reader_pc.splits list.splits)
  then show ?thesis using reader_step_inv [OF assms(2) step_reader] by simp
qed

lemma mvar_steps_keep:
  "mvar_steps s s' \<Longrightarrow> mvar_inv s \<Longrightarrow> mvar_inv s' \<and> length (mwriters s') = length (mwriters s) \<and> length (mreaders s') = length (mreaders s)"
  by (induction rule: rtranclp_induct) (auto dest: mvar_step_keeps)

lemma mvar_reach:
  "fresh ws rs \<Longrightarrow> mvar_steps (mvar_start ws rs) s \<Longrightarrow>
   mvar_inv s \<and> length (mwriters s) = length ws \<and> length (mreaders s) = length rs"
  using mvar_steps_keep [OF _ mvar_start_inv] by (fastforce simp: mvar_start_def)

text \<open>A waiting process gives up its turn until it makes its call.\<close>

lemma writer_waits:
  "i < length (mwriters s) \<Longrightarrow> wpc (mwriters s ! i) = WWait n \<Longrightarrow>
   \<exists>x. mvar_steps s (s\<lparr>mwriters := (mwriters s)[i := x]\<rparr>) \<and> wpc x = WToken"
proof (induction n arbitrary: s)
  case 0
  then have "mvar_step s (s\<lparr>mwriters := (mwriters s)[i := writer_next (mwriters s ! i) 1]\<rparr>)"
    by (intro step_writer [of i]) (simp add: writer_step_def Let_def)
  then show ?case using 0 by (intro exI conjI r_into_rtranclp) (auto simp: writer_next_def)
next
  case (Suc n)
  let ?s = "s\<lparr>mwriters := (mwriters s)[i := writer_next (mwriters s ! i) 1]\<rparr>"
  have st: "mvar_step s ?s" using Suc(2,3) by (intro step_writer [of i]) (simp add: writer_step_def Let_def)
  obtain x where x: "mvar_steps ?s (?s\<lparr>mwriters := (mwriters ?s)[i := x]\<rparr>)" "wpc x = WToken"
    using Suc(1) [of ?s] Suc(2,3) by (auto simp: writer_next_def)
  then have "mvar_steps s (s\<lparr>mwriters := (mwriters s)[i := x]\<rparr>)" using st by (simp add: converse_rtranclp_into_rtranclp)
  then show ?case using x(2) by blast
qed

lemma reader_waits:
  "j < length (mreaders s) \<Longrightarrow> rpc (mreaders s ! j) = RWait n \<Longrightarrow>
   \<exists>x. mvar_steps s (s\<lparr>mreaders := (mreaders s)[j := x]\<rparr>) \<and> rpc x = RData"
proof (induction n arbitrary: s)
  case 0
  then have "mvar_step s (s\<lparr>mreaders := (mreaders s)[j := reader_next (mreaders s ! j) 1 NUL]\<rparr>)"
    by (intro step_reader [of j]) (simp add: reader_step_def Let_def)
  then show ?case using 0 by (intro exI conjI r_into_rtranclp) (auto simp: reader_next_def)
next
  case (Suc n)
  let ?s = "s\<lparr>mreaders := (mreaders s)[j := reader_next (mreaders s ! j) 1 NUL]\<rparr>"
  have st: "mvar_step s ?s" using Suc(2,3) by (intro step_reader [of j]) (simp add: reader_step_def Let_def)
  obtain x where x: "mvar_steps ?s (?s\<lparr>mreaders := (mreaders ?s)[j := x]\<rparr>)" "rpc x = RData"
    using Suc(1) [of ?s] Suc(2,3) by (auto simp: reader_next_def)
  then have "mvar_steps s (s\<lparr>mreaders := (mreaders s)[j := x]\<rparr>)" using st by (simp add: converse_rtranclp_into_rtranclp)
  then show ?case using x(2) by blast
qed

text \<open>From the data pipe to the screen.\<close>

abbreviation prints_more :: "mvar_state \<Rightarrow> bool" where
  "prints_more s \<equiv> \<exists>s' p. mvar_steps s s' \<and> printed s' = printed s @ [p]"

lemma print_now:
  assumes "j < length (mreaders s)" "rpc (mreaders s ! j) = RPrint v"
  shows "prints_more s"
proof -
  have "mvar_step s (s\<lparr>mreaders := (mreaders s)[j := reader_next (mreaders s ! j) 1 v], printed := printed s @ [(rcolor (mreaders s ! j), v)]\<rparr>)"
    using assms by (intro step_reader [of j]) (simp add: reader_step_def Let_def)
  then show ?thesis by (intro exI conjI r_into_rtranclp) auto
qed

lemma data_printed:
  assumes "data_pipe s = v # vs" "j < length (mreaders s)" "reader_holds (mreaders s ! j) = 0"
  shows "prints_more s"
proof -
  obtain x where x: "mvar_steps s (s\<lparr>mreaders := (mreaders s)[j := x]\<rparr>)" "rpc x = RData"
  proof (cases "rpc (mreaders s ! j)")
    case (RWait n)
    then show ?thesis using reader_waits [OF assms(2)] that by blast
  next
    case RData
    then show ?thesis using that [of "mreaders s ! j"] by simp
  qed (use assms(3) in \<open>auto simp: reader_holds_def\<close>)
  let ?s = "s\<lparr>mreaders := (mreaders s)[j := x]\<rparr>"
  let ?t = "?s\<lparr>mreaders := (mreaders ?s)[j := reader_next x 1 v], data_pipe := vs\<rparr>"
  have st: "mvar_step ?s ?t" using x(2) assms(1,2) by (intro step_reader [of j]) (simp add: reader_step_def Let_def)
  have "prints_more ?t" by (rule print_now [of j _ v]) (use assms(2) x(2) in \<open>simp_all add: reader_next_def\<close>)
  then obtain s' p where s': "mvar_steps ?t s'" "printed s' = printed ?t @ [p]" by blast
  have "mvar_steps s s'" using x(1) st s'(1) by (meson converse_rtranclp_into_rtranclp rtranclp_trans)
  then show ?thesis using s'(2) by auto
qed

lemma prints_more_later: "mvar_steps s t \<Longrightarrow> printed t = printed s \<Longrightarrow> prints_more t \<Longrightarrow> prints_more s"
  by (metis rtranclp_trans)

lemma sum_pos: "0 < sum_list (map f xs) \<Longrightarrow> \<exists>i<length xs. (0 :: nat) < f (xs ! i)"
  by (metis gr0I in_set_conv_nth list.set_map image_iff sum_list_eq_0_iff)

lemma nonzero_holder:
  "0 < wsum ws \<Longrightarrow> \<exists>i<length ws. 0 < writer_holds (ws ! i)" "0 < rsum rs \<Longrightarrow> \<exists>j<length rs. 0 < reader_holds (rs ! j)"
  unfolding wsum_def rsum_def by (rule sum_pos, assumption)+

lemma writer_put:
  assumes "mvar_inv s" "i < length (mwriters s)" "wpc (mwriters s ! i) = WData" "0 < length (mreaders s)"
  shows "prints_more s"
proof -
  let ?x = "mwriters s ! i"
  have z: "data_pipe s = []" "rsum (mreaders s) = 0"
    using holder_alone(1) [OF assms(1)] wsum_ge [OF assms(2)] assms(3) by (simp_all add: writer_holds_def)
  let ?t = "s\<lparr>mwriters := (mwriters s)[i := writer_next ?x 1], data_pipe := [wval ?x], put_chars := put_chars s @ [wval ?x]\<rparr>"
  have "mvar_step s ?t" using assms(2,3) z(1) by (intro step_writer [of i]) (simp add: writer_step_def Let_def PIPE_BUFFER_SIZE_def)
  moreover have "reader_holds (mreaders s ! 0) = 0" using rsum_ge [OF assms(4)] z(2) by simp
  then have "prints_more ?t" by (intro data_printed [of _ "wval ?x" "[]" 0]) (use assms(4) in simp_all)
  ultimately show ?thesis by (intro prints_more_later [of s ?t]) auto
qed

lemma token_taken:
  assumes "mvar_inv s" "token_pipe s = t # ts" "0 < length (mwriters s)" "0 < length (mreaders s)"
  shows "prints_more s"
proof -
  have "writer_holds (mwriters s ! 0) = 0" using holder_alone(4) [OF assms(1)] wsum_ge [OF assms(3)] assms(2) by simp
  then obtain x where x: "mvar_steps s (s\<lparr>mwriters := (mwriters s)[0 := x]\<rparr>)" "wpc x = WToken"
    using writer_waits [OF assms(3)] by (cases "wpc (mwriters s ! 0)") (auto simp: writer_holds_def intro: that [of "mwriters s ! 0"])
  let ?s = "s\<lparr>mwriters := (mwriters s)[0 := x]\<rparr>"
  let ?t = "?s\<lparr>mwriters := (mwriters ?s)[0 := writer_next x 1], token_pipe := ts\<rparr>"
  have st: "mvar_step ?s ?t" using x(2) assms(2,3) by (intro step_writer [of 0]) (simp add: writer_step_def Let_def)
  have "mvar_inv ?t" using mvar_steps_keep [OF x(1) assms(1)] mvar_step_keeps [OF st] by blast
  then have "prints_more ?t" by (rule writer_put [of _ 0]) (use assms(3,4) x(2) in \<open>simp_all add: writer_next_def\<close>)
  moreover have "mvar_steps s ?t" using x(1) st by (rule rtranclp.rtrancl_into_rtrancl)
  ultimately show ?thesis by (intro prints_more_later [of s ?t]) auto
qed

lemma always_prints_more:
  assumes "mvar_inv s" "0 < length (mwriters s)" "0 < length (mreaders s)"
  shows "prints_more s"
proof -
  have total: "length (token_pipe s) + length (data_pipe s) + wsum (mwriters s) + rsum (mreaders s) = 1" using assms(1) by (simp add: mvar_inv_def)
  then consider "token_pipe s \<noteq> []" | "data_pipe s \<noteq> []" | "0 < wsum (mwriters s)" | "0 < rsum (mreaders s)" by fastforce
  then show ?thesis
  proof cases
    case 1
    then show ?thesis using token_taken [OF assms(1) _ assms(2,3)] by (cases "token_pipe s") auto
  next
    case 2
    then obtain v vs where "data_pipe s = v # vs" by (cases "data_pipe s") auto
    moreover have "reader_holds (mreaders s ! 0) = 0" using holder_alone(3) [OF assms(1) 2] rsum_ge [OF assms(3)] by simp
    ultimately show ?thesis using data_printed assms(3) by blast
  next
    case 3
    then obtain i where i: "i < length (mwriters s)" "0 < writer_holds (mwriters s ! i)" using nonzero_holder(1) by blast
    show ?thesis
    proof (cases "wpc (mwriters s ! i) = WData")
      case True
      then show ?thesis using writer_put [OF assms(1) i(1) _ assms(3)] by blast
    next
      case False
      then have g: "wpc (mwriters s ! i) = WGiveBack" using i(2) by (cases "wpc (mwriters s ! i)") (auto simp: writer_holds_def)
      have z: "token_pipe s = []" using holder_alone(1) [OF assms(1)] 3 by simp
      let ?t = "s\<lparr>mwriters := (mwriters s)[i := writer_next (mwriters s ! i) 1], token_pipe := [one]\<rparr>"
      have st: "mvar_step s ?t" using i(1) g z by (intro step_writer [of i]) (simp add: writer_step_def Let_def PIPE_BUFFER_SIZE_def)
      then have "prints_more ?t" using mvar_step_keeps [OF st assms(1)] assms(2,3) by (intro token_taken [of _ one "[]"]) auto
      then show ?thesis using st by (intro prints_more_later [of s ?t]) auto
    qed
  next
    case 4
    then obtain j where j: "j < length (mreaders s)" "0 < reader_holds (mreaders s ! j)" using nonzero_holder(2) by blast
    show ?thesis
    proof (cases "rpc (mreaders s ! j)")
      case (RPrint v)
      then show ?thesis using print_now [OF j(1)] by blast
    next
      case RToken
      have z: "token_pipe s = []" using holder_alone(2) [OF assms(1)] 4 by simp
      let ?t = "s\<lparr>mreaders := (mreaders s)[j := reader_next (mreaders s ! j) 1 NUL], token_pipe := [one]\<rparr>"
      have st: "mvar_step s ?t" using j(1) RToken z by (intro step_reader [of j]) (simp add: reader_step_def Let_def PIPE_BUFFER_SIZE_def)
      then have "prints_more ?t" using mvar_step_keeps [OF st assms(1)] assms(2,3) by (intro token_taken [of _ one "[]"]) auto
      then show ?thesis using st by (intro prints_more_later [of s ?t]) auto
    qed (use j(2) in \<open>auto simp: reader_holds_def\<close>)
  qed
qed

section \<open>Properties\<close>

text \<open>C12. One place: in every state that any interleaving of writers and readers can reach, there is exactly
  one token (in the token pipe, or with one process, or as one character in the data pipe), so
  that at most one character is under way, no write to a pipe can block, and the characters
  printed are the characters written, in order, up to the one under way.\<close>

theorem mvar_one_place:
  assumes "fresh ws rs" "mvar_steps (mvar_start ws rs) s"
  shows "length (token_pipe s) + length (data_pipe s) + wsum (mwriters s) + rsum (mreaders s) = 1
     \<and> put_chars s = map snd (printed s) @ in_hand (mreaders s) @ data_pipe s \<and> length (in_hand (mreaders s) @ data_pipe s) \<le> 1
     \<and> (\<forall>i<length (mwriters s). wpc (mwriters s ! i) \<in> {WData, WGiveBack} \<longrightarrow> writer_step i s \<noteq> None)
     \<and> (\<forall>j<length (mreaders s). rpc (mreaders s ! j) = RToken \<longrightarrow> reader_step j s \<noteq> None)"
proof -
  have inv: "mvar_inv s" using mvar_reach [OF assms] by blast
  have hand: "length (in_hand rs) \<le> rsum rs" for rs
    by (induction rs) (auto simp: in_hand_def rsum_def reader_holds_def split: reader_pc.split)
  have "length (in_hand (mreaders s) @ data_pipe s) \<le> 1" using hand [of "mreaders s"] inv by (auto simp: mvar_inv_def simp del: add_is_1)
  moreover have "writer_step i s \<noteq> None" if "i < length (mwriters s)" "wpc (mwriters s ! i) \<in> {WData, WGiveBack}" for i
    using that holder_alone(1) [OF inv] wsum_ge [OF that(1)] by (auto simp: writer_step_def Let_def writer_holds_def PIPE_BUFFER_SIZE_def)
  moreover have "reader_step j s \<noteq> None" if "j < length (mreaders s)" "rpc (mreaders s ! j) = RToken" for j
    using that holder_alone(2) [OF inv] rsum_ge [OF that(1)] by (auto simp: reader_step_def Let_def reader_holds_def PIPE_BUFFER_SIZE_def)
  ultimately show ?thesis using inv unfolding mvar_inv_def by blast
qed

text \<open>C15. The simulation never gets stuck: with at least one writer and one reader, from every reachable state
  some continuation prints another character.\<close>

theorem mvar_always_prints:
  assumes "fresh ws rs" "ws \<noteq> []" "rs \<noteq> []" "mvar_steps (mvar_start ws rs) s"
  shows "\<exists>s' p. mvar_steps s s' \<and> printed s' = printed s @ [p]"
  using mvar_reach [OF assms(1,4)] assms(2,3) by (intro always_prints_more) auto

definition ex_writer :: writer where "ex_writer = \<lparr>wval = CHR ''A'', wseed = 1, wpc = WWait 0\<rparr>"
definition ex_reader :: reader where "ex_reader = \<lparr>rcolor = 0x00FF6B6B, rseed = 10, rpc = RWait 0\<rparr>"

lemma ex_fresh: "fresh [ex_writer] [ex_reader]"
  by (simp add: fresh_def ex_writer_def ex_reader_def writer_holds_def reader_holds_def)

lemma ex_mvar_step: "mvar_steps (mvar_start [ex_writer] [ex_reader]) (mvar_start [ex_writer\<lparr>wpc := WToken\<rparr>] [ex_reader])"
  by (intro r_into_rtranclp step_writer [of 0]) (simp add: writer_step_def mvar_start_def writer_next_def ex_writer_def)

theorem mvar_one_place_witness:
  "length (token_pipe (mvar_start [ex_writer\<lparr>wpc := WToken\<rparr>] [ex_reader])) = 1"
  using mvar_one_place [OF ex_fresh ex_mvar_step] by (simp add: mvar_start_def)

theorem mvar_always_prints_witness:
  "\<exists>s' p. mvar_steps (mvar_start [ex_writer\<lparr>wpc := WToken\<rparr>] [ex_reader]) s' \<and> printed s' = [p]"
  using mvar_always_prints [OF ex_fresh _ _ ex_mvar_step] by (simp add: mvar_start_def)

section \<open>Launching\<close>

lemma satoi_number: "n < 2 ^ 63 \<Longrightarrow> satoi (Some (u64_to_str n)) = int n"
proof -
  assume n: "n < 2 ^ 63"
  define ds where "ds = rev (map digit_char (digits_of 10 n))"
  have dig: "list_all is_digit ds" by (auto simp: ds_def list_all_iff dest: digits_of_less [rotated])
  obtain c cs where c: "ds = c # cs" by (cases ds) (simp_all add: ds_def)
  then have "c \<noteq> CHR ''-''" using dig by (auto simp: is_digit_def)
  moreover have "satoi_loop ds 0 = Some (int n)" using satoi_digits [OF n] by (simp add: ds_def)
  moreover have "int n < 2 ^ 63" using n by (metis of_nat_less_iff of_nat_numeral of_nat_power)
  then have "s64 (int n) = int n" by (intro s64_small) simp_all
  ultimately show ?thesis by (simp add: u64_to_str_eq ds_def [symmetric] c satoi_def)
qed

lemma number_fits: "n < 10 ^ 10 \<Longrightarrow> 10 < sz \<Longrightarrow> in_buffer sz (uint64ToStr n) = Some (u64_to_str n)"
  using digits_10 [of n] by (simp add: uint64ToStr_def uintToBase_eq u64_to_str_eq in_buffer_def)

lemma number_arg_eq:
  assumes "has_memory w" "n < 10 ^ 10" "10 < sz"
  shows "number_arg sz n w = Some (u64_to_str n, tell (Alloc sz) w)"
  using malloc_memory [OF assms(1), of sz] number_fits [OF assms(2,3)] assms(3) by (auto simp: number_arg_def)

text \<open>The arguments and the system call for each process.\<close>

definition writer_args :: "nat \<Rightarrow> nat \<Rightarrow> nat \<Rightarrow> string list" where
  "writer_args dp tp i = [[char_of (65 + i mod 26)], u64_to_str dp, u64_to_str tp, u64_to_str (i + 1)]"

definition reader_args :: "nat \<Rightarrow> nat \<Rightarrow> nat \<Rightarrow> string list" where
  "reader_args dp tp i = [u64_to_str i, u64_to_str dp, u64_to_str tp, u64_to_str (i + 10)]"

definition writer_create :: "nat \<Rightarrow> nat \<Rightarrow> nat \<Rightarrow> call" where
  "writer_create dp tp i = Create (''writer_'' @ [char_of (65 + i mod 26)]) ''mvar_writer_entry'' (Argv (writer_args dp tp i)) 1 0 (-1) 1"

definition reader_create :: "nat \<Rightarrow> nat \<Rightarrow> nat \<Rightarrow> call" where
  "reader_create dp tp i = Create (''reader_'' @ u64_to_str (i + 1)) ''mvar_reader_entry'' (Argv (reader_args dp tp i)) 1 0 (-1) 1"

lemma spawn_writer_ok:
  assumes "has_memory w" "dp < 10 ^ 10" "tp < 10 ^ 10" "i < 100"
  shows "\<exists>w'. spawn_writer i dp tp w = Some w' \<and> reply w' = reply w \<and> acts w' = acts w @ [writer_create dp tp i]"
proof -
  have hm: "has_memory (tell c v) = has_memory v" for c v by (simp add: has_memory_def)
  obtain p q where p: "malloc_world 40 w = Some (p, tell (Alloc 40) w)" "p \<noteq> 0"
    "malloc_world 2 (tell (Alloc 40) w) = Some (q, tell (Alloc 2) (tell (Alloc 40) w))" "q \<noteq> 0"
    using malloc_memory [OF assms(1), of 40] malloc_memory [of "tell (Alloc 40) w" 2] assms(1) by (auto simp: hm)
  show ?thesis using p assms
    by (simp add: spawn_writer_def number_arg_eq hm Let_def writer_create_def writer_args_def is_act_def del: u64_to_str_def)
qed

lemma spawn_reader_ok:
  assumes "has_memory w" "dp < 10 ^ 10" "tp < 10 ^ 10" "i < 100"
  shows "\<exists>w'. spawn_reader i dp tp w = Some w' \<and> reply w' = reply w \<and> acts w' = acts w @ [reader_create dp tp i]"
proof -
  have hm: "has_memory (tell c v) = has_memory v" for c v by (simp add: has_memory_def)
  obtain p where p: "malloc_world 40 w = Some (p, tell (Alloc 40) w)" "p \<noteq> 0"
    using malloc_memory [OF assms(1), of 40] by auto
  show ?thesis using p assms number_fits [of "i + 1" 25]
    by (simp add: spawn_reader_def number_arg_eq hm Let_def reader_create_def reader_args_def is_act_def)
qed

lemma spawn_from_ok:
  assumes "\<And>i w. has_memory w \<Longrightarrow> i < 100 \<Longrightarrow> \<exists>w'. f i w = Some w' \<and> reply w' = reply w \<and> acts w' = acts w @ [g i]"
    "has_memory w" "i + n \<le> 100"
  shows "\<exists>w'. spawn_from f i n w = Some w' \<and> reply w' = reply w \<and> acts w' = acts w @ map g [i..<i + n]"
  using assms(2,3)
proof (induction n arbitrary: i w)
  case (Suc n)
  obtain w1 where 1: "f i w = Some w1" "reply w1 = reply w" "acts w1 = acts w @ [g i]" using assms(1) [of w i] Suc(2,3) by auto
  obtain w2 where "spawn_from f (i + 1) n w1 = Some w2" "reply w2 = reply w1" "acts w2 = acts w1 @ map g [i + 1..<i + 1 + n]"
    using Suc(1) [of w1 "i + 1"] Suc(2,3) 1(2) by (auto simp: has_memory_def)
  then show ?case using 1 by (simp add: upt_conv_Cons del: upt_Suc)
qed simp

text \<open>\<^verbatim>\<open>mvar\<close> launches what the simulation assumes: for admissible numbers it opens two pipes, puts one token
  into the second and creates exactly the given numbers of writers and readers; every process
  parses, from the texts it gets, its own letter or color, its seed and the two pipes, and starts
  before its first call.\<close>

theorem mvar_launches:
  assumes "has_memory w" "0 < nw" "nw \<le> 26" "0 < nr" "nr \<le> 7" "dp < 2 ^ 31" "3 \<le> tp" "tp < 2 ^ 31"
    "\<forall>ts. ret (reply w ts Open_pipe) = (if Open_pipe \<in> fst ` set ts then int tp else int dp)" "Open_pipe \<notin> set (calls w)"
  shows "(\<exists>w'. mvar [u64_to_str nw, u64_to_str nr] w = Some (0, w')
       \<and> acts w' = acts w @ [Open_pipe, Open_pipe, Write tp [one]] @ map (writer_create dp tp) [0..<nw] @ map (reader_create dp tp) [0..<nr])
     \<and> (\<forall>i<nw. mvar_writer_entry (writer_args dp tp i)
          = Some (\<lparr>wval = char_of (65 + i), wseed = i + 1, wpc = WWait (active_wait_random (i + 1))\<rparr>, int dp, int tp))
     \<and> (\<forall>i<nr. mvar_reader_entry (reader_args dp tp i)
          = Some (\<lparr>rcolor = reader_colors ! i, rseed = i + 10, rpc = RWait (active_wait_random (i + 17))\<rparr>, int dp, int tp))"
proof (intro conjI)
  have small: "satoi (Some (u64_to_str n)) = int n" "s32 (int n) = int n" "to_u64 (int n) = n" if "n < 2 ^ 31" for n
    using that by (simp_all add: satoi_number s32_small to_u64_nonneg)
  show "\<forall>i<nw. mvar_writer_entry (writer_args dp tp i)
      = Some (\<lparr>wval = char_of (65 + i), wseed = i + 1, wpc = WWait (active_wait_random (i + 1))\<rparr>, int dp, int tp)"
    using assms(3,6,8) small [of dp] small [of tp] small [of "_ + 1"] by (auto simp: mvar_writer_entry_def writer_args_def Let_def)
  show "\<forall>i<nr. mvar_reader_entry (reader_args dp tp i)
      = Some (\<lparr>rcolor = reader_colors ! i, rseed = i + 10, rpc = RWait (active_wait_random (i + 17))\<rparr>, int dp, int tp)"
    using assms(5,6,8) small [of dp] small [of tp] small [of "_ + 10"] small
    by (auto simp: mvar_reader_entry_def reader_args_def Let_def MAX_READER_COLORS_def u64_small add.commute)
  show "\<exists>w'. mvar [u64_to_str nw, u64_to_str nr] w = Some (0, w')
       \<and> acts w' = acts w @ [Open_pipe, Open_pipe, Write tp [one]] @ map (writer_create dp tp) [0..<nw] @ map (reader_create dp tp) [0..<nr]"
  proof -
    let ?w1 = "tell Open_pipe w" and ?v = "tell (Write tp [one]) (tell Open_pipe (tell Open_pipe w))"
    have nums: "s32 (satoi (Some (u64_to_str nw))) = int nw" "s32 (satoi (Some (u64_to_str nr))) = int nr" using small assms(3,5) by simp_all
    have pipes: "s32 (ret (reply w (trace w) Open_pipe)) = int dp" "s32 (ret (reply ?w1 (trace ?w1) Open_pipe)) = int tp"
      using assms(6,8-10) small(2) by (simp_all add: image_image)
    let ?warn = "''Warning: no se pudo inicializar token pipe.'' @ [CHR 0x0A]"
    define u where "u = (if to_u64 (ret (reply w (trace (tell Open_pipe ?w1)) (Write tp [one]))) \<le> 0 then tell (Write 1 ?warn) ?v else ?v)"
    have u: "reply u = reply w" "acts u = acts w @ [Open_pipe, Open_pipe, Write tp [one]]" using assms(7) by (auto simp: u_def is_act_def)
    have big: "dp < 10 ^ 10" "tp < 10 ^ 10" using assms(6,8) by simp_all
    obtain w2 where 2: "spawn_from (\<lambda>i. spawn_writer i dp tp) 0 nw u = Some w2" "reply w2 = reply u" "acts w2 = acts u @ map (writer_create dp tp) [0..<nw]"
      using spawn_from_ok [of "\<lambda>i. spawn_writer i dp tp" "writer_create dp tp" u 0 nw] spawn_writer_ok [OF _ big] assms(1,3) u(1)
      by (auto simp: has_memory_def)
    obtain w3 where 3: "spawn_from (\<lambda>i. spawn_reader i dp tp) 0 nr w2 = Some w3" "reply w3 = reply w2" "acts w3 = acts w2 @ map (reader_create dp tp) [0..<nr]"
      using spawn_from_ok [of "\<lambda>i. spawn_reader i dp tp" "reader_create dp tp" w2 0 nr] spawn_reader_ok [OF _ big] assms(1,5) u(1) 2(2)
      by (auto simp: has_memory_def)
    have "mvar [u64_to_str nw, u64_to_str nr] w = Option.bind
        (print_world (''MVar: %d escritores creados, %d lectores creados.'' @ [CHR 0x0A]) [AInt (int nw), AInt (int nr)] w3)
        (\<lambda>w. Option.bind (print_world (''Usa '' @ [CHR 0x27] @ ''ps'' @ [CHR 0x27] @ '' para ver PIDs y controlar los procesos con kill/nice'' @ [CHR 0x0A]) [] w) (\<lambda>w. Some (0, w)))"
      using 2(1) 3(1) pipes nums assms(2-5)
      by (simp add: mvar_def ask_eq Let_def u_def MAX_READER_COLORS_def print_plain split: if_splits)
    moreover obtain s where "print_world (''MVar: %d escritores creados, %d lectores creados.'' @ [CHR 0x0A]) [AInt (int nw), AInt (int nr)] w3 = Some (tell (Write 1 s) w3)"
      using print_some(1) [of "''MVar: %d escritores creados, %d lectores creados.'' @ [CHR 0x0A]" "[AInt (int nw), AInt (int nr)]" w3] assms(3,5) by auto
    ultimately show ?thesis using u 2(3) 3(3) by (simp add: print_plain is_act_def)
  qed
qed

theorem mvar_launches_witness:
  "\<exists>w'. mvar [u64_to_str 2, u64_to_str 1]
       \<lparr>reply = (\<lambda>ts c. \<lparr>ret = if c = Open_pipe then if Open_pipe \<in> fst ` set ts then 5 else 4 else 4096, outs = [], table = []\<rparr>), input = [], trace = []\<rparr>
       = Some (0, w')
     \<and> acts w' = [Open_pipe, Open_pipe, Write 5 [one], writer_create 4 5 0, writer_create 4 5 1, reader_create 4 5 0]"
proof -
  let ?w = "\<lparr>reply = (\<lambda>ts c. \<lparr>ret = if c = Open_pipe then if Open_pipe \<in> fst ` set ts then 5 else 4 else 4096, outs = [], table = []\<rparr>),
     input = [], trace = []\<rparr> :: world"
  have "has_memory ?w" by (simp add: has_memory_def to_u64_def)
  moreover have "[0..<2] = [0, 1::nat]" "[0..<1] = [0::nat]" by (simp_all add: upt_rec)
  ultimately show ?thesis using mvar_launches [of ?w 2 1 4 5] by simp
qed

end
