(* ===== verification/Test_Util.thy ===== *)
theory Test_Util
  imports User_Stdlib
begin

text \<open>
  The functions the test programs share, \<^verbatim>\<open>Userland/SampleCodeModule/tests/test_util.c\<close>.  The
  floating-point expression of \<^verbatim>\<open>GetUniform\<close> depends on the floating-point unit; it is the argument
  \<open>scale\<close>, of which only the range is used.
\<close>

section \<open>The functions\<close>

record rng =
  m_z :: nat
  m_w :: nat

definition rng_start :: rng where "rng_start = \<lparr>m_z = 362436069, m_w = 521288629\<rparr>"

definition GetUint :: "rng \<Rightarrow> nat \<times> rng" where
  "GetUint g = (let z = u32 (36969 * (m_z g AND 65535) + drop_bit 16 (m_z g)); w = u32 (18000 * (m_w g AND 65535) + drop_bit 16 (m_w g))
     in (u32 (push_bit 16 z + w), \<lparr>m_z = z, m_w = w\<rparr>))"

definition GetUniform :: "(nat \<Rightarrow> nat \<Rightarrow> nat) \<Rightarrow> nat \<Rightarrow> rng \<Rightarrow> nat \<times> rng" where
  "GetUniform scale lim g = (let (u, g) = GetUint g in (scale u lim, g))"

definition scale_range :: "(nat \<Rightarrow> nat \<Rightarrow> nat) \<Rightarrow> bool" where
  "scale_range scale \<longleftrightarrow> (\<forall>u < 2 ^ 32. scale u 0 = 0 \<and> (\<forall>lim > 0. scale u lim < lim))"

text \<open>The expression in exact arithmetic; the constant is the double 9007199250546688 / 2 ^ 85.\<close>

definition exact_scale :: "nat \<Rightarrow> nat \<Rightarrow> nat" where
  "exact_scale u lim = (u + 1) * 9007199250546688 * lim div 2 ^ 85"

fun memcheck :: "mem \<Rightarrow> addr \<Rightarrow> char \<Rightarrow> nat \<Rightarrow> bool" where
  "memcheck m p value 0 = True"
| "memcheck m p value (Suc n) = (if m p \<noteq> value then False else memcheck m (p + 1) value n)"

fun my_memset_loop :: "mem \<Rightarrow> addr \<Rightarrow> char \<Rightarrow> nat \<Rightarrow> mem" where
  "my_memset_loop m p c 0 = m"
| "my_memset_loop m p c (Suc n) = my_memset_loop (m(p := c)) (p + 1) c n"

text \<open>The counter is an \<^verbatim>\<open>int\<close>, which overflows on areas of \<open>2 ^ 31\<close> bytes.\<close>

definition my_memset :: "mem \<Rightarrow> addr \<Rightarrow> int \<Rightarrow> nat \<Rightarrow> (addr \<times> mem) option" where
  "my_memset m final v c = (if c < 2 ^ 31 then Some (final, my_memset_loop m final (char_of v) c) else None)"

section \<open>Their results\<close>

lemma my_memset_loop_put: "my_memset_loop m p c n = put m p (replicate n c)"
  by (induction n arbitrary: m p) (simp_all add: put_Cons)

lemma memcheck_iff: "memcheck m p v n \<longleftrightarrow> (\<forall>i < n. m (p + i) = v)"
proof (induction n arbitrary: p)
  case (Suc n)
  then show ?case by (auto simp: All_less_Suc2)
qed simp

lemma GetUint_less: "GetUint g = (u, g') \<Longrightarrow> u < 2 ^ 32"
  by (auto simp: GetUint_def Let_def u32_def)

lemma exact_scale_range: "scale_range exact_scale"
proof -
  have "exact_scale u lim < lim" if "u < 2 ^ 32" "0 < lim" for u lim
  proof -
    have "(u + 1) * 9007199250546688 < (2::nat) ^ 85" using that(1) by simp
    then have "(u + 1) * 9007199250546688 * lim < 2 ^ 85 * lim" using that(2) by simp
    then show ?thesis by (simp add: exact_scale_def less_mult_imp_div_less mult.commute)
  qed
  then show ?thesis by (simp add: scale_range_def exact_scale_def)
qed

end
