(* ===== verification/Test_MM.thy ===== *)
theory Test_MM
  imports Bitmap_MM Buddy_MM Test_Util
begin

text \<open>
  The test of the memory manager, \<^verbatim>\<open>Userland/SampleCodeModule/tests/test_mm.c\<close>.

  The state is the linked memory manager, the bytes of the memory, the random
  number generator and the messages written to the standard error.  Results are \<open>None\<close> for a fault.
\<close>

section \<open>test_mm.c\<close>

definition MAX_BLOCKS :: nat where "MAX_BLOCKS = 128"

record mm_rq =
  address :: addr
  rq_size :: nat

record 'm mm_test =
  manager :: 'm
  bytes :: mem
  rand :: rng
  messages :: "(nat \<times> string) option list"

definition test_malloc :: "'m mm_ops \<Rightarrow> nat \<Rightarrow> 'm mm_test \<Rightarrow> (addr \<times> 'm mm_test) option" where
  "test_malloc ops sz s = (if sz = 0 then Some (0, s) else do {
     r \<leftarrow> mm_alloc ops (manager s) sz;
     let (p, msgs, m) = malloc (\<lambda>_ _. r) (manager s) sz in
     Some (p, s\<lparr>manager := m, messages := messages s @ msgs\<rparr>) })"

text \<open>The requests, as many as \<open>fuel\<close> allows; the flag tells whether the loop has ended.\<close>

fun request_blocks :: "'m mm_ops \<Rightarrow> (nat \<Rightarrow> nat \<Rightarrow> nat) \<Rightarrow> nat \<Rightarrow> nat \<Rightarrow> nat \<Rightarrow> mm_rq list \<Rightarrow> 'm mm_test \<Rightarrow> (bool \<times> mm_rq list \<times> 'm mm_test) option" where
  "request_blocks ops scale 0 lim tot rqs s = Some (False, rqs, s)"
| "request_blocks ops scale (Suc fuel) lim tot rqs s = (if length rqs < MAX_BLOCKS \<and> tot < lim then
     let (r, g) = GetUniform scale (u32 (lim - tot - 1)) (rand s); sz = u32 (r + 1) in do {
       (p, s) \<leftarrow> test_malloc ops sz (s\<lparr>rand := g\<rparr>);
       if p \<noteq> 0 then request_blocks ops scale fuel lim (u32 (tot + sz)) (rqs @ [\<lparr>address = p, rq_size = sz\<rparr>]) s
       else request_blocks ops scale fuel lim tot rqs s }
     else Some (True, rqs, s))"

fun set_blocks :: "nat \<Rightarrow> mm_rq list \<Rightarrow> mem \<Rightarrow> mem option" where
  "set_blocks i [] m = Some m"
| "set_blocks i (q # qs) m = do {
     m \<leftarrow> (if address q \<noteq> 0 then map_option snd (my_memset m (address q) (int i) (rq_size q)) else Some m);
     set_blocks (i + 1) qs m }"

fun check_blocks :: "nat \<Rightarrow> mm_rq list \<Rightarrow> mem \<Rightarrow> (nat \<times> string) option list" where
  "check_blocks i [] m = []"
| "check_blocks i (q # qs) m = (if address q \<noteq> 0 \<and> \<not> memcheck m (address q) (char_of i) (rq_size q)
     then [printferror (CHR 0x0A # ''test_mm ERROR'' @ [CHR 0x0A]) []] else []) @ check_blocks (i + 1) qs m"

fun release_blocks :: "'m mm_ops \<Rightarrow> mm_rq list \<Rightarrow> 'm \<Rightarrow> 'm option" where
  "release_blocks ops [] m = Some m"
| "release_blocks ops (q # qs) m = Option.bind (if address q \<noteq> 0 then mm_free ops m (address q) else Some m) (release_blocks ops qs)"

definition use_blocks :: "'m mm_ops \<Rightarrow> mm_rq list \<Rightarrow> 'm mm_test \<Rightarrow> 'm mm_test option" where
  "use_blocks ops rqs s = do {
     b \<leftarrow> set_blocks 0 rqs (bytes s);
     let msgs = check_blocks 0 rqs b;
     m \<leftarrow> release_blocks ops rqs (manager s);
     Some (s\<lparr>manager := m, bytes := b, messages := messages s @ msgs\<rparr>) }"

definition mm_round :: "'m mm_ops \<Rightarrow> (nat \<Rightarrow> nat \<Rightarrow> nat) \<Rightarrow> nat \<Rightarrow> nat \<Rightarrow> 'm mm_test \<Rightarrow> (bool \<times> 'm mm_test) option" where
  "mm_round ops scale fuel lim s = do {
     (ended, rqs, s) \<leftarrow> request_blocks ops scale fuel lim 0 [] s;
     if ended then map_option (Pair True) (use_blocks ops rqs s) else Some (False, s) }"

fun mm_rounds :: "'m mm_ops \<Rightarrow> (nat \<Rightarrow> nat \<Rightarrow> nat) \<Rightarrow> nat \<Rightarrow> nat \<Rightarrow> nat \<Rightarrow> 'm mm_test \<Rightarrow> (bool \<times> 'm mm_test) option" where
  "mm_rounds ops scale fuel lim 0 s = Some (True, s)"
| "mm_rounds ops scale fuel lim (Suc n) s = do {
     (ended, s) \<leftarrow> mm_round ops scale fuel lim s;
     if ended then mm_rounds ops scale fuel lim n s else Some (False, s) }"

text \<open>The program never returns on a good argument; \<open>turns\<close> counts how often its outer loop of three rounds goes round.\<close>

definition test_mm :: "'m mm_ops \<Rightarrow> (nat \<Rightarrow> nat \<Rightarrow> nat) \<Rightarrow> nat \<Rightarrow> nat \<Rightarrow> string list \<Rightarrow> 'm mm_test \<Rightarrow> ((int + bool) \<times> 'm mm_test) option" where
  "test_mm ops scale fuel turns argv s = (if length argv \<noteq> 1
     then Some (Inl (-1), s\<lparr>messages := messages s @ [printferror (''test_mm: error, se esperaba un argumento (max_memory)'' @ [CHR 0x0A]) []]\<rparr>)
     else let lim = to_u64 (satoi (Some (argv ! 0))) in if lim \<le> 0
     then Some (Inl (-1), s\<lparr>messages := messages s @ [printferror (CHR 0x0A # ''test_mm: error, max_memory debe ser un numero positivo'' @ [CHR 0x0A]) []]\<rparr>)
     else map_option (\<lambda>(ended, s). (Inr ended, s)) (mm_rounds ops scale fuel lim (3 * turns) s))"

section \<open>The requests\<close>

text \<open>The size of a request lies between 1 and what is left.\<close>

lemma request_size:
  assumes "scale_range scale" "GetUniform scale (u32 (lim - tot - 1)) g = (r, g')" "tot < lim" "lim < 2 ^ 31"
  shows "0 < u32 (r + 1)" "tot + u32 (r + 1) \<le> lim" "u32 (r + 1) < 2 ^ 31"
proof -
  obtain u where u: "u < 2 ^ 32" "r = scale u (u32 (lim - tot - 1))"
    using assms(2) GetUint_less by (auto simp: GetUniform_def split: prod.splits)
  have x: "u32 (lim - tot - 1) = lim - tot - 1" using assms(4) by (simp add: u32_def)
  have "scale u 0 = 0" "0 < lim - tot - 1 \<longrightarrow> scale u (lim - tot - 1) < lim - tot - 1"
    using u(1) assms(1) by (simp_all add: scale_range_def)
  then have "r < lim - tot" using assms(3) u(2) x by (cases "lim - tot - 1 = 0") simp_all
  then show "0 < u32 (r + 1)" "tot + u32 (r + 1) \<le> lim" "u32 (r + 1) < 2 ^ 31" using assms(4) by (simp_all add: u32_def)
qed

section \<open>A round\<close>

text \<open>The live allocations \<open>L'\<close> are \<open>L\<close> and the blocks of the table, each at least as large as requested.\<close>

definition holds :: "(addr \<rightharpoonup> nat) \<Rightarrow> (addr \<rightharpoonup> nat) \<Rightarrow> mm_rq list \<Rightarrow> bool" where
  "holds L L' rqs \<longleftrightarrow> distinct (map address rqs) \<and> (\<forall>q \<in> set rqs. address q \<noteq> 0 \<and> L (address q) = None \<and> rq_size q < 2 ^ 31 \<and>
     (\<exists>k \<ge> rq_size q. L' (address q) = Some k)) \<and> (\<forall>p. p \<notin> address ` set rqs \<longrightarrow> L' p = L p)"

lemma holds_Nil: "holds L L' [] \<longleftrightarrow> L' = L"
  by (auto simp: holds_def)

lemma holds_snoc:
  assumes "holds L L' rqs" "L' p = None" "p \<noteq> 0" "n \<le> k" "n < 2 ^ 31"
  shows "holds L (L'(p \<mapsto> k)) (rqs @ [\<lparr>address = p, rq_size = n\<rparr>])"
proof -
  have p: "p \<notin> address ` set rqs" using assms(1,2) by (auto simp: holds_def)
  then have "L p = None" using assms(1,2) by (auto simp: holds_def)
  then show ?thesis using assms p by (auto simp: holds_def)
qed

lemma holds_Cons:
  assumes "holds L L' (q # qs)"
  shows "holds L (L'(address q := None)) qs"
proof -
  have "address q \<notin> address ` set qs" "L (address q) = None" using assms by (auto simp: holds_def)
  then show ?thesis using assms by (auto simp: holds_def image_iff)
qed

definition apart :: "mm_rq \<Rightarrow> mm_rq \<Rightarrow> bool" where
  "apart p q \<longleftrightarrow> address p + rq_size p \<le> address q \<or> address q + rq_size q \<le> address p"

lemma set_blocks_ok:
  assumes "\<forall>q \<in> set qs. address q \<noteq> 0 \<and> rq_size q < 2 ^ 31" "pairwise apart (set qs)" "distinct qs"
  shows "\<exists>b. set_blocks i qs m = Some b \<and> check_blocks i qs b = [] \<and>
    (\<forall>x. (\<forall>q \<in> set qs. x < address q \<or> address q + rq_size q \<le> x) \<longrightarrow> b x = m x)"
  using assms
proof (induction qs arbitrary: i m)
  case (Cons q qs)
  let ?m = "put m (address q) (replicate (rq_size q) (char_of (int i)))"
  obtain b where b: "set_blocks (i + 1) qs ?m = Some b" "check_blocks (i + 1) qs b = []"
    "\<And>x. \<forall>q \<in> set qs. x < address q \<or> address q + rq_size q \<le> x \<Longrightarrow> b x = ?m x"
    using Cons.IH [of "i + 1" ?m] Cons.prems by (auto simp: pairwise_insert)
  have q: "b (address q + x) = char_of i" if "x < rq_size q" for x
  proof -
    have "\<forall>p \<in> set qs. address q + x < address p \<or> address p + rq_size p \<le> address q + x"
    proof
      fix p assume "p \<in> set qs"
      then have "apart q p" using Cons.prems(2,3) by (auto simp: pairwise_def)
      then show "address q + x < address p \<or> address p + rq_size p \<le> address q + x" using that by (auto simp: apart_def)
    qed
    then show ?thesis using b(3) that by (simp add: put_replicate)
  qed
  have "set_blocks i (q # qs) m = Some b" using b(1) Cons.prems(1) by (simp add: my_memset_def my_memset_loop_put)
  moreover have "check_blocks i (q # qs) b = []" using b(2) q by (simp add: memcheck_iff)
  moreover have "b x = m x" if "\<forall>q \<in> set (q # qs). x < address q \<or> address q + rq_size q \<le> x" for x
    using b(3) that by (auto simp: put_replicate)
  ultimately show ?case by blast
qed simp

text \<open>What \<^verbatim>\<open>malloc\<close> prints when the kernel has no memory for it.\<close>

definition no_memory :: "nat \<Rightarrow> (nat \<times> string) option list" where
  "no_memory n = fst (snd (malloc (\<lambda>_ _. (0, ())) () n))"

lemma test_malloc_eq:
  assumes "mm_alloc ops (manager s) n = Some (p, m)" "0 < n"
  shows "test_malloc ops n s = Some (p, s\<lparr>manager := m, messages := messages s @ (if p = 0 then no_memory n else [])\<rparr>)"
  using assms by (simp add: test_malloc_def malloc_def no_memory_def)

context allocator begin

lemma request_blocks_ok:
  assumes "rep (manager s) L'" "holds L L' rqs" "scale_range scale" "lim < 2 ^ 31" "tot \<le> lim" "length rqs \<le> MAX_BLOCKS"
  shows "\<exists>e rqs' s' L'' ns. request_blocks ops scale fuel lim tot rqs s = Some (e, rqs', s') \<and> rep (manager s') L'' \<and> holds L L'' rqs' \<and>
    bytes s' = bytes s \<and> length rqs' \<le> MAX_BLOCKS \<and>
    messages s' = messages s @ concat (map no_memory ns) \<and> (\<not> e \<longrightarrow> fuel + length rqs \<le> length ns + length rqs')"
  using assms
proof (induction fuel arbitrary: tot rqs s L')
  case (Suc fuel)
  show ?case
  proof (cases "length rqs < MAX_BLOCKS \<and> tot < lim")
    case True
    obtain r g where r: "GetUniform scale (u32 (lim - tot - 1)) (rand s) = (r, g)" by (metis surj_pair)
    let ?n = "u32 (r + 1)"
    note n = request_size [OF assms(3) r conjunct2 [OF True] assms(4)]
    have tot: "u32 (tot + ?n) = tot + ?n" using n(2) True assms(4) by (simp add: u32_def)
    have n32: "?n < 2 ^ 32" using n(3) True by simp
    show ?thesis using Suc.prems(1) n(1) n32
    proof (cases rule: alloc_cases)
      case oom
      let ?s = "s\<lparr>rand := g, messages := messages s @ no_memory ?n\<rparr>"
      have m: "test_malloc ops ?n (s\<lparr>rand := g\<rparr>) = Some (0, ?s)"
        using test_malloc_eq [of ops "s\<lparr>rand := g\<rparr>" ?n 0 "manager s"] n(1) oom by simp
      have rep: "rep (manager ?s) L'" using Suc.prems(1) by simp
      obtain e rqs' s' L'' ns where R: "request_blocks ops scale fuel lim tot rqs ?s = Some (e, rqs', s')" "rep (manager s') L''"
        "holds L L'' rqs'" "bytes s' = bytes ?s" "length rqs' \<le> MAX_BLOCKS" "messages s' = messages ?s @ concat (map no_memory ns)"
        "\<not> e \<longrightarrow> fuel + length rqs \<le> length ns + length rqs'"
        using Suc.IH [of ?s L' rqs tot, OF rep Suc.prems(2-6)] by blast
      have K: "messages s' = messages s @ concat (map no_memory (?n # ns))" "bytes s' = bytes s" using R(4,6) by simp_all
      have "request_blocks ops scale (Suc fuel) lim tot rqs s = Some (e, rqs', s')" using True r m R(1) by simp
      moreover have "\<not> e \<longrightarrow> Suc fuel + length rqs \<le> length (?n # ns) + length rqs'" using R(7) by simp
      ultimately show ?thesis using R(2,3,5) K by blast
    next
      case (fresh p m' k)
      have m: "test_malloc ops ?n (s\<lparr>rand := g\<rparr>) = Some (p, s\<lparr>manager := m', rand := g\<rparr>)"
        using test_malloc_eq [of ops "s\<lparr>rand := g\<rparr>" ?n p m'] n(1) True fresh by auto
      have H: "holds L (L'(p \<mapsto> k)) (rqs @ [\<lparr>address = p, rq_size = ?n\<rparr>])"
        using holds_snoc [OF Suc.prems(2) fresh(3,2,4)] n(3) True by simp
      have P: "rep (manager (s\<lparr>manager := m', rand := g\<rparr>)) (L'(p \<mapsto> k))" using fresh(5) by simp
      have len: "length (rqs @ [\<lparr>address = p, rq_size = ?n\<rparr>]) \<le> MAX_BLOCKS" using True by simp
      have IH: "\<exists>e rqs' s' L'' ns. request_blocks ops scale fuel lim (tot + ?n) (rqs @ [\<lparr>address = p, rq_size = ?n\<rparr>])
          (s\<lparr>manager := m', rand := g\<rparr>) = Some (e, rqs', s') \<and> rep (manager s') L'' \<and> holds L L'' rqs' \<and> bytes s' = bytes s \<and>
          length rqs' \<le> MAX_BLOCKS \<and> messages s' = messages s @ concat (map no_memory ns) \<and>
          (\<not> e \<longrightarrow> Suc fuel + length rqs \<le> length ns + length rqs')"
        using Suc.IH [OF P H assms(3,4) n(2) len] by simp
      have e: "request_blocks ops scale (Suc fuel) lim tot rqs s = request_blocks ops scale fuel lim (tot + ?n)
        (rqs @ [\<lparr>address = p, rq_size = ?n\<rparr>]) (s\<lparr>manager := m', rand := g\<rparr>)"
        using True r m tot fresh(2) by (simp add: Let_def)
      show ?thesis unfolding e by (rule IH)
    qed
  next
    case False
    then show ?thesis by (intro exI [of _ True] exI [of _ rqs] exI [of _ s] exI [of _ L'] exI [of _ "[] :: nat list"]) (use Suc.prems in auto)
  qed
next
  case 0
  then show ?case by (intro exI [of _ False] exI [of _ rqs] exI [of _ s] exI [of _ L'] exI [of _ "[] :: nat list"]) simp
qed

lemma holds_apart:
  assumes "rep m L'" "holds L L' rqs"
  shows "pairwise apart (set rqs)" "L p = Some k \<Longrightarrow> q \<in> set rqs \<Longrightarrow> p + k \<le> address q \<or> address q + rq_size q \<le> p"
proof -
  show "pairwise apart (set rqs)"
  proof (rule pairwiseI)
    fix a b assume ab: "a \<in> set rqs" "b \<in> set rqs" "a \<noteq> b"
    then have "address a \<noteq> address b" using assms(2) by (auto simp: holds_def distinct_map inj_on_def)
    moreover obtain i j where "L' (address a) = Some i" "rq_size a \<le> i" "L' (address b) = Some j" "rq_size b \<le> j"
      using assms(2) ab unfolding holds_def by meson
    ultimately show "apart a b" using live_disjoint [OF assms(1), of "address a" i "address b" j] by (auto simp: apart_def)
  qed
  assume p: "L p = Some k" "q \<in> set rqs"
  obtain j where j: "L' (address q) = Some j" "rq_size q \<le> j" "L (address q) = None" using assms(2) p(2) unfolding holds_def by meson
  have "p \<notin> address ` set rqs" using assms(2) p(1) by (auto simp: holds_def)
  then have "L' p = Some k" using assms(2) p(1) by (simp add: holds_def)
  then show "p + k \<le> address q \<or> address q + rq_size q \<le> p"
    using live_disjoint [OF assms(1) _ j(1), of p k] j p(1) by fastforce
qed

lemma release_blocks_ok:
  "rep m L' \<Longrightarrow> holds L L' rqs \<Longrightarrow> \<exists>m'. release_blocks ops rqs m = Some m' \<and> rep m' L"
proof (induction rqs arbitrary: m L')
  case (Cons q qs)
  then obtain k where k: "L' (address q) = Some k" "address q \<noteq> 0" by (auto simp: holds_def)
  from free_law [OF Cons.prems(1) k(1)] obtain m' where "mm_free ops m (address q) = Some m'" "rep m' (L'(address q := None))" by blast
  with Cons.IH [OF this(2) holds_Cons [OF Cons.prems(2)]] k(2) show ?case by simp
qed (simp add: holds_Nil)

text \<open>The bytes of the allocations that are not the test's.\<close>

lemma use_blocks_ok:
  assumes "rep (manager s) L'" "holds L L' rqs"
  shows "\<exists>s'. use_blocks ops rqs s = Some s' \<and> rep (manager s') L \<and> messages s' = messages s \<and>
    (\<forall>p k x. L p = Some k \<longrightarrow> x < k \<longrightarrow> bytes s' (p + x) = bytes s (p + x))"
proof -
  have d: "distinct rqs" using assms(2) by (auto simp: holds_def distinct_map)
  obtain b where b: "set_blocks 0 rqs (bytes s) = Some b" "check_blocks 0 rqs b = []"
    "\<And>x. \<forall>q \<in> set rqs. x < address q \<or> address q + rq_size q \<le> x \<Longrightarrow> b x = bytes s x"
    using set_blocks_ok [OF _ holds_apart(1) [OF assms] d, of 0 "bytes s"] assms(2) by (auto simp: holds_def)
  obtain m where m: "release_blocks ops rqs (manager s) = Some m" "rep m L" using release_blocks_ok [OF assms] by blast
  have "b (p + x) = bytes s (p + x)" if "L p = Some k" "x < k" for p k x
  proof (rule b(3), rule ballI)
    fix q assume "q \<in> set rqs"
    then show "p + x < address q \<or> address q + rq_size q \<le> p + x" using holds_apart(2) [OF assms that(1)] that(2) by fastforce
  qed
  then show ?thesis using b(1,2) m by (simp add: use_blocks_def)
qed

lemma mm_round_ok:
  assumes "rep (manager s) L" "scale_range scale" "lim < 2 ^ 31"
  shows "\<exists>e s' ns. mm_round ops scale fuel lim s = Some (e, s') \<and> messages s' = messages s @ concat (map no_memory ns) \<and>
    (e \<longrightarrow> rep (manager s') L) \<and> (\<not> e \<longrightarrow> fuel \<le> length ns + MAX_BLOCKS) \<and>
    (\<forall>p k x. L p = Some k \<longrightarrow> x < k \<longrightarrow> bytes s' (p + x) = bytes s (p + x))"
proof -
  obtain e rqs s1 L1 ns where R: "request_blocks ops scale fuel lim 0 [] s = Some (e, rqs, s1)" "rep (manager s1) L1" "holds L L1 rqs"
    "bytes s1 = bytes s" "length rqs \<le> MAX_BLOCKS" "messages s1 = messages s @ concat (map no_memory ns)"
    "\<not> e \<longrightarrow> fuel + 0 \<le> length ns + length rqs"
    using request_blocks_ok [OF assms(1) iffD2 [OF holds_Nil refl] assms(2,3) le0, of fuel] unfolding list.size(3) by blast
  show ?thesis
  proof (cases e)
    case True
    then show ?thesis using R(1,4,6) use_blocks_ok [OF R(2,3)] by (fastforce simp: mm_round_def)
  next
    case False
    then show ?thesis using R(1,4-7) by (fastforce simp: mm_round_def)
  qed
qed

lemma mm_rounds_ok:
  assumes "rep (manager s) L" "scale_range scale" "lim < 2 ^ 31"
  shows "\<exists>e s' ns. mm_rounds ops scale fuel lim n s = Some (e, s') \<and> messages s' = messages s @ concat (map no_memory ns) \<and>
    (e \<longrightarrow> rep (manager s') L) \<and> (\<not> e \<longrightarrow> fuel \<le> length ns + MAX_BLOCKS) \<and>
    (\<forall>p k x. L p = Some k \<longrightarrow> x < k \<longrightarrow> bytes s' (p + x) = bytes s (p + x))"
  using assms(1)
proof (induction n arbitrary: s)
  case (Suc n)
  obtain e s1 ns where R: "mm_round ops scale fuel lim s = Some (e, s1)" "messages s1 = messages s @ concat (map no_memory ns)"
    "e \<longrightarrow> rep (manager s1) L" "\<not> e \<longrightarrow> fuel \<le> length ns + MAX_BLOCKS"
    "\<forall>p k x. L p = Some k \<longrightarrow> x < k \<longrightarrow> bytes s1 (p + x) = bytes s (p + x)"
    using mm_round_ok [OF Suc.prems assms(2,3), of fuel] by blast
  show ?case
  proof (cases e)
    case True
    obtain e2 s2 ms where S: "mm_rounds ops scale fuel lim n s1 = Some (e2, s2)" "messages s2 = messages s1 @ concat (map no_memory ms)"
      "e2 \<longrightarrow> rep (manager s2) L" "\<not> e2 \<longrightarrow> fuel \<le> length ms + MAX_BLOCKS"
      "\<forall>p k x. L p = Some k \<longrightarrow> x < k \<longrightarrow> bytes s2 (p + x) = bytes s1 (p + x)"
      using Suc.IH [of s1] R(3) True by blast
    have "messages s2 = messages s @ concat (map no_memory (ns @ ms))" using R(2) S(2) by simp
    moreover have "\<not> e2 \<longrightarrow> fuel \<le> length (ns @ ms) + MAX_BLOCKS" using S(4) by auto
    moreover have "\<forall>p k x. L p = Some k \<longrightarrow> x < k \<longrightarrow> bytes s2 (p + x) = bytes s (p + x)" using R(5) S(5) by simp
    moreover have "mm_rounds ops scale fuel lim (Suc n) s = Some (e2, s2)" using R(1) S(1) True by simp
    ultimately show ?thesis using S(3) by blast
  next
    case False
    have "mm_rounds ops scale fuel lim (Suc n) s = Some (e, s1)" using R(1) False by simp
    then show ?thesis using R(2-5) by blast
  qed
next
  case 0
  show ?case by (rule exI [of _ True], rule exI [of _ s], rule exI [of _ "[]"]) (simp add: 0)
qed

lemma test_mm_ok:
  assumes "rep (manager s) L" "scale_range scale" "0 < to_u64 (satoi (Some a))" "to_u64 (satoi (Some a)) < 2 ^ 31"
  shows "\<exists>e s' ns. test_mm ops scale fuel turns [a] s = Some (Inr e, s') \<and> messages s' = messages s @ concat (map no_memory ns) \<and>
    (e \<longrightarrow> rep (manager s') L) \<and> (\<not> e \<longrightarrow> fuel \<le> length ns + MAX_BLOCKS) \<and>
    (\<forall>p k x. L p = Some k \<longrightarrow> x < k \<longrightarrow> bytes s' (p + x) = bytes s (p + x))"
proof -
  have t: "test_mm ops scale fuel turns [a] s = map_option (\<lambda>(e, s). (Inr e, s)) (mm_rounds ops scale fuel (to_u64 (satoi (Some a))) (3 * turns) s)"
    using assms(3) by (simp add: test_mm_def Let_def)
  show ?thesis unfolding t using mm_rounds_ok [OF assms(1,2,4), of fuel "3 * turns"] by fastforce
qed

end

section \<open>Both memory managers pass\<close>


definition mm_start :: "'m \<Rightarrow> 'm mm_test" where
  "mm_start m = \<lparr>manager = m, bytes = (\<lambda>_. NUL), rand = rng_start, messages = []\<rparr>"


text \<open>A manager without memory keeps the test in its first loop for ever.\<close>

lemma request_blocks_spins:
  assumes "\<And>n. mm_alloc ops (manager s) n = Some (0, manager s)" "0 < lim" "scale_range scale" "lim < 2 ^ 31"
  shows "\<exists>s'. request_blocks ops scale fuel lim 0 [] s = Some (False, [], s')"
  using assms(1)
proof (induction fuel arbitrary: s)
  case (Suc fuel)
  obtain r g where r: "GetUniform scale (u32 (lim - 0 - 1)) (rand s) = (r, g)" by (metis surj_pair)
  have n: "0 < u32 (r + 1)" using request_size [OF assms(3) r assms(2,4)] by simp
  have "test_malloc ops (u32 (r + 1)) (s\<lparr>rand := g\<rparr>) = Some (0, s\<lparr>rand := g, messages := messages s @ no_memory (u32 (r + 1))\<rparr>)"
    using test_malloc_eq [of ops "s\<lparr>rand := g\<rparr>" "u32 (r + 1)" 0 "manager s"] n Suc.prems by simp
  then show ?case using Suc.IH [of "s\<lparr>rand := g, messages := messages s @ no_memory (u32 (r + 1))\<rparr>"] Suc.prems r assms(2)
    by (simp add: MAX_BLOCKS_def Let_def)
qed simp

end
