(* ===== verification/Test_Processes.thy ===== *)
theory Test_Processes
  imports Test_Util User_World
begin

text \<open>
  The tests of process creation and of priorities, \<^verbatim>\<open>test_processes.c\<close> and \<^verbatim>\<open>test_prio.c\<close> in
  \<^verbatim>\<open>Userland/SampleCodeModule/tests\<close>.

  A test either goes on (\<open>Next\<close>), returns (\<open>Returned\<close>) or has used up the turns it was given (\<open>Cut\<close>); \<open>None\<close> is an
  access outside an array.
\<close>

section \<open>Control flow\<close>

datatype 's run = Next 's | Returned int 's | Cut 's

definition and_then :: "'s run option \<Rightarrow> ('s \<Rightarrow> 's run option) \<Rightarrow> 's run option" where
  "and_then r f = (case r of Some (Next s) \<Rightarrow> f s | _ \<Rightarrow> r)"

text \<open>\<^verbatim>\<open>for (rq = 0; rq < max_processes; rq++)\<close> with the 8-bit counter of the source.\<close>

fun for_u8 :: "nat \<Rightarrow> nat \<Rightarrow> nat \<Rightarrow> (nat \<Rightarrow> 's \<Rightarrow> 's run option) \<Rightarrow> 's \<Rightarrow> 's run option" where
  "for_u8 0 n rq body s = Some (Cut s)"
| "for_u8 (Suc fuel) n rq body s = (if rq < n then and_then (body rq s) (for_u8 fuel n (u8 (rq + 1)) body) else Some (Next s))"

section \<open>test_processes\<close>

definition COLOR_RED :: nat where "COLOR_RED = 0x00FF6B6B"
definition COLOR_GREEN :: nat where "COLOR_GREEN = 0x0098D8C8"

record p_rq =
  rq_pid :: int
  rq_state :: State

record ptest =
  p_rqs :: "p_rq list"
  alive :: nat
  prand :: rng
  pworld :: world

text \<open>A result register of all ones is what the comparison with -1 finds.\<close>

definition minus_one :: "int \<Rightarrow> bool" where "minus_one r \<longleftrightarrow> to_u64 r = 2 ^ 64 - 1"

definition mark_state :: "nat \<Rightarrow> State \<Rightarrow> ptest \<Rightarrow> ptest" where
  "mark_state rq st s = s\<lparr>p_rqs := (p_rqs s)[rq := (p_rqs s ! rq)\<lparr>rq_state := st\<rparr>]\<rparr>"

definition report :: "string \<Rightarrow> ptest \<Rightarrow> ptest run option" where
  "report msg s = map_option (\<lambda>w. Returned (-1) (s\<lparr>pworld := w\<rparr>)) (printfc_world COLOR_RED (msg @ [CHR 0x0A]) [] (pworld s))"

definition create_one :: "nat \<Rightarrow> ptest \<Rightarrow> ptest run option" where
  "create_one rq s = (let (a, w) = ask (Create ''endless_loop'' ''endless_loop'' (Argv []) 5 0 (-1) 1) (pworld s); p = s32 (ret a) in
     if \<not> rq < length (p_rqs s) then None
     else let s = s\<lparr>pworld := w, p_rqs := (p_rqs s)[rq := (p_rqs s ! rq)\<lparr>rq_pid := p\<rparr>]\<rparr> in
     if p = -1 then report ''test_processes: ERROR creating process'' s
     else Some (Next (mark_state rq RUNNING (s\<lparr>alive := u8 (alive s + 1)\<rparr>))))"

definition ask_test :: "call \<Rightarrow> string \<Rightarrow> (ptest \<Rightarrow> ptest) \<Rightarrow> ptest \<Rightarrow> ptest run option" where
  "ask_test c msg f s = (let (a, w) = ask c (pworld s); s = s\<lparr>pworld := w\<rparr> in if minus_one (ret a) then report msg s else Some (Next (f s)))"

definition kill_or_block :: "(nat \<Rightarrow> nat \<Rightarrow> nat) \<Rightarrow> nat \<Rightarrow> ptest \<Rightarrow> ptest run option" where
  "kill_or_block scale rq s = (let (r, g) = GetUniform scale 100 (prand s); action = u8 (r mod 2); s = s\<lparr>prand := g\<rparr> in
     if \<not> rq < length (p_rqs s) then None
     else let q = p_rqs s ! rq in
     if action = 0 then
       (if rq_state q = RUNNING \<or> rq_state q = BLOCKED
        then ask_test (Kill (to_u64 (rq_pid q))) ''test_processes: ERROR killing process'' (\<lambda>s. mark_state rq EXITED (s\<lparr>alive := u8 (alive s + 255)\<rparr>)) s
        else Some (Next s))
     else if action = 1 then
       (if rq_state q = RUNNING
        then ask_test (Block (to_u64 (rq_pid q))) ''test_processes: ERROR blocking process'' (mark_state rq BLOCKED) s
        else Some (Next s))
     else Some (Next s))"

definition maybe_unblock :: "(nat \<Rightarrow> nat \<Rightarrow> nat) \<Rightarrow> nat \<Rightarrow> ptest \<Rightarrow> ptest run option" where
  "maybe_unblock scale rq s = (if \<not> rq < length (p_rqs s) then None
     else let q = p_rqs s ! rq in
     if rq_state q = BLOCKED then
       (let (r, g) = GetUniform scale 100 (prand s); s = s\<lparr>prand := g\<rparr> in
        if r mod 2 \<noteq> 0 then ask_test (Unblock (to_u64 (rq_pid q))) ''test_processes: ERROR unblocking process'' (mark_state rq RUNNING) s
        else Some (Next s))
     else Some (Next s))"

fun kill_all :: "(nat \<Rightarrow> nat \<Rightarrow> nat) \<Rightarrow> nat \<Rightarrow> nat \<Rightarrow> nat \<Rightarrow> ptest \<Rightarrow> ptest run option" where
  "kill_all scale fuel 0 n s = Some (Cut s)"
| "kill_all scale fuel (Suc passes) n s = (if alive s > 0 then
     and_then (and_then (for_u8 fuel n 0 (kill_or_block scale) s) (for_u8 fuel n 0 (maybe_unblock scale))) (kill_all scale fuel passes n)
     else Some (Next s))"

text \<open>The outer loop never ends by itself; \<open>turns\<close> is how often it goes round.\<close>

fun process_turns :: "(nat \<Rightarrow> nat \<Rightarrow> nat) \<Rightarrow> nat \<Rightarrow> nat \<Rightarrow> nat \<Rightarrow> ptest \<Rightarrow> ptest run option" where
  "process_turns scale fuel 0 n s = Some (Next s)"
| "process_turns scale fuel (Suc turns) n s =
     and_then (and_then (for_u8 fuel n 0 create_one s) (kill_all scale fuel fuel n)) (process_turns scale fuel turns n)"

text \<open>The array is on the stack, with whatever was there before.\<close>

definition test_processes :: "(nat \<Rightarrow> nat \<Rightarrow> nat) \<Rightarrow> nat \<Rightarrow> nat \<Rightarrow> (nat \<Rightarrow> p_rq) \<Rightarrow> string list \<Rightarrow> rng \<Rightarrow> world \<Rightarrow> ptest run option" where
  "test_processes scale fuel turns before argv g w = (let s = \<lparr>p_rqs = [], alive = 0, prand = g, pworld = w\<rparr> in
     if length argv \<noteq> 1 then Some (Returned (-1) s)
     else let n = to_u64 (satoi (Some (argv ! 0))) in if n \<le> 0 then Some (Returned (-1) s)
     else process_turns scale fuel turns n (s\<lparr>p_rqs := map before [0..<n]\<rparr>))"

section \<open>Who was created and who was killed\<close>

definition created :: "(call \<times> int) list \<Rightarrow> nat multiset" where
  "created ts = mset (concat (map (\<lambda>(c, r). case c of Create _ _ _ _ _ _ _ \<Rightarrow> if s32 r = -1 then [] else [to_u64 (s32 r)] | _ \<Rightarrow> []) ts))"

definition killed :: "(call \<times> int) list \<Rightarrow> nat multiset" where
  "killed ts = mset (concat (map (\<lambda>(c, r). case c of Kill p \<Rightarrow> [p] | _ \<Rightarrow> []) ts))"

lemma created_killed_append [simp]:
  "created (ts @ us) = created ts + created us" "killed (ts @ us) = killed ts + killed us" "created [] = {#}" "killed [] = {#}"
  by (simp_all add: created_def killed_def)

lemma created_killed_one [simp]:
  "created [(Create a b c d e f h, r)] = (if s32 r = -1 then {#} else {#to_u64 (s32 r)#})" "killed [(Create a b c d e f h, r)] = {#}"
  "created [(Kill p, r)] = {#}" "killed [(Kill p, r)] = {#p#}"
  "created [(Block p, r)] = {#}" "killed [(Block p, r)] = {#}" "created [(Unblock p, r)] = {#}" "killed [(Unblock p, r)] = {#}"
  "created [(Write_color k t, r)] = {#}" "killed [(Write_color k t, r)] = {#}"
  by (simp_all add: created_def killed_def)

definition live :: "p_rq list \<Rightarrow> nat multiset" where
  "live qs = mset (map (\<lambda>q. to_u64 (rq_pid q)) (filter (\<lambda>q. rq_state q \<noteq> EXITED) qs))"

text \<open>The state of the test with \<open>n\<close> processes of which the first \<open>i\<close> are created.\<close>

definition created_inv :: "nat \<Rightarrow> nat \<Rightarrow> ptest \<Rightarrow> bool" where
  "created_inv n i s \<longleftrightarrow> length (p_rqs s) = n \<and> alive s = size (live (take i (p_rqs s))) \<and>
     created (trace (pworld s)) = killed (trace (pworld s)) + live (take i (p_rqs s))"

definition only_created :: "ptest \<Rightarrow> bool" where
  "only_created s \<longleftrightarrow> killed (trace (pworld s)) \<subseteq># created (trace (pworld s))"

definition holds_after :: "(ptest \<Rightarrow> bool) \<Rightarrow> ptest run option \<Rightarrow> bool" where
  "holds_after Q r \<longleftrightarrow> (case r of None \<Rightarrow> False | Some (Next s) \<Rightarrow> Q s | Some (Returned c s) \<Rightarrow> c = -1 \<and> only_created s | Some (Cut s) \<Rightarrow> only_created s)"

lemma created_inv_only: "created_inv n i s \<Longrightarrow> only_created s"
  by (simp add: created_inv_def only_created_def)

lemma holds_after_simps [simp]:
  "\<not> holds_after Q None" "holds_after Q (Some (Next s)) = Q s" "holds_after Q (Some (Returned c s)) = (c = -1 \<and> only_created s)"
  "holds_after Q (Some (Cut s)) = only_created s"
  by (simp_all add: holds_after_def)

lemma and_then_simps [simp]:
  "and_then None f = None" "and_then (Some (Next s)) f = f s" "and_then (Some (Returned c s)) f = Some (Returned c s)"
  "and_then (Some (Cut s)) f = Some (Cut s)"
  by (simp_all add: and_then_def)

lemma and_then_holds: "holds_after P r \<Longrightarrow> (\<And>s. P s \<Longrightarrow> holds_after Q (f s)) \<Longrightarrow> holds_after Q (and_then r f)"
proof (cases r)
  case (Some x)
  then show "holds_after P r \<Longrightarrow> (\<And>s. P s \<Longrightarrow> holds_after Q (f s)) \<Longrightarrow> holds_after Q (and_then r f)" by (cases x) simp_all
qed simp

lemma for_u8_holds:
  assumes "n < 256" "\<And>rq s. rq < n \<Longrightarrow> I rq s \<Longrightarrow> holds_after (I (rq + 1)) (body rq s)" "\<And>rq s. I rq s \<Longrightarrow> only_created s" "rq \<le> n" "I rq s"
  shows "holds_after (I n) (for_u8 fuel n rq body s)"
  using assms(4,5)
proof (induction fuel arbitrary: rq s)
  case (Suc fuel)
  show ?case
  proof (cases "rq < n")
    case True
    then have "u8 (rq + 1) = rq + 1" using assms(1) by (simp add: u8_def)
    then show ?thesis using True Suc.IH [of "rq + 1"] and_then_holds [OF assms(2) [OF True Suc.prems(2)]] by simp
  next
    case False
    then have "rq = n" using Suc.prems(1) by simp
    then show ?thesis using Suc.prems(2) by (simp add: holds_after_def)
  qed
qed (use assms(3) in \<open>simp add: holds_after_def\<close>)

definition live1 :: "p_rq \<Rightarrow> nat multiset" where
  "live1 q = (if rq_state q = EXITED then {#} else {#to_u64 (rq_pid q)#})"

lemma live_simps [simp]: "live [] = {#}" "live (q # qs) = live1 q + live qs" "live (ps @ qs) = live ps + live qs"
  by (simp_all add: live_def live1_def)

lemma live_update: "i < length qs \<Longrightarrow> live (qs[i := q]) + live1 (qs ! i) = live qs + live1 q"
  by (induction qs arbitrary: i) (auto split: nat.splits simp: ac_simps nth_Cons')

lemma size_live: "size (live qs) \<le> length qs"
  by (induction qs) (auto simp: live1_def)

lemma report_holds:
  assumes "only_created s" "fits (msg @ [CHR 0x0A]) []"
  shows "holds_after Q (report msg s)"
proof -
  obtain t where "printfc_world COLOR_RED (msg @ [CHR 0x0A]) [] (pworld s) = Some (tell (Write_color COLOR_RED t) (pworld s))"
    using print_some(3) [OF assms(2)] by blast
  then show ?thesis using assms(1) by (simp add: report_def only_created_def)
qed

text \<open>A call of the test leaves its multisets alone or adds one process to the killed ones.\<close>

lemma ask_test_holds:
  assumes "fits (msg @ [CHR 0x0A]) []" "only_created (s\<lparr>pworld := tell c (pworld s)\<rparr>)"
    "\<And>r. Q (f (s\<lparr>pworld := tell c (pworld s)\<rparr>))"
  shows "holds_after Q (ask_test c msg f s)"
  using assms report_holds [OF assms(2,1)] by (simp add: ask_test_def ask_eq Let_def)

lemma live1_sub: "i < length qs \<Longrightarrow> live1 (qs ! i) \<subseteq># live qs"
  by (induction qs arbitrary: i) (auto split: nat.splits simp: nth_Cons' subset_mset.add_increasing subset_mset.add_increasing2)

lemma create_one_holds:
  assumes "created_inv n rq s" "rq < n" "n < 256"
  shows "holds_after (created_inv n (rq + 1)) (create_one rq s)"
proof -
  let ?c = "Create ''endless_loop'' ''endless_loop'' (Argv []) 5 0 (-1) 1"
  let ?r = "ret (reply (pworld s) (trace (pworld s)) ?c)"
  let ?q = "(p_rqs s ! rq)\<lparr>rq_pid := s32 ?r\<rparr>"
  let ?s = "s\<lparr>pworld := tell ?c (pworld s), p_rqs := (p_rqs s)[rq := ?q]\<rparr>"
  note I = assms(1) [unfolded created_inv_def]
  have len: "rq < length (p_rqs s)" using I assms(2) by simp
  show ?thesis
  proof (cases "s32 ?r = -1")
    case True
    have "holds_after (created_inv n (rq + 1)) (report ''test_processes: ERROR creating process'' ?s)"
      by (rule report_holds) (use I True in \<open>simp_all add: only_created_def\<close>)
    then show ?thesis using len True by (simp add: create_one_def ask_eq Let_def)
  next
    case False
    have t: "take (rq + 1) ((p_rqs s)[rq := x]) = take rq (p_rqs s) @ [x]" for x
      using len by (simp add: take_Suc_conv_app_nth)
    have l: "size (live (take rq (p_rqs s))) < 255" using size_live [of "take rq (p_rqs s)"] assms(2,3) by simp
    have "created_inv n (rq + 1) (mark_state rq RUNNING (?s\<lparr>alive := u8 (alive s + 1)\<rparr>))"
      using I False t l len by (simp add: created_inv_def mark_state_def live1_def u8_def)
    then show ?thesis using len False by (simp add: create_one_def ask_eq Let_def)
  qed
qed

text \<open>All processes are created; the test kills, blocks and unblocks.\<close>

lemma created_inv_all: "created_inv n n s \<longleftrightarrow> length (p_rqs s) = n \<and> alive s = size (live (p_rqs s)) \<and>
    created (trace (pworld s)) = killed (trace (pworld s)) + live (p_rqs s)"
  by (auto simp: created_inv_def)

lemma mark_state_inv:
  assumes "created_inv n n s" "rq < n" "rq_state (p_rqs s ! rq) \<noteq> EXITED" "st \<noteq> EXITED" "c = Block p \<or> c = Unblock p"
  shows "created_inv n n (mark_state rq st (s\<lparr>prand := g, pworld := tell c (pworld s)\<rparr>))" "only_created (s\<lparr>prand := g, pworld := tell c (pworld s)\<rparr>)"
proof -
  note I = assms(1) [unfolded created_inv_all]
  let ?q = "(p_rqs s ! rq)\<lparr>rq_state := st\<rparr>"
  have "live ((p_rqs s)[rq := ?q]) + live1 (p_rqs s ! rq) = live (p_rqs s) + live1 ?q" using live_update I assms(2) by simp
  then have l: "live ((p_rqs s)[rq := ?q]) = live (p_rqs s)" using assms(3,4) by (simp add: live1_def)
  show "created_inv n n (mark_state rq st (s\<lparr>prand := g, pworld := tell c (pworld s)\<rparr>))" "only_created (s\<lparr>prand := g, pworld := tell c (pworld s)\<rparr>)"
    using I l assms(5) by (auto simp: created_inv_all mark_state_def only_created_def)
qed

lemma kill_inv:
  assumes "created_inv n n s" "rq < n" "n < 256" "rq_state (p_rqs s ! rq) \<noteq> EXITED"
  defines "w \<equiv> tell (Kill (to_u64 (rq_pid (p_rqs s ! rq)))) (pworld s)"
  shows "created_inv n n (mark_state rq EXITED (s\<lparr>prand := g, pworld := w, alive := u8 (alive s + 255)\<rparr>))" "only_created (s\<lparr>prand := g, pworld := w\<rparr>)"
proof -
  note I = assms(1) [unfolded created_inv_all]
  let ?p = "to_u64 (rq_pid (p_rqs s ! rq))"
  let ?q = "(p_rqs s ! rq)\<lparr>rq_state := EXITED\<rparr>"
  have "live ((p_rqs s)[rq := ?q]) + live1 (p_rqs s ! rq) = live (p_rqs s) + live1 ?q" using live_update I assms(2) by simp
  then have l: "live (p_rqs s) = add_mset ?p (live ((p_rqs s)[rq := ?q]))" using assms(4) by (simp add: live1_def)
  have b: "alive s < 256" using I size_live [of "p_rqs s"] assms(3) by simp
  have a: "u8 (alive s + 255) = size (live ((p_rqs s)[rq := ?q]))" using I l b by (simp add: u8_def)
  show "created_inv n n (mark_state rq EXITED (s\<lparr>prand := g, pworld := w, alive := u8 (alive s + 255)\<rparr>))" "only_created (s\<lparr>prand := g, pworld := w\<rparr>)"
    using I l a by (auto simp: created_inv_all mark_state_def only_created_def w_def)
qed

lemma created_inv_prand [simp]: "created_inv n i (s\<lparr>prand := g\<rparr>) = created_inv n i s"
  by (simp add: created_inv_def)

lemma kill_or_block_holds:
  assumes "created_inv n n s" "rq < n" "n < 256"
  shows "holds_after (created_inv n n) (kill_or_block scale rq s)"
proof -
  obtain r g where r: "GetUniform scale 100 (prand s) = (r, g)" by (metis surj_pair)
  let ?s = "s\<lparr>prand := g\<rparr>"
  let ?q = "p_rqs s ! rq"
  have len: "rq < length (p_rqs s)" using assms(1,2) by (simp add: created_inv_all)
  have K: "holds_after (created_inv n n) (ask_test (Kill (to_u64 (rq_pid ?q))) ''test_processes: ERROR killing process''
      (\<lambda>s. mark_state rq EXITED (s\<lparr>alive := u8 (alive s + 255)\<rparr>)) ?s)" if "rq_state ?q \<noteq> EXITED"
    by (rule ask_test_holds) (use kill_inv [OF assms that, of g] in \<open>simp_all\<close>)
  have B: "holds_after (created_inv n n) (ask_test (Block (to_u64 (rq_pid ?q))) ''test_processes: ERROR blocking process''
      (mark_state rq BLOCKED) ?s)" if "rq_state ?q \<noteq> EXITED"
    by (rule ask_test_holds) (use mark_state_inv [OF assms(1,2) that, of BLOCKED _ _ g] in \<open>simp_all\<close>)
  show ?thesis using K B assms(1) len r by (auto simp: kill_or_block_def Let_def)
qed

lemma maybe_unblock_holds:
  assumes "created_inv n n s" "rq < n"
  shows "holds_after (created_inv n n) (maybe_unblock scale rq s)"
proof -
  obtain r g where r: "GetUniform scale 100 (prand s) = (r, g)" by (metis surj_pair)
  let ?q = "p_rqs s ! rq"
  have len: "rq < length (p_rqs s)" using assms(1,2) by (simp add: created_inv_all)
  have B: "holds_after (created_inv n n) (ask_test (Unblock (to_u64 (rq_pid ?q))) ''test_processes: ERROR unblocking process''
      (mark_state rq RUNNING) (s\<lparr>prand := g\<rparr>))" if "rq_state ?q \<noteq> EXITED"
    by (rule ask_test_holds) (use mark_state_inv [OF assms that, of RUNNING _ _ g] in \<open>simp_all\<close>)
  show ?thesis using B assms(1) len r by (auto simp: maybe_unblock_def Let_def)
qed

lemma kill_all_holds:
  assumes "n < 256"
  shows "created_inv n n s \<Longrightarrow> holds_after (\<lambda>s. created_inv n n s \<and> alive s = 0) (kill_all scale fuel passes n s)"
proof (induction passes arbitrary: s)
  case (Suc passes)
  let ?I = "\<lambda>_. created_inv n n"
  have K: "holds_after (?I n) (for_u8 fuel n 0 (kill_or_block scale) s)"
    by (rule for_u8_holds [OF assms, where I = ?I]) (use kill_or_block_holds created_inv_only assms Suc.prems in \<open>auto\<close>)
  have U: "holds_after (?I n) (for_u8 fuel n 0 (maybe_unblock scale) t)" if "created_inv n n t" for t
    by (rule for_u8_holds [OF assms, where I = ?I]) (use maybe_unblock_holds created_inv_only that in \<open>auto\<close>)
  show ?case using and_then_holds [OF and_then_holds [OF K U] Suc.IH] Suc.prems by simp
qed (simp add: created_inv_only)

lemma process_turns_holds:
  assumes "n < 256"
  shows "length (p_rqs s) = n \<Longrightarrow> alive s = 0 \<Longrightarrow> created (trace (pworld s)) = killed (trace (pworld s)) \<Longrightarrow>
    holds_after (\<lambda>s. created (trace (pworld s)) = killed (trace (pworld s))) (process_turns scale fuel turns n s)"
proof (induction turns arbitrary: s)
  case (Suc turns)
  have s: "created_inv n 0 s" using Suc.prems by (simp add: created_inv_def)
  have C: "holds_after (created_inv n n) (for_u8 fuel n 0 create_one s)"
    by (rule for_u8_holds [OF assms, where I = "created_inv n"]) (use create_one_holds created_inv_only assms s in auto)
  have "holds_after (\<lambda>s. created (trace (pworld s)) = killed (trace (pworld s))) (process_turns scale fuel turns n t)"
    if "created_inv n n t \<and> alive t = 0" for t
  proof (rule Suc.IH)
    show "length (p_rqs t) = n" "alive t = 0" "created (trace (pworld t)) = killed (trace (pworld t))"
      using that by (auto simp: created_inv_all)
  qed
  then show ?case using and_then_holds [OF and_then_holds [OF C kill_all_holds [OF assms]]] by simp
qed simp

text \<open>The loops over the array end by themselves.\<close>

definition cut_free :: "'s run option \<Rightarrow> bool" where "cut_free r \<longleftrightarrow> (\<forall>s. r \<noteq> Some (Cut s))"

lemma for_u8_ends:
  "n < 256 \<Longrightarrow> rq \<le> n \<Longrightarrow> n - rq < fuel \<Longrightarrow> (\<And>rq s. cut_free (body rq s)) \<Longrightarrow> cut_free (for_u8 fuel n rq body s)"
proof (induction fuel arbitrary: rq s)
  case (Suc fuel)
  show ?case
  proof (cases "rq < n")
    case True
    then have "u8 (rq + 1) = rq + 1" using Suc.prems(1) by (simp add: u8_def)
    then have "cut_free (for_u8 fuel n (u8 (rq + 1)) body t)" for t using Suc True by simp
    moreover have "cut_free (body rq s)" by (rule Suc.prems(4))
    ultimately show ?thesis using True by (simp add: cut_free_def and_then_def split: option.split run.split)
  qed (simp add: cut_free_def)
qed simp

lemma bodies_cut_free: "cut_free (create_one rq s)" "cut_free (kill_or_block scale rq s)" "cut_free (maybe_unblock scale rq s)"
  by (auto simp: cut_free_def create_one_def kill_or_block_def maybe_unblock_def ask_test_def report_def ask_eq Let_def split: prod.split)

text \<open>With 256 processes or more the counter wraps before it reaches their number: the test creates processes for ever.\<close>

theorem test_processes_wraps:
  assumes "256 \<le> n" "\<And>ts c. s32 (ret (reply (pworld s) ts c)) \<noteq> -1" "length (p_rqs s) = n" "rq < 256"
  shows "\<exists>s'. for_u8 fuel n rq create_one s = Some (Cut s') \<and> size (created (trace (pworld s'))) = size (created (trace (pworld s))) + fuel"
  using assms(2-4)
proof (induction fuel arbitrary: rq s)
  case (Suc fuel)
  have rq: "rq < n" "rq < length (p_rqs s)" using Suc.prems assms(1) by simp_all
  then obtain s1 where s1: "create_one rq s = Some (Next s1)" "size (created (trace (pworld s1))) = size (created (trace (pworld s))) + 1"
    "reply (pworld s1) = reply (pworld s)" "length (p_rqs s1) = n"
    using Suc.prems(1,2) by (simp add: create_one_def ask_eq Let_def mark_state_def)
  have "u8 (rq + 1) < 256" by (simp add: u8_def)
  then show ?case using Suc.IH [of s1 "u8 (rq + 1)"] Suc.prems(1) s1 rq(1) by simp
qed simp

section \<open>The property of test_processes\<close>

text \<open>C35. The process test, for up to 255 processes, whatever the kernel answers, whatever the random numbers are and
  whatever the array held before, stays inside its array, kills only processes it has created and none of them twice, and after every turn of
  its outer loop every process it created has been killed.  When it returns it has been told -1 for a call.  Its loops over the array end
  by themselves, so that a run given more turns than processes is only cut while some process is still alive.\<close>

theorem test_processes_kills_all:
  assumes "0 < to_u64 (satoi (Some a))" "to_u64 (satoi (Some a)) < 256" "trace w = []"
  shows "holds_after (\<lambda>s. created (trace (pworld s)) = killed (trace (pworld s))) (test_processes scale fuel turns before [a] g w) \<and>
    (to_u64 (satoi (Some a)) < fuel \<longrightarrow> (\<forall>s. cut_free (for_u8 fuel (to_u64 (satoi (Some a))) 0 create_one s) \<and>
      cut_free (for_u8 fuel (to_u64 (satoi (Some a))) 0 (kill_or_block scale) s) \<and> cut_free (for_u8 fuel (to_u64 (satoi (Some a))) 0 (maybe_unblock scale) s)))"
proof
  let ?n = "to_u64 (satoi (Some a))"
  show "holds_after (\<lambda>s. created (trace (pworld s)) = killed (trace (pworld s))) (test_processes scale fuel turns before [a] g w)"
    using process_turns_holds [OF assms(2), of "\<lparr>p_rqs = map before [0..<?n], alive = 0, prand = g, pworld = w\<rparr>" scale fuel turns] assms(1,3)
    by (simp add: test_processes_def Let_def)
qed (use for_u8_ends [OF assms(2) le0 _ bodies_cut_free(1)] for_u8_ends [OF assms(2) le0 _ bodies_cut_free(2)]
    for_u8_ends [OF assms(2) le0 _ bodies_cut_free(3)] in simp)

theorem test_processes_kills_all_witness:
  "holds_after (\<lambda>s. created (trace (pworld s)) = killed (trace (pworld s))) (test_processes exact_scale 60 3 (\<lambda>_. \<lparr>rq_pid = -1, rq_state = BLOCKED\<rparr>) [''12''] rng_start
      \<lparr>reply = (\<lambda>ts c. \<lparr>ret = 7 + int (length ts), outs = [], table = []\<rparr>), input = [], trace = []\<rparr>) \<and>
    (\<forall>s. cut_free (for_u8 60 12 0 create_one s) \<and> cut_free (for_u8 60 12 0 (kill_or_block exact_scale) s) \<and>
      cut_free (for_u8 60 12 0 (maybe_unblock exact_scale) s))"
proof -
  let ?w = "\<lparr>reply = (\<lambda>ts c. \<lparr>ret = 7 + int (length ts), outs = [], table = []\<rparr>), input = [], trace = []\<rparr>"
  have n: "to_u64 (satoi (Some ''12'')) = 12" by (simp add: satoi_def is_digit_def s64_def Let_def to_u64_def)
  show ?thesis
    using test_processes_kills_all [of "''12''" ?w exact_scale 60 3 "\<lambda>_. \<lparr>rq_pid = -1, rq_state = BLOCKED\<rparr>" rng_start] unfolding n by simp
qed

section \<open>test_prio\<close>

definition TOTAL_PROCESSES :: nat where "TOTAL_PROCESSES = 3"

definition prio :: "int list" where "prio = [0, 1, 2]"

text \<open>\<^verbatim>\<open>while (value++ != max_value)\<close>; \<open>None\<close> when the turns are used up.\<close>

fun zero_loop :: "nat \<Rightarrow> nat \<Rightarrow> nat \<Rightarrow> nat option" where
  "zero_loop 0 max_value v = None"
| "zero_loop (Suc fuel) max_value v = (if v \<noteq> max_value then zero_loop fuel max_value (u64 (v + 1)) else Some (u64 (v + 1)))"

definition zero_to_max :: "nat \<Rightarrow> nat \<Rightarrow> world \<Rightarrow> world option" where
  "zero_to_max fuel max_value w = do {
     _ \<leftarrow> zero_loop fuel max_value 0;
     let (a, w) = ask Getpid w in
     print_world (''PROCESS %d DONE!'' @ [CHR 0x0A]) [AInt (s32 (ret a))] w }"

definition create_ztm :: "world \<Rightarrow> int \<times> world" where
  "create_ztm w = (case ask (Create ''zero_to_max'' ''zero_to_max'' (Argv []) 0 0 (-1) 1) w of (a, w) \<Rightarrow> (s64 (ret a), w))"

fun create_plain :: "nat \<Rightarrow> world \<Rightarrow> int list \<times> world" where
  "create_plain 0 w = ([], w)"
| "create_plain (Suc n) w = (let (p, w) = create_ztm w; (ps, w) = create_plain n w in (p # ps, w))"

text \<open>The second and third loop: create, block in the third, change the priority.\<close>

fun create_changed :: "bool \<Rightarrow> int list \<Rightarrow> world \<Rightarrow> (int list \<times> world) option" where
  "create_changed blocked [] w = Some ([], w)"
| "create_changed blocked (r # rs) w = (let (p, w) = create_ztm w;
     w = (if blocked then tell (Block (to_u64 p)) w else w);
     w = tell (Change_prio (to_u64 p) r) w in do {
       w \<leftarrow> print_world (''  PROCESS %d NEW PRIORITY: %d'' @ [CHR 0x0A]) [AInt (s32 p), AInt (s32 r)] w;
       (ps, w) \<leftarrow> create_changed blocked rs w;
       Some (p # ps, w) })"

definition wait_all :: "int list \<Rightarrow> world \<Rightarrow> world" where
  "wait_all ps w = fold (\<lambda>p. tell (Waitpid (s32 p))) ps w"

text \<open>The result is the returned value; \<open>None\<close> in its place after \<^verbatim>\<open>syscall_exit\<close>.\<close>

definition test_prio :: "string list \<Rightarrow> world \<Rightarrow> (int option \<times> world) option" where
  "test_prio argv w = (if length argv \<noteq> 1 then Some (Some (-1), w)
     else if to_u64 (satoi (Some (argv ! 0))) \<le> 0 then Some (Some (-1), w)
     else do {
       w \<leftarrow> print_world (''SAME PRIORITY...'' @ [CHR 0x0A]) [] w;
       let (pids, w) = create_plain TOTAL_PROCESSES w;
       let w = wait_all pids w;
       w \<leftarrow> print_world (''SAME PRIORITY, THEN CHANGE IT...'' @ [CHR 0x0A]) [] w;
       (pids, w) \<leftarrow> create_changed False prio w;
       let w = wait_all pids w;
       w \<leftarrow> print_world (''SAME PRIORITY, THEN CHANGE IT WHILE BLOCKED...'' @ [CHR 0x0A]) [] w;
       (pids, w) \<leftarrow> create_changed True prio w;
       let w = fold (\<lambda>p. tell (Unblock (to_u64 p))) pids w;
       let w = wait_all pids w;
       w \<leftarrow> printfc_world COLOR_GREEN (''TEST PRIO COMPLETED'' @ [CHR 0x0A]) [] w;
       Some (None, tell Exit w) })"

text \<open>A counting process ends after as many turns as the number, and one more.\<close>

lemma zero_loop_ends: "v \<le> m \<Longrightarrow> m < 2 ^ 64 \<Longrightarrow> m - v < fuel \<Longrightarrow> zero_loop fuel m v = Some (u64 (m + 1))"
proof (induction fuel arbitrary: v)
  case (Suc fuel)
  then have "u64 (v + 1) = v + 1" if "v \<noteq> m" using that by (simp add: u64_def)
  then show ?case using Suc by simp
qed simp

abbreviation ztm :: call where "ztm \<equiv> Create ''zero_to_max'' ''zero_to_max'' (Argv []) 0 0 (-1) 1"

lemma acts_tell: "acts (tell c w) = acts w @ (if is_act c then [c] else [])"
  by simp

lemma is_act_test [simp]: "is_act ztm" "is_act (Waitpid p)" "is_act (Block q)" "is_act (Unblock q)" "is_act (Change_prio q r)" "is_act Exit"
  by (simp_all add: is_act_def)

lemma fold_tell: "(\<And>p. is_act (f p)) \<Longrightarrow> acts (fold (\<lambda>p. tell (f p)) ps w) = acts w @ map f ps \<and> reply (fold (\<lambda>p. tell (f p)) ps w) = reply w"
  by (induction ps arbitrary: w) simp_all

lemma create_plain_acts:
  "create_plain n w = (ps, w') \<Longrightarrow> length ps = n \<and> acts w' = acts w @ replicate n ztm \<and> reply w' = reply w"
proof (induction n arbitrary: w ps w')
  case (Suc n)
  obtain qs u where u: "create_plain n (tell ztm w) = (qs, u)" by (metis surj_pair)
  then show ?case using Suc.IH [OF u] Suc.prems by (auto simp: create_ztm_def ask_eq Let_def)
qed simp

lemma s32_s64: "s32 (s64 x) = s32 x"
proof -
  have "s64 x mod 2 ^ 32 = x mod 2 ^ 32"
    using mod_mult_self2 [of "x mod 2 ^ 64 - 2 ^ 64" "2 ^ 32" "2 ^ 32 :: int"] by (simp add: s64_def Let_def mod_mod_cancel)
  then show ?thesis by (simp add: s32_def)
qed

lemma create_changed_acts:
  assumes "\<And>ts c. - (2 ^ 31) < s32 (ret (reply w ts c))" "set rs \<subseteq> {0..127}"
  shows "\<exists>ps w'. create_changed blocked rs w = Some (ps, w') \<and> length ps = length rs \<and> reply w' = reply w \<and> acts w' = acts w @
    concat (map2 (\<lambda>p r. ztm # (if blocked then [Block (to_u64 p)] else []) @ [Change_prio (to_u64 p) r]) ps rs)"
  using assms
proof (induction rs arbitrary: w)
  case (Cons r rs)
  let ?p = "s64 (ret (reply w (trace w) ztm))"
  let ?w = "tell (Change_prio (to_u64 ?p) r) (if blocked then tell (Block (to_u64 ?p)) (tell ztm w) else tell ztm w)"
  have "s32 r = r" using Cons.prems(2) by (intro s32_small) auto
  moreover note s32_less [of ?p] s32_less [of r]
  ultimately have "fits (''  PROCESS %d NEW PRIORITY: %d'' @ [CHR 0x0A]) [AInt (s32 ?p), AInt (s32 r)]"
    using Cons.prems by (simp add: s32_s64)
  then obtain t where t: "print_world (''  PROCESS %d NEW PRIORITY: %d'' @ [CHR 0x0A]) [AInt (s32 ?p), AInt (s32 r)] ?w = Some (tell (Write 1 t) ?w)"
    using print_some(1) by blast
  have v: "reply (tell (Write 1 t) ?w) = reply w" by simp
  have "\<exists>ps w'. create_changed blocked rs (tell (Write 1 t) ?w) = Some (ps, w') \<and> length ps = length rs \<and>
    reply w' = reply (tell (Write 1 t) ?w) \<and> acts w' = acts (tell (Write 1 t) ?w) @
      concat (map2 (\<lambda>p r. ztm # (if blocked then [Block (to_u64 p)] else []) @ [Change_prio (to_u64 p) r]) ps rs)"
    by (rule Cons.IH) (use Cons.prems in \<open>simp_all only: v, auto\<close>)
  then obtain ps w' where R: "create_changed blocked rs (tell (Write 1 t) ?w) = Some (ps, w')" "length ps = length rs"
    "reply w' = reply (tell (Write 1 t) ?w)" "acts w' = acts (tell (Write 1 t) ?w) @
      concat (map2 (\<lambda>p r. ztm # (if blocked then [Block (to_u64 p)] else []) @ [Change_prio (to_u64 p) r]) ps rs)"
    by blast
  have "create_changed blocked (r # rs) w = Some (?p # ps, w')" using t R(1) by (simp add: create_ztm_def ask_eq Let_def)
  moreover have "is_act (Write 1 t) = False" by (simp add: is_act_def)
  ultimately show ?case using R(2-4) by (intro exI [of _ "?p # ps"] exI [of _ w']) (auto simp: acts_tell)
qed simp

text \<open>The priority test makes exactly these calls besides its output: three processes at once; three that are given the
  three priorities; three that are given them while blocked.  Each group is waited for.\<close>

lemma test_prio_calls:
  assumes "\<And>ts c. - (2 ^ 31) < s32 (ret (reply w ts c))" "0 < to_u64 (satoi (Some a))"
  shows "\<exists>w' as bs cs. test_prio [a] w = Some (None, w') \<and> length as = 3 \<and> length bs = 3 \<and> length cs = 3 \<and> acts w' = acts w @
    replicate 3 ztm @ map (\<lambda>p. Waitpid (s32 p)) as @
    concat (map2 (\<lambda>p r. [ztm, Change_prio (to_u64 p) r]) bs prio) @ map (\<lambda>p. Waitpid (s32 p)) bs @
    concat (map2 (\<lambda>p r. [ztm, Block (to_u64 p), Change_prio (to_u64 p) r]) cs prio) @ map (\<lambda>p. Unblock (to_u64 p)) cs @
    map (\<lambda>p. Waitpid (s32 p)) cs @ [Exit]"
proof -
  let ?m = "\<lambda>s :: string. s @ [CHR 0x0A]"
  have out: "is_act (Write 1 s) = False" for s by (simp add: is_act_def)
  note pl = print_plain(1)
  define w1 where "w1 = tell (Write 1 (?m ''SAME PRIORITY...'')) w"
  have p1: "print_world (?m ''SAME PRIORITY...'') [] w = Some w1" unfolding w1_def by (rule pl) simp_all
  obtain as w2 where c1: "create_plain 3 w1 = (as, w2)" by (metis surj_pair)
  note A = create_plain_acts [OF c1]
  define w3 where "w3 = wait_all as w2"
  have W3: "acts w3 = acts w2 @ map (\<lambda>p. Waitpid (s32 p)) as" "reply w3 = reply w2"
    using fold_tell [of "\<lambda>p. Waitpid (s32 p)" as w2] by (simp_all add: w3_def wait_all_def)
  define w4 where "w4 = tell (Write 1 (?m ''SAME PRIORITY, THEN CHANGE IT...'')) w3"
  have p4: "print_world (?m ''SAME PRIORITY, THEN CHANGE IT...'') [] w3 = Some w4" unfolding w4_def by (rule pl) simp_all
  have r4: "reply w4 = reply w" using A W3 by (simp add: w4_def w1_def)
  have pr: "set prio \<subseteq> {0..127}" "length prio = 3" by (simp_all add: prio_def)
  obtain bs w5 where B: "create_changed False prio w4 = Some (bs, w5)" "length bs = 3" "reply w5 = reply w4"
    "acts w5 = acts w4 @ concat (map2 (\<lambda>p r. [ztm, Change_prio (to_u64 p) r]) bs prio)"
    using create_changed_acts [of w4 prio False] assms(1) pr r4 by auto
  define w6 where "w6 = wait_all bs w5"
  have W6: "acts w6 = acts w5 @ map (\<lambda>p. Waitpid (s32 p)) bs" "reply w6 = reply w5"
    using fold_tell [of "\<lambda>p. Waitpid (s32 p)" bs w5] by (simp_all add: w6_def wait_all_def)
  define w7 where "w7 = tell (Write 1 (?m ''SAME PRIORITY, THEN CHANGE IT WHILE BLOCKED...'')) w6"
  have p7: "print_world (?m ''SAME PRIORITY, THEN CHANGE IT WHILE BLOCKED...'') [] w6 = Some w7" unfolding w7_def by (rule pl) simp_all
  have r7: "reply w7 = reply w" using B(3) W6 r4 by (simp add: w7_def)
  obtain cs w8 where C: "create_changed True prio w7 = Some (cs, w8)" "length cs = 3" "reply w8 = reply w7"
    "acts w8 = acts w7 @ concat (map2 (\<lambda>p r. [ztm, Block (to_u64 p), Change_prio (to_u64 p) r]) cs prio)"
    using create_changed_acts [of w7 prio True] assms(1) pr r7 by auto
  define w9 where "w9 = wait_all cs (fold (\<lambda>p. tell (Unblock (to_u64 p))) cs w8)"
  have W9: "acts w9 = acts w8 @ map (\<lambda>p. Unblock (to_u64 p)) cs @ map (\<lambda>p. Waitpid (s32 p)) cs"
    using fold_tell [of "\<lambda>p. Unblock (to_u64 p)" cs w8] fold_tell [of "\<lambda>p. Waitpid (s32 p)" cs]
    by (simp add: w9_def wait_all_def)
  obtain t where t: "printfc_world COLOR_GREEN (?m ''TEST PRIO COMPLETED'') [] w9 = Some (tell (Write_color COLOR_GREEN t) w9)"
    using print_some(3) [of "?m ''TEST PRIO COMPLETED''" "[]" COLOR_GREEN w9] by auto
  have run: "test_prio [a] w = Some (None, tell Exit (tell (Write_color COLOR_GREEN t) w9))"
    using assms(2) p1 c1 p4 B(1) p7 C(1) t
    by (simp add: test_prio_def TOTAL_PROCESSES_def w3_def [symmetric] w6_def [symmetric] w9_def [symmetric])
  have "acts (tell Exit (tell (Write_color COLOR_GREEN t) w9)) = acts w @
    replicate 3 ztm @ map (\<lambda>p. Waitpid (s32 p)) as @
    concat (map2 (\<lambda>p r. [ztm, Change_prio (to_u64 p) r]) bs prio) @ map (\<lambda>p. Waitpid (s32 p)) bs @
    concat (map2 (\<lambda>p r. [ztm, Block (to_u64 p), Change_prio (to_u64 p) r]) cs prio) @ map (\<lambda>p. Unblock (to_u64 p)) cs @
    map (\<lambda>p. Waitpid (s32 p)) cs @ [Exit]"
    using A W3(1) B(4) W6(1) C(4) W9 out by (simp only: acts_tell w1_def w4_def w7_def) (simp add: is_act_def)
  then show ?thesis using run A B(2) C(2) by blast
qed

section \<open>A process that prints\<close>

text \<open>\<^verbatim>\<open>endless_loop_print\<close> of \<^verbatim>\<open>test_util.c\<close> never ends; \<open>turns\<close> is how often it prints.\<close>

fun print_pid :: "nat \<Rightarrow> int \<Rightarrow> world \<Rightarrow> world option" where
  "print_pid 0 p w = Some w"
| "print_pid (Suc turns) p w = Option.bind (print_world ''%d '' [AInt (s32 p)] w) (print_pid turns p)"

definition endless_loop_print :: "nat \<Rightarrow> world \<Rightarrow> world option" where
  "endless_loop_print turns w = (let (a, w) = ask Getpid w in print_pid turns (s64 (ret a)) w)"

end
