(* ===== verification/Test_Sync.thy ===== *)
theory Test_Sync
  imports Pipe_Interleaving Test_Processes
begin

text \<open>
  The synchronisation test, \<^verbatim>\<open>Userland/SampleCodeModule/tests/test_sync.c\<close>: processes that add to a
  shared variable, with or without a semaphore around the addition.

  The processes are interleaved at every access to the variable and every semaphore call; a yield
  between two accesses changes nothing but the schedule, which is arbitrary here.  The semaphore is
  the one of the interleaved pipes, a value and the queue of the waiting processes.
\<close>

section \<open>The processes\<close>

datatype sync_pc = SLoop | SBlocked | SLoad | SAdd | SStore | SPost | SDone

record worker =
  wleft :: nat
  winc :: int
  waux :: int
  wat :: sync_pc

text \<open>The arguments of \<^verbatim>\<open>my_process_inc\<close>: the worker and whether it uses the semaphore, or its exit code.\<close>

definition my_process_inc :: "string list \<Rightarrow> nat + worker \<times> bool" where
  "my_process_inc argv = (if length argv \<noteq> 3 then Inl (to_u64 (-1)) else
     let n = to_u64 (satoi (Some (argv ! 0))); inc = s8 (satoi (Some (argv ! 1))); use_sem = s8 (satoi (Some (argv ! 2))) in
     if n \<le> 0 then Inl 1 else if inc = 0 then Inl 1 else if use_sem < 0 then Inl 1
     else Inr (\<lparr>wleft = n, winc = inc, waux = 0, wat = SLoop\<rparr>, use_sem \<noteq> 0))"

record 't sync_state =
  global :: int
  ssem :: "'t asem"
  workers :: "'t \<Rightarrow> worker"

abbreviation set_worker :: "'t sync_state \<Rightarrow> 't \<Rightarrow> worker \<Rightarrow> 't sync_state" where
  "set_worker s t x \<equiv> s\<lparr>workers := (workers s)(t := x)\<rparr>"

text \<open>\<^verbatim>\<open>slowInc\<close> is the three steps from \<open>SLoad\<close> on.\<close>

definition sync_step :: "bool \<Rightarrow> 't \<Rightarrow> 't sync_state \<Rightarrow> 't sync_state option" where
  "sync_step use_sem t s = (let x = workers s t; next = x\<lparr>wleft := wleft x - 1, wat := SLoop\<rparr> in case wat x of
     SLoop \<Rightarrow> if wleft x = 0 then Some (set_worker s t (x\<lparr>wat := SDone\<rparr>))
       else if use_sem then (let (go, z) = swait (ssem s) t in
         Some (set_worker (s\<lparr>ssem := z\<rparr>) t (x\<lparr>wat := if go then SLoad else SBlocked\<rparr>)))
       else Some (set_worker s t (x\<lparr>wat := SLoad\<rparr>))
   | SLoad \<Rightarrow> Some (set_worker s t (x\<lparr>waux := global s, wat := SAdd\<rparr>))
   | SAdd \<Rightarrow> Some (set_worker s t (x\<lparr>waux := s64 (waux x + winc x), wat := SStore\<rparr>))
   | SStore \<Rightarrow> Some (set_worker (s\<lparr>global := waux x\<rparr>) t (if use_sem then x\<lparr>wat := SPost\<rparr> else next))
   | SPost \<Rightarrow> (let (u, z) = spost (ssem s); s = set_worker (s\<lparr>ssem := z\<rparr>) t next in
       Some (case u of None \<Rightarrow> s | Some u \<Rightarrow> set_worker s u ((workers s u)\<lparr>wat := SLoad\<rparr>)))
   | _ \<Rightarrow> None)"

text \<open>A run by a schedule, the list of the workers that make the steps.\<close>

fun sync_run :: "bool \<Rightarrow> 't list \<Rightarrow> 't sync_state \<Rightarrow> 't sync_state option" where
  "sync_run use_sem [] s = Some s"
| "sync_run use_sem (t # ts) s = Option.bind (sync_step use_sem t s) (sync_run use_sem ts)"

text \<open>The start: the variable is 0, the semaphore is opened with 1 and all workers are at their loop.\<close>

definition sync_init :: "('t \<Rightarrow> nat) \<Rightarrow> ('t \<Rightarrow> int) \<Rightarrow> 't sync_state" where
  "sync_init n inc = \<lparr>global = 0, ssem = (1, []), workers = (\<lambda>t. \<lparr>wleft = n t, winc = inc t, waux = 0, wat = SLoop\<rparr>)\<rparr>"

section \<open>The invariant\<close>

definition in_section :: "sync_pc \<Rightarrow> nat" where "in_section c = of_bool (c \<in> {SLoad, SAdd, SStore, SPost})"

text \<open>What a worker has added so far, when it began with \<open>n\<close> turns.\<close>

definition added :: "nat \<Rightarrow> worker \<Rightarrow> int" where
  "added n x = winc x * (int n - int (wleft x) + of_bool (wat x = SPost))"

definition worker_ok :: "int \<Rightarrow> nat \<Rightarrow> int \<Rightarrow> worker \<Rightarrow> bool" where
  "worker_ok g n inc x \<longleftrightarrow> winc x = inc \<and> wleft x \<le> n \<and> (wat x \<notin> {SLoop, SDone} \<longrightarrow> 0 < wleft x) \<and> (wat x = SDone \<longrightarrow> wleft x = 0)
     \<and> (wat x = SAdd \<longrightarrow> waux x = g) \<and> (wat x = SStore \<longrightarrow> waux x = s64 (g + inc))"

definition sync_inv :: "'t set \<Rightarrow> ('t \<Rightarrow> nat) \<Rightarrow> ('t \<Rightarrow> int) \<Rightarrow> 't sync_state \<Rightarrow> bool" where
  "sync_inv T n inc s \<longleftrightarrow> (\<forall>t \<in> T. worker_ok (global s) (n t) (inc t) (workers s t)) \<and>
     global s = s64 (\<Sum>t \<in> T. added (n t) (workers s t)) \<and>
     fst (ssem s) + (\<Sum>t \<in> T. in_section (wat (workers s t))) = 1 \<and>
     queue_ok T (ssem s) (\<lambda>t. wat (workers s t) = SBlocked)"

lemma in_section_simps [simp]:
  "in_section SLoop = 0" "in_section SBlocked = 0" "in_section SDone = 0"
  "in_section SLoad = 1" "in_section SAdd = 1" "in_section SStore = 1" "in_section SPost = 1"
  by (simp_all add: in_section_def)

lemma s64_add: "s64 (s64 a + b) = s64 (a + b)"
proof -
  have "s64 a mod 2 ^ 64 = a mod 2 ^ 64" by (simp add: s64_def Let_def mod_diff_right_eq [symmetric] mod_simps)
  then have "(s64 a + b) mod 2 ^ 64 = (a + b) mod 2 ^ 64" by (metis mod_add_left_eq)
  then show ?thesis by (simp add: s64_def Let_def)
qed

lemma sum_worker:
  fixes g :: "'t \<Rightarrow> worker \<Rightarrow> int"
  assumes "finite T" "t \<in> T"
  shows "(\<Sum>u \<in> T. g u ((f(t := x)) u)) = (\<Sum>u \<in> T. g u (f u)) - g t (f t) + g t x"
proof -
  have "(\<Sum>u \<in> T. g u ((f(t := x)) u)) = g t x + (\<Sum>u \<in> T - {t}. g u (f u))"
    using assms by (simp add: sum.remove [of T t])
  moreover have "(\<Sum>u \<in> T. g u (f u)) = g t (f t) + (\<Sum>u \<in> T - {t}. g u (f u))"
    using assms by (rule sum.remove)
  ultimately show ?thesis by simp
qed

lemma one_in_section:
  assumes "finite T" "sync_inv T n inc s" "t \<in> T" "in_section (wat (workers s t)) = 1" "u \<in> T" "u \<noteq> t"
  shows "in_section (wat (workers s u)) = 0" "fst (ssem s) = 0"
proof -
  let ?g = "\<lambda>t. in_section (wat (workers s t))"
  have e: "fst (ssem s) + (?g t + (?g u + sum ?g (T - {t} - {u}))) = 1"
    using assms sum.remove [of T t ?g] sum.remove [of "T - {t}" u ?g] by (simp add: sync_inv_def)
  then show "in_section (wat (workers s u)) = 0" "fst (ssem s) = 0" using assms(4) by linarith+
qed

text \<open>A step of one worker that leaves the semaphore alone.\<close>

lemma sync_inv_worker:
  assumes "finite T" "sync_inv T n inc s" "t \<in> T" "in_section (wat x) = in_section (wat (workers s t))"
    "wat x \<noteq> SBlocked" "wat (workers s t) \<noteq> SBlocked" "worker_ok g (n t) (inc t) x"
    "g = global s \<and> added (n t) x = added (n t) (workers s t)
      \<or> in_section (wat x) = 1 \<and> g = s64 (global s + inc t) \<and> added (n t) x = added (n t) (workers s t) + inc t"
  shows "sync_inv T n inc (set_worker (s\<lparr>global := g\<rparr>) t x)"
proof -
  let ?f = "(workers s)(t := x)"
  note I = assms(2) [unfolded sync_inv_def]
  have "worker_ok g (n u) (inc u) (?f u)" if "u \<in> T" for u
  proof (cases "u = t \<or> g = global s")
    case False
    then have "in_section (wat (workers s u)) = 0"
      using one_in_section(1) [OF assms(1-3) _ that] assms(4,8) by auto
    then show ?thesis using I that False by (cases "wat (workers s u)") (auto simp: worker_ok_def)
  qed (use I that assms(7) in auto)
  moreover have "g = s64 (\<Sum>u \<in> T. added (n u) (?f u))"
    using sum_worker [OF assms(1,3), of "\<lambda>u. added (n u)" "workers s" x] assms(8) I s64_add by (auto simp: algebra_simps)
  moreover have "fst (ssem s) + (\<Sum>u \<in> T. in_section (wat (?f u))) = 1"
    using sum_upd [OF assms(1,3), of "\<lambda>u y. in_section (wat y)" "workers s" x] assms(4) I by simp
  moreover have "queue_ok T (ssem s) (\<lambda>u. wat (?f u) = SBlocked)"
    by (rule queue_ok_cong [where W = "\<lambda>t. wat (workers s t) = SBlocked"]) (use I assms(5,6) in auto)
  ultimately show ?thesis by (simp add: sync_inv_def)
qed

lemma sync_inv_wait:
  assumes "finite T" "sync_inv T n inc s" "t \<in> T" "wat (workers s t) = SLoop" "0 < wleft (workers s t)" "swait (ssem s) t = (go, z)"
  shows "sync_inv T n inc (set_worker (s\<lparr>ssem := z\<rparr>) t ((workers s t)\<lparr>wat := if go then SLoad else SBlocked\<rparr>))"
proof -
  let ?x = "(workers s t)\<lparr>wat := if go then SLoad else SBlocked\<rparr>"
  let ?f = "(workers s)(t := ?x)"
  note I = assms(2) [unfolded sync_inv_def]
  obtain v q where z: "ssem s = (v, q)" by force
  have go: "go = (0 < v)" "z = (if 0 < v then (v - 1, q) else (0, q @ [t]))"
    using assms(6) z by (auto simp: swait_def split: if_splits)
  have "worker_ok (global s) (n u) (inc u) (?f u)" if "u \<in> T" for u
    using I that assms(3-5) by (auto simp: worker_ok_def)
  moreover have "global s = s64 (\<Sum>u \<in> T. added (n u) (?f u))"
    using sum_worker [OF assms(1,3), of "\<lambda>u. added (n u)" "workers s" ?x] I assms(4) by (simp add: added_def)
  moreover have "fst z + (\<Sum>u \<in> T. in_section (wat (?f u))) = 1"
    using sum_upd [OF assms(1,3), of "\<lambda>u y. in_section (wat y)" "workers s" ?x] I z go assms(4) by (auto split: if_splits)
  moreover have "queue_ok T z (\<lambda>u. wat (?f u) = SBlocked)"
  proof (cases "0 < v")
    case True
    then have "queue_ok T z (\<lambda>u. wat (workers s u) = SBlocked)" using queue_ok_take [OF _ True, of T q] I z go by simp
    then show ?thesis by (rule queue_ok_cong) (use True go assms(4) in auto)
  next
    case False
    then have "queue_ok T z (\<lambda>u. u = t \<or> wat (workers s u) = SBlocked)"
      using queue_ok_wait [of T q _ t] I z go assms(3,4) by simp
    then show ?thesis by (rule queue_ok_cong) (use False go in auto)
  qed
  ultimately show ?thesis by (simp add: sync_inv_def)
qed

lemma sync_inv_post:
  assumes "finite T" "sync_inv T n inc s" "t \<in> T" "wat (workers s t) = SPost" "sync_step True t s = Some s'"
  shows "sync_inv T n inc s'"
proof -
  let ?x = "(workers s t)\<lparr>wleft := wleft (workers s t) - 1, wat := SLoop\<rparr>"
  let ?f = "(workers s)(t := ?x)"
  note I = assms(2) [unfolded sync_inv_def]
  have t: "worker_ok (global s) (n t) (inc t) (workers s t)" using I assms(3) by blast
  then have l: "0 < wleft (workers s t)" "wleft (workers s t) \<le> n t" using assms(4) by (auto simp: worker_ok_def)
  have v: "fst (ssem s) = 0"
    using I assms(1,3,4) sum.remove [of T t "\<lambda>t. in_section (wat (workers s t))"] by simp
  have x: "worker_ok (global s) (n t) (inc t) ?x" using t by (auto simp: worker_ok_def)
  have a: "added (n t) ?x = added (n t) (workers s t)" using assms(4) l by (simp add: added_def of_nat_diff)
  have A: "global s = s64 (\<Sum>u \<in> T. added (n u) (?f u))"
    using sum_worker [OF assms(1,3), of "\<lambda>u. added (n u)" "workers s" ?x] I a by simp
  have S: "(\<Sum>u \<in> T. in_section (wat (?f u))) + 1 = 1"
    using sum_upd [OF assms(1,3), of "\<lambda>u y. in_section (wat y)" "workers s" ?x] I v assms(4) by simp
  show ?thesis
  proof (cases "snd (ssem s)")
    case Nil
    then have s': "s' = set_worker (s\<lparr>ssem := (1, [])\<rparr>) t ?x" using assms(4,5) v by (cases "ssem s") (simp add: sync_step_def spost_def Let_def)
    have "queue_ok T (1, []) (\<lambda>u. wat (workers s u) = SBlocked)" using I Nil v queue_ok_put [of T 0] by (cases "ssem s") simp
    then have "queue_ok T (1, []) (\<lambda>u. wat (?f u) = SBlocked)" by (rule queue_ok_cong) (use assms(4) in auto)
    then show ?thesis using I x A S by (auto simp: sync_inv_def s')
  next
    case (Cons w ws)
    let ?y = "(?f w)\<lparr>wat := SLoad\<rparr>"
    have q: "queue_ok T (0, w # ws) (\<lambda>u. wat (workers s u) = SBlocked)" using I Cons v by (cases "ssem s") simp
    note H = queue_ok_hand [OF q]
    then have wt: "w \<noteq> t" using assms(4) by auto
    have s': "s' = set_worker (s\<lparr>ssem := (0, ws), workers := ?f\<rparr>) w ?y"
      using assms(4,5) Cons v by (cases "ssem s") (simp add: sync_step_def spost_def Let_def)
    have "worker_ok (global s) (n w) (inc w) (workers s w)" using I H(2) by blast
    then have "worker_ok (global s) (n w) (inc w) ?y" using H(3) wt by (auto simp: worker_ok_def)
    moreover have "(\<Sum>u \<in> T. added (n u) ((?f(w := ?y)) u)) = (\<Sum>u \<in> T. added (n u) (?f u))"
      using sum_worker [OF assms(1) H(2), of "\<lambda>u. added (n u)" ?f ?y] H(3) wt by (simp add: added_def)
    moreover have "(\<Sum>u \<in> T. in_section (wat ((?f(w := ?y)) u))) = 1"
      using sum_upd [OF assms(1) H(2), of "\<lambda>u y. in_section (wat y)" ?f ?y] S H(3) wt by simp
    moreover have "queue_ok T (0, ws) (\<lambda>u. wat ((?f(w := ?y)) u) = SBlocked)"
      by (rule queue_ok_cong [OF H(4)]) (use wt assms(4) in auto)
    ultimately show ?thesis using I x A by (auto simp: sync_inv_def s')
  qed
qed

lemma sync_inv_step:
  assumes "finite T" "sync_inv T n inc s" "t \<in> T" "sync_step True t s = Some s'"
  shows "sync_inv T n inc s'"
proof -
  let ?x = "workers s t"
  have ok: "worker_ok (global s) (n t) (inc t) ?x" using assms(2,3) by (auto simp: sync_inv_def)
  note W = sync_inv_worker [OF assms(1-3)]
  show ?thesis
  proof (cases "wat ?x")
    case SLoop
    show ?thesis
    proof (cases "wleft ?x = 0")
      case True
      then have "s' = set_worker (s\<lparr>global := global s\<rparr>) t (?x\<lparr>wat := SDone\<rparr>)" using SLoop assms(4) by (simp add: sync_step_def)
      then show ?thesis using True SLoop ok by (simp only:) (rule W, auto simp: worker_ok_def added_def)
    next
      case False
      obtain go z where z: "swait (ssem s) t = (go, z)" by (cases "swait (ssem s) t") blast
      show ?thesis using sync_inv_wait [OF assms(1-3) SLoop _ z] z False SLoop assms(4) by (auto simp: sync_step_def)
    qed
  next
    case SLoad
    then have "s' = set_worker (s\<lparr>global := global s\<rparr>) t (?x\<lparr>waux := global s, wat := SAdd\<rparr>)" using assms(4) by (simp add: sync_step_def Let_def)
    then show ?thesis using SLoad ok by (simp only:) (rule W, auto simp: worker_ok_def added_def)
  next
    case SAdd
    then have "s' = set_worker (s\<lparr>global := global s\<rparr>) t (?x\<lparr>waux := s64 (waux ?x + winc ?x), wat := SStore\<rparr>)"
      using assms(4) by (simp add: sync_step_def Let_def)
    then show ?thesis using SAdd ok by (simp only:) (rule W, auto simp: worker_ok_def added_def)
  next
    case SStore
    then have "s' = set_worker (s\<lparr>global := waux ?x\<rparr>) t (?x\<lparr>wat := SPost\<rparr>)" using assms(4) by (simp add: sync_step_def Let_def)
    then show ?thesis using SStore ok by (simp only:) (rule W, auto simp: worker_ok_def added_def algebra_simps)
  next
    case SPost
    then show ?thesis using sync_inv_post [OF assms(1-3) SPost assms(4)] by blast
  qed (use assms(4) in \<open>simp_all add: sync_step_def\<close>)
qed

lemma sync_inv_init: "finite T \<Longrightarrow> sync_inv T n inc (sync_init n inc)"
  by (simp add: sync_inv_def sync_init_def worker_ok_def added_def queue_ok_def s64_def)

section \<open>All turns are taken\<close>

lemma sync_stuck:
  assumes "finite T" "sync_inv T n inc s" "\<And>t. t \<in> T \<Longrightarrow> sync_step True t s = None" "t \<in> T"
  shows "wat (workers s t) = SDone"
proof -
  have at: "wat (workers s u) = SDone \<or> wat (workers s u) = SBlocked" if "u \<in> T" for u
    using assms(3) [OF that] by (cases "wat (workers s u)") (auto simp: sync_step_def Let_def split: if_splits prod.splits)
  have "(\<Sum>u \<in> T. in_section (wat (workers s u))) = 0"
  proof (rule sum.neutral, rule ballI)
    fix u assume "u \<in> T" then show "in_section (wat (workers s u)) = 0" using at by fastforce
  qed
  then have "fst (ssem s) = 1" using assms(2) by (simp add: sync_inv_def)
  then have "{t \<in> T. wat (workers s t) = SBlocked} = {}" using assms(2) by (auto simp: sync_inv_def queue_ok_def)
  then show ?thesis using at [OF assms(4)] assms(4) by blast
qed

lemma sync_final:
  assumes "sync_inv T n inc s" "\<And>t. t \<in> T \<Longrightarrow> wat (workers s t) = SDone"
  shows "global s = s64 (\<Sum>t \<in> T. inc t * int (n t))"
proof -
  have "added (n t) (workers s t) = inc t * int (n t)" if "t \<in> T" for t
    using assms that by (simp add: sync_inv_def worker_ok_def added_def)
  then have "(\<Sum>t \<in> T. added (n t) (workers s t)) = (\<Sum>t \<in> T. inc t * int (n t))" by (rule sum.cong [OF refl])
  then show ?thesis using assms(1) by (simp add: sync_inv_def)
qed

text \<open>How many steps a worker has left at most.\<close>

definition steps_left :: "worker \<Rightarrow> nat" where
  "steps_left x = (case wat x of SLoop \<Rightarrow> 6 * wleft x + 1 | SBlocked \<Rightarrow> 6 * wleft x | SLoad \<Rightarrow> 6 * wleft x - 1 | SAdd \<Rightarrow> 6 * wleft x - 2
     | SStore \<Rightarrow> 6 * wleft x - 3 | SPost \<Rightarrow> 6 * wleft x - 4 | SDone \<Rightarrow> 0)"

lemma sync_step_less:
  assumes "finite T" "sync_inv T n inc s" "t \<in> T" "sync_step True t s = Some s'"
  shows "(\<Sum>u \<in> T. steps_left (workers s' u)) < (\<Sum>u \<in> T. steps_left (workers s u))"
proof -
  let ?S = "\<lambda>f. \<Sum>u \<in> T. steps_left (f u)"
  let ?x = "workers s t"
  have one: "?S ((workers s)(t := y)) < ?S (workers s)" if "steps_left y < steps_left ?x" for y
    using sum_upd [OF assms(1,3), of "\<lambda>u. steps_left" "workers s" y] that by linarith
  have ok: "worker_ok (global s) (n t) (inc t) ?x" using assms(2,3) by (auto simp: sync_inv_def)
  show ?thesis
  proof (cases "wat ?x = SPost \<and> snd (ssem s) \<noteq> []")
    case False
    then obtain y where "workers s' = (workers s)(t := y)" "steps_left y < steps_left ?x"
      using ok assms(4) by (cases "wat ?x"; cases "ssem s")
        (auto simp: sync_step_def Let_def swait_def spost_def steps_left_def worker_ok_def split: if_splits list.splits)
    then show ?thesis using one by simp
  next
    case True
    let ?y = "?x\<lparr>wleft := wleft ?x - 1, wat := SLoop\<rparr>"
    let ?f = "(workers s)(t := ?y)"
    obtain v w ws where z: "ssem s = (v, w # ws)" using True by (cases "ssem s"; cases "snd (ssem s)") auto
    then have "queue_ok T (v, w # ws) (\<lambda>u. wat (workers s u) = SBlocked)" using assms(2) by (simp add: sync_inv_def)
    note H = queue_ok_hand [OF this]
    then have wt: "w \<noteq> t" using True by auto
    have s': "workers s' = ?f(w := (?f w)\<lparr>wat := SLoad\<rparr>)"
      using True z assms(4) by (auto simp: sync_step_def Let_def spost_def)
    have "steps_left ((?f w)\<lparr>wat := SLoad\<rparr>) \<le> steps_left (?f w)" using H(3) wt by (simp add: steps_left_def)
    then have "?S (workers s') \<le> ?S ?f"
      using sum_upd [OF assms(1) H(2), of "\<lambda>u. steps_left" ?f "(?f w)\<lparr>wat := SLoad\<rparr>"] s' by simp
    moreover have "steps_left ?y < steps_left ?x" using True ok by (cases "wleft ?x") (simp_all add: steps_left_def worker_ok_def)
    then have "?S ?f < ?S (workers s)" by (rule one)
    ultimately show ?thesis by linarith
  qed
qed

lemma sync_run_inv:
  assumes "finite T" "sync_inv T n inc s" "set ts \<subseteq> T" "sync_run True ts s = Some s'"
  shows "sync_inv T n inc s' \<and> length ts + (\<Sum>u \<in> T. steps_left (workers s' u)) \<le> (\<Sum>u \<in> T. steps_left (workers s u))"
  using assms(2-4)
proof (induction ts arbitrary: s)
  case (Cons t ts)
  then obtain s1 where s1: "sync_step True t s = Some s1" "sync_run True ts s1 = Some s'"
    by (auto split: Option.bind_splits)
  note step = sync_inv_step [OF assms(1) Cons.prems(1) _ s1(1)] sync_step_less [OF assms(1) Cons.prems(1) _ s1(1)]
  show ?case using Cons.IH [OF step(1) _ s1(2)] step(2) Cons.prems(2) by force
qed simp

section \<open>The program\<close>

definition SEM_ID :: int where "SEM_ID = 10"
definition TOTAL_PAIR_PROCESSES :: nat where "TOTAL_PAIR_PROCESSES = 2"

definition create_inc :: "string list \<Rightarrow> world \<Rightarrow> nat \<times> world" where
  "create_inc args w = (case ask (Create ''my_process_inc'' ''my_process_inc'' (Argv args) 1 0 (-1) 1) w of (a, w) \<Rightarrow> (to_u64 (ret a), w))"

text \<open>The processes in pairs; the identifiers in the order of creation.\<close>

fun create_pairs :: "string list \<Rightarrow> string list \<Rightarrow> nat \<Rightarrow> world \<Rightarrow> (nat \<times> nat) list \<times> world" where
  "create_pairs argvDec argvInc 0 w = ([], w)"
| "create_pairs argvDec argvInc (Suc n) w = (let (p, w) = create_inc argvDec w; (q, w) = create_inc argvInc w;
     (ps, w) = create_pairs argvDec argvInc n w in ((p, q) # ps, w))"

text \<open>The value of the shared variable after the waits, \<open>final\<close>, is what the processes left.\<close>

definition test_sync :: "int \<Rightarrow> string list \<Rightarrow> world \<Rightarrow> (nat \<times> world) option" where
  "test_sync final argv w = (if length argv \<noteq> 2 then Some (to_u64 (-1), w)
     else let use_sem_flag = s8 (satoi (Some (argv ! 1))) in if use_sem_flag < 0 then Some (to_u64 (-1), w)
     else let (a, w) = (if use_sem_flag \<noteq> 0 then ask (Sem_open SEM_ID 1) w else (\<lparr>ret = 0, outs = [], table = []\<rparr>, w)) in
     if use_sem_flag \<noteq> 0 \<and> s32 (ret a) = -1
     then map_option (Pair (to_u64 (-1))) (printfc_world COLOR_RED (''test_sync: ERROR opening semaphore for test_sync'' @ [CHR 0x0A]) [] w)
     else let (pids, w) = create_pairs [argv ! 0, ''-1'', argv ! 1] [argv ! 0, ''1'', argv ! 1] TOTAL_PAIR_PROCESSES w;
       w = fold (\<lambda>(p, q) w. tell (Waitpid (s32 (int q))) (tell (Waitpid (s32 (int p))) w)) pids w;
       (a, w) = (if use_sem_flag \<noteq> 0 then ask (Sem_close SEM_ID) w else (\<lparr>ret = 0, outs = [], table = []\<rparr>, w)) in
     if use_sem_flag \<noteq> 0 \<and> s32 (ret a) = -1
     then map_option (Pair (to_u64 (-1))) (printfc_world COLOR_RED (''test_sync: ERROR closing semaphore'' @ [CHR 0x0A]) [] w)
     else map_option (Pair 0) (printfc_world COLOR_GREEN (''Final value: %d'' @ [CHR 0x0A]) [AInt (s32 final)] w))"

text \<open>The arguments that the program hands out make two workers that subtract and two that add; with the semaphore they
  leave the variable at 0.\<close>

lemma test_sync_zero:
  fixes s :: "nat sync_state"
  assumes "satoi (Some a) = int n" "0 < n" "n < 2 ^ 63"
  shows "my_process_inc [a, ''-1'', ''1''] = Inr (\<lparr>wleft = n, winc = -1, waux = 0, wat = SLoop\<rparr>, True)"
    "my_process_inc [a, ''1'', ''1''] = Inr (\<lparr>wleft = n, winc = 1, waux = 0, wat = SLoop\<rparr>, True)"
    "set ts \<subseteq> {0..<4} \<Longrightarrow> sync_run True ts (sync_init (\<lambda>_. n) (\<lambda>t. if t < 2 then -1 else 1)) = Some s \<Longrightarrow>
      \<forall>t \<in> {0..<4}. sync_step True t s = None \<Longrightarrow> global s = 0"
proof -
  have s: "satoi (Some ''-1'') = -1" "satoi (Some ''1'') = 1" by (simp_all add: satoi_def is_digit_def s64_def Let_def)
  have n: "to_u64 (int n) = n" using assms(3) by (simp add: to_u64_def)
  show "my_process_inc [a, ''-1'', ''1''] = Inr (\<lparr>wleft = n, winc = -1, waux = 0, wat = SLoop\<rparr>, True)"
    "my_process_inc [a, ''1'', ''1''] = Inr (\<lparr>wleft = n, winc = 1, waux = 0, wat = SLoop\<rparr>, True)"
    using assms s n by (simp_all add: my_process_inc_def s8_def Let_def)
  assume "set ts \<subseteq> {0..<4}" "sync_run True ts (sync_init (\<lambda>_. n) (\<lambda>t. if t < 2 then -1 else 1)) = Some s"
    "\<forall>t \<in> {0..<4}. sync_step True t s = None"
  note I = conjunct1 [OF sync_run_inv [OF _ sync_inv_init this(1,2)]]
  have I: "sync_inv {0..<4} (\<lambda>_. n) (\<lambda>t. if t < 2 then -1 else 1) s" by (rule I) simp_all
  then have "global s = s64 (\<Sum>t \<in> {0..<4::nat}. (if t < 2 then -1 else 1) * int n)"
    using sync_final [OF I] sync_stuck [OF _ I] \<open>\<forall>t \<in> {0..<4}. sync_step True t s = None\<close> by simp
  then show "global s = 0" by (simp add: numeral_eq_Suc s64_def)
qed

lemma test_sync_calls:
  assumes "\<And>ts c. s32 (ret (reply w ts c)) \<noteq> -1" "satoi (Some f) = 1" "- (2 ^ 31) < s32 final"
  shows "\<exists>w' p q r t. test_sync final [a, f] w = Some (0, w') \<and> acts w' = acts w @ [Sem_open 10 1] @
    (let D = Create ''my_process_inc'' ''my_process_inc'' (Argv [a, ''-1'', f]) 1 0 (-1) 1;
         I = Create ''my_process_inc'' ''my_process_inc'' (Argv [a, ''1'', f]) 1 0 (-1) 1 in [D, I, D, I]) @
    [Waitpid p, Waitpid q, Waitpid r, Waitpid t, Sem_close 10]"
proof -
  have fit: "fits (''Final value: %d'' @ [CHR 0x0A]) [AInt (s32 final)]" using assms(3) s32_less [of final] by simp
  have act: "is_act (Sem_open i j)" "is_act (Sem_close i)" "is_act (Create b c d e g h k)" "\<not> is_act (Write_color l m)" for b c d e g h i j k l m
    by (simp_all add: is_act_def)
  obtain u where u: "printfc_world COLOR_GREEN (''Final value: %d'' @ [CHR 0x0A]) [AInt (s32 final)] v = Some (tell (Write_color COLOR_GREEN (u v)) v)" for v
    using print_some(3) [OF fit] by metis
  show ?thesis using assms(1,2) u act
    by (simp add: test_sync_def s8_def create_inc_def ask_eq Let_def TOTAL_PAIR_PROCESSES_def SEM_ID_def numeral_2_eq_2)
qed

section \<open>The test\<close>



end
